(* ===== verification/Prelude.thy ===== *)
theory Prelude
  imports Main "HOL-Library.Word"
begin

text \<open>
  What every component of the development shares.

  \<^item> The C integer types of \<^verbatim>\<open>types.h\<close> as words and the constants of \<^verbatim>\<open>param.h\<close>.
  \<^item> The result type of kernel code: a call returns a value and a new state (\<open>Inr\<close>), or it does
    not return to its caller (\<open>Inl\<close>), because it called \<^verbatim>\<open>panic\<close>, because it went to sleep
    on a channel, or because the C code would have read or written outside an array.
    \<open>bindr\<close> sequences two calls; its simp rules and its splitting rules carry the proofs about
    straight-line code.
  \<^item> Little-endian loads and stores of 16 and 32 bits in a byte array.
  \<^item> The collections \<open>kdefs\<close> (definitions that are unfolded together) and \<open>kframe\<close> (what
    an operation leaves alone).
\<close>

unbundle bit_operations_syntax

named_theorems kdefs \<open>definitions of kernel operations\<close>
named_theorems kframe \<open>what a kernel operation leaves unchanged\<close>

section \<open>Integers and constants\<close>

type_synonym uint = "32 word"
type_synonym ushort = "16 word"
type_synonym uchar = "8 word"

definition NPROC :: nat where [simp]: "NPROC = 64"
definition KSTACKSIZE :: nat where [simp]: "KSTACKSIZE = 4096"
definition NOFILE :: nat where [simp]: "NOFILE = 16"
definition NFILE :: nat where [simp]: "NFILE = 100"
definition NINODE :: nat where [simp]: "NINODE = 50"
definition NDEV :: int where [simp]: "NDEV = 10"
definition ROOTDEV :: uint where [simp]: "ROOTDEV = 1"
definition MAXOPBLOCKS :: nat where [simp]: "MAXOPBLOCKS = 10"
definition LOGSIZE :: nat where [simp]: "LOGSIZE = MAXOPBLOCKS * 3"
definition NBUF :: nat where [simp]: "NBUF = MAXOPBLOCKS * 3"
definition FSSIZE :: nat where [simp]: "FSSIZE = 1000"

section \<open>Results of kernel code\<close>

text \<open>
  A sleep channel is the address of a kernel object.  Distinct objects have distinct addresses, so
  a channel is the identity of the object: the sleep lock of a buffer or of an inode, a buffer, the
  log, a process, one of the two counters of a pipe, the clock and the console input.
\<close>

datatype chan =
    ChanBufLock nat | ChanInodeLock nat | ChanBuf nat | ChanLog | ChanProc nat
  | ChanPipeRead uint | ChanPipeWrite uint | ChanTicks | ChanInput

datatype kerror = Panic string | Asleep chan | Undefined string

type_synonym 'a res = "kerror + 'a"

definition bindr :: "'a res \<Rightarrow> ('a \<Rightarrow> 'b res) \<Rightarrow> 'b res" where
  "bindr m f = (case m of Inl e \<Rightarrow> Inl e | Inr x \<Rightarrow> f x)"

lemma bindr_Inl [simp]: "bindr (Inl e) f = Inl e"
  by (simp add: bindr_def)

lemma bindr_Inr [simp]: "bindr (Inr x) f = f x"
  by (simp add: bindr_def)

lemma bindr_cong [fundef_cong]:
  "m = m' \<Longrightarrow> (\<And>x. m' = Inr x \<Longrightarrow> f x = g x) \<Longrightarrow> bindr m f = bindr m' g"
  by (simp add: bindr_def split: sum.split)

lemma bindr_eq_Inr [simp]: "bindr m f = Inr y \<longleftrightarrow> (\<exists>x. m = Inr x \<and> f x = Inr y)"
  by (cases m) auto

lemma Inr_eq_bindr [simp]: "Inr y = bindr m f \<longleftrightarrow> (\<exists>x. m = Inr x \<and> f x = Inr y)"
  by (cases m) auto

lemma bindr_eq_Inl: "bindr m f = Inl e \<longleftrightarrow> m = Inl e \<or> (\<exists>x. m = Inr x \<and> f x = Inl e)"
  by (cases m) auto

lemma bindr_assoc: "bindr (bindr m f) g = bindr m (\<lambda>x. bindr (f x) g)"
  by (cases m) auto

text \<open>\<open>returns m P\<close>: the call returns, and its value satisfies \<open>P\<close>.\<close>

definition returns :: "'a res \<Rightarrow> ('a \<Rightarrow> bool) \<Rightarrow> bool" where
  "returns m P \<longleftrightarrow> (\<exists>x. m = Inr x \<and> P x)"

lemma returns_Inr [simp]: "returns (Inr x) P \<longleftrightarrow> P x"
  by (simp add: returns_def)

lemma returns_Inl [simp]: "\<not> returns (Inl e) P"
  by (simp add: returns_def)

lemma returns_bindr:
  assumes "returns m P" and "\<And>x. m = Inr x \<Longrightarrow> P x \<Longrightarrow> returns (f x) Q"
  shows "returns (bindr m f) Q"
  using assms by (auto simp: returns_def)

lemma returns_mono: "returns m P \<Longrightarrow> (\<And>x. m = Inr x \<Longrightarrow> P x \<Longrightarrow> Q x) \<Longrightarrow> returns m Q"
  by (auto simp: returns_def)

lemma returnsE:
  assumes "returns m P"
  obtains x where "m = Inr x" and "P x"
  using assms by (auto simp: returns_def)

section \<open>Byte arrays\<close>

text \<open>
  A disk block and the data of a buffer are arrays of \<^verbatim>\<open>BSIZE\<close> bytes.  They are functions from
  the index; the model never reads an index beyond the array, and an operation on the whole array
  (\<^verbatim>\<open>memmove(.., BSIZE)\<close>, \<^verbatim>\<open>memset(.., 0, BSIZE)\<close>) acts on the whole function.
\<close>

type_synonym block = "nat \<Rightarrow> uchar"

definition join32 :: "uchar \<Rightarrow> uchar \<Rightarrow> uchar \<Rightarrow> uchar \<Rightarrow> uint" where
  "join32 b0 b1 b2 b3 =
     ucast b0 OR push_bit 8 (ucast b1) OR push_bit 16 (ucast b2) OR push_bit 24 (ucast b3)"

definition join16 :: "uchar \<Rightarrow> uchar \<Rightarrow> ushort" where
  "join16 b0 b1 = ucast b0 OR push_bit 8 (ucast b1)"

lemma join32_split [simp]:
  "join32 (ucast v) (ucast (drop_bit 8 v)) (ucast (drop_bit 16 v)) (ucast (drop_bit 24 v)) = v"
proof (rule bit_word_eqI)
  fix n assume n: "n < LENGTH(32)"
  consider "n < 8" | "8 \<le> n" "n < 16" | "16 \<le> n" "n < 24" | "24 \<le> n" "n < 32"
    using n by force
  then show "bit (join32 (ucast v) (ucast (drop_bit 8 v)) (ucast (drop_bit 16 v))
                   (ucast (drop_bit 24 v))) n = bit v n"
    by cases (auto simp: join32_def bit_simps)
qed

lemma join16_split [simp]: "join16 (ucast v) (ucast (drop_bit 8 v)) = v"
proof (rule bit_word_eqI)
  fix n assume n: "n < LENGTH(16)"
  consider "n < 8" | "8 \<le> n" "n < 16"
    using n by force
  then show "bit (join16 (ucast v) (ucast (drop_bit 8 v))) n = bit v n"
    by cases (auto simp: join16_def bit_simps)
qed

definition get32 :: "block \<Rightarrow> nat \<Rightarrow> uint" where
  "get32 d k = join32 (d k) (d (k + 1)) (d (k + 2)) (d (k + 3))"

definition put32 :: "block \<Rightarrow> nat \<Rightarrow> uint \<Rightarrow> block" where
  "put32 d k v = d(k := ucast v, k + 1 := ucast (drop_bit 8 v),
                   k + 2 := ucast (drop_bit 16 v), k + 3 := ucast (drop_bit 24 v))"

definition get16 :: "block \<Rightarrow> nat \<Rightarrow> ushort" where
  "get16 d k = join16 (d k) (d (k + 1))"

definition put16 :: "block \<Rightarrow> nat \<Rightarrow> ushort \<Rightarrow> block" where
  "put16 d k v = d(k := ucast v, k + 1 := ucast (drop_bit 8 v))"

lemma get32_put32 [simp]: "get32 (put32 d k v) k = v"
  by (simp add: get32_def put32_def)

lemma get32_put32_other [simp]:
  "k + 4 \<le> j \<or> j + 4 \<le> k \<Longrightarrow> get32 (put32 d k v) j = get32 d j"
  by (auto simp: get32_def put32_def)

lemma get16_put16 [simp]: "get16 (put16 d k v) k = v"
  by (simp add: get16_def put16_def)

lemma get16_put16_other [simp]:
  "k + 2 \<le> j \<or> j + 2 \<le> k \<Longrightarrow> get16 (put16 d k v) j = get16 d j"
  by (auto simp: get16_def put16_def)

lemma get32_put16_other [simp]:
  "k + 2 \<le> j \<or> j + 4 \<le> k \<Longrightarrow> get32 (put16 d k v) j = get32 d j"
  by (auto simp: get32_def put16_def)

lemma get16_put32_other [simp]:
  "k + 4 \<le> j \<or> j + 2 \<le> k \<Longrightarrow> get16 (put32 d k v) j = get16 d j"
  by (auto simp: get16_def put32_def)

lemma put32_outside [simp]: "i < k \<or> k + 4 \<le> i \<Longrightarrow> put32 d k v i = d i"
  by (auto simp: put32_def)

lemma put16_outside [simp]: "i < k \<or> k + 2 \<le> i \<Longrightarrow> put16 d k v i = d i"
  by (auto simp: put16_def)

text \<open>\<^verbatim>\<open>memmove\<close> of the bytes \<open>xs\<close> to offset \<open>k\<close> of an array, and the bytes of a range.\<close>

definition put_bytes :: "block \<Rightarrow> nat \<Rightarrow> uchar list \<Rightarrow> block" where
  "put_bytes d k xs = (\<lambda>i. if k \<le> i \<and> i < k + length xs then xs ! (i - k) else d i)"

definition get_bytes :: "block \<Rightarrow> nat \<Rightarrow> nat \<Rightarrow> uchar list" where
  "get_bytes d k n = map d [k ..< k + n]"

lemma length_get_bytes [simp]: "length (get_bytes d k n) = n"
  by (simp add: get_bytes_def)

lemma get_put_bytes: "get_bytes (put_bytes d k xs) k (length xs) = xs"
  by (rule nth_equalityI) (simp_all add: get_bytes_def put_bytes_def)

lemma put_bytes_outside [simp]: "i < k \<or> k + length xs \<le> i \<Longrightarrow> put_bytes d k xs i = d i"
  by (auto simp: put_bytes_def)

section \<open>Machine memory\<close>

text \<open>
  Kernel memory is a function from 32-bit virtual addresses to bytes.  The kernel maps all of
  physical memory at \<^verbatim>\<open>KERNBASE\<close>, so this is also physical memory, seen through
  \<^verbatim>\<open>P2V\<close>.
\<close>

type_synonym memory = "uint \<Rightarrow> uchar"

definition load32 :: "memory \<Rightarrow> uint \<Rightarrow> uint" where
  "load32 m a = join32 (m a) (m (a + 1)) (m (a + 2)) (m (a + 3))"

definition store32 :: "memory \<Rightarrow> uint \<Rightarrow> uint \<Rightarrow> memory" where
  "store32 m a v = m(a := ucast v, a + 1 := ucast (drop_bit 8 v),
                     a + 2 := ucast (drop_bit 16 v), a + 3 := ucast (drop_bit 24 v))"

lemma load32_store32 [simp]: "load32 (store32 m a v) a = v"
  by (simp add: load32_def store32_def)

text \<open>Aligned areas of \<open>N\<close> bytes at different addresses do not overlap.\<close>

definition aligned :: "nat \<Rightarrow> uint \<Rightarrow> bool" where
  "aligned N a \<longleftrightarrow> unat a mod N = 0"

lemma unat_uint_bound: "unat (a :: uint) < 2 ^ 32"
  using unsigned_less [where 'a = nat and w = a] by simp

lemma aligned_room:
  assumes "aligned N a" and "N dvd 2 ^ 32" shows "unat a + N \<le> 2 ^ 32"
proof -
  obtain r where r: "2 ^ 32 = N * r" using assms(2) by (rule dvdE)
  obtain q where q: "unat a = N * q" using assms(1) by (auto simp: aligned_def mod_eq_0_iff_dvd elim: dvdE)
  have "N * q < N * r" using unat_uint_bound [of a] q r by simp
  then have "Suc q \<le> r" by simp
  then have "N * Suc q \<le> N * r" by (rule mult_le_mono2)
  then show ?thesis using q r by simp
qed

lemma unat_add_offset:
  fixes a :: uint
  assumes "unat a + i < 2 ^ 32" shows "unat (a + of_nat i) = unat a + i"
  using assms by (simp add: unat_word_ariths unat_of_nat)

lemma aligned_apart:
  assumes "aligned N a" and "aligned N b" and "N dvd 2 ^ 32" and "a \<noteq> b" and "i < N" and "j < N"
  shows "a + of_nat i \<noteq> b + of_nat j"
proof
  assume eq: "a + of_nat i = b + of_nat j"
  have "unat (a + of_nat i) = unat a + i" "unat (b + of_nat j) = unat b + j"
    using aligned_room [OF assms(1,3)] aligned_room [OF assms(2,3)] assms(5,6)
    by (auto intro!: unat_add_offset)
  with eq have sum: "unat a + i = unat b + j" by simp
  have "unat a = N * ((unat a + i) div N)" "unat b = N * ((unat b + j) div N)"
    using assms(1,2,5,6) by (auto simp: aligned_def mod_eq_0_iff_dvd elim!: dvdE)
  then have "unat a = unat b" using sum by simp
  then show False using assms(4) by (simp add: word_unat_eq_iff)
qed

lemma aligned_mono: "aligned N a \<Longrightarrow> M dvd N \<Longrightarrow> aligned M a"
  by (auto simp: aligned_def mod_eq_0_iff_dvd intro: dvd_trans)

lemma load32_store32_other [simp]:
  assumes "aligned 4 a" and "aligned 4 b" and "a \<noteq> b"
  shows "load32 (store32 m a v) b = load32 m b"
proof -
  note n = aligned_apart [OF assms(1,2) _ assms(3)]
  from n [of 0 0] n [of 0 1] n [of 0 2] n [of 0 3] n [of 1 0] n [of 1 1] n [of 1 2] n [of 1 3]
    n [of 2 0] n [of 2 1] n [of 2 2] n [of 2 3] n [of 3 0] n [of 3 1] n [of 3 2] n [of 3 3]
  show ?thesis
    by (simp add: load32_def store32_def)
qed

section \<open>Ring buffers\<close>

text \<open>
  An array of \<open>N\<close> bytes that is indexed by counters modulo \<open>N\<close>.  The counters are 32-bit words that
  only grow and wrap around, which does no harm when \<open>N\<close> divides \<open>2\<^sup>3\<^sup>2\<close>.  \<open>ring N d a b\<close> are the bytes from
  counter \<open>a\<close> up to counter \<open>b\<close>.
\<close>

definition ring :: "nat \<Rightarrow> block \<Rightarrow> uint \<Rightarrow> uint \<Rightarrow> uchar list" where
  "ring N d a b = map (\<lambda>i. d ((unat a + i) mod N)) [0..<unat (b - a)]"

lemma length_ring [simp]: "length (ring N d a b) = unat (b - a)"
  by (simp add: ring_def)

lemma ring_empty_iff: "ring N d a b = [] \<longleftrightarrow> a = b"
  by (auto simp: ring_def unat_eq_0)

lemma unat_add_mod:
  assumes "N dvd 2 ^ 32"
  shows "unat (a + of_nat n :: uint) mod N = (unat a + n) mod N"
proof -
  have "unat (a + of_nat n) = (unat a + n) mod 2 ^ 32"
    by (simp add: unat_word_ariths unat_of_nat mod_add_right_eq)
  then show ?thesis using assms by (simp add: mod_mod_cancel)
qed

lemma mod_apart:
  fixes a :: nat
  assumes "i < n" "n < N"
  shows "(a + i) mod N \<noteq> (a + n) mod N"
proof
  assume "(a + i) mod N = (a + n) mod N"
  then have "N dvd (a + n) - (a + i)" using assms mod_eq_dvd_iff_nat[of "a + i" "a + n" N] by simp
  then show False using assms by (auto dest: dvd_imp_le)
qed

lemma ring_upd_other:
  assumes N: "N dvd 2 ^ 32" and e: "unat (e - a) < N" "unat (b - a) \<le> unat (e - a)"
  shows "ring N (d(unat e mod N := x)) a b = ring N d a b"
proof -
  have "unat e mod N = (unat a + unat (e - a)) mod N"
    using unat_add_mod[OF N, of a "unat (e - a)"] by simp
  then show ?thesis
    using mod_apart[of _ "unat (e - a)" N "unat a"] e by (auto simp: ring_def)
qed

lemma unat_Suc_diff: "unat (b - a :: uint) + 1 < 2 ^ 32 \<Longrightarrow> unat (b + 1 - a) = Suc (unat (b - a))"
  using unat_add_offset[of "b - a" 1] by (simp add: algebra_simps)

lemma ring_snoc:
  assumes N: "N dvd 2 ^ 32" and n: "unat (b - a) < N" "N < 2 ^ 32"
  shows "ring N (d(unat b mod N := c)) a (b + 1) = ring N d a b @ [c]"
proof -
  have eq: "unat (b + 1 - a) = Suc (unat (b - a))" using n by (simp add: unat_Suc_diff)
  have w: "unat b mod N = (unat a + unat (b - a)) mod N"
    using unat_add_mod[OF N, of a "unat (b - a)"] by simp
  show ?thesis
    using eq w ring_upd_other[OF N n(1) order_refl, of d c] by (simp add: ring_def)
qed

lemma ring_Cons:
  assumes N: "N dvd 2 ^ 32" and "a \<noteq> b"
  shows "ring N d a b = d (unat a mod N) # ring N d (a + 1) b"
proof -
  have "b - a \<noteq> 0" using assms(2) by simp
  then have n: "unat (b - a) = Suc (unat (b - (a + 1)))"
    using unat_minus_one[of "b - a"] unat_gt_0[of "b - a"] by (simp add: algebra_simps)
  have "(unat (a + 1) + i) mod N = (unat a + Suc i) mod N" for i
    using unat_add_mod[OF N, of a 1] by (metis add.assoc mod_add_left_eq of_nat_1 plus_1_eq_Suc)
  then show ?thesis
    unfolding ring_def n by (simp add: upt_conv_Cons map_Suc_upt[symmetric] del: upt_Suc)
qed

lemma ring_butlast:
  assumes "a \<noteq> b"
  shows "ring N d a (b - 1) = butlast (ring N d a b)"
proof -
  have "b - a \<noteq> 0" using assms by simp
  then have n: "unat (b - a) = Suc (unat (b - 1 - a))"
    using unat_minus_one[of "b - a"] unat_gt_0[of "b - a"] by (simp add: algebra_simps)
  show ?thesis unfolding ring_def n by simp
qed

lemma ring_append:
  assumes N: "N dvd 2 ^ 32" and n: "unat (b - a) + unat (c - b) < 2 ^ 32"
  shows "ring N d a c = ring N d a b @ ring N d b c"
proof -
  have s: "unat (c - a) = unat (b - a) + unat (c - b)"
    using unat_add_offset[of "b - a" "unat (c - b)"] n by (simp add: algebra_simps)
  have "unat b mod N = (unat a + unat (b - a)) mod N"
    using unat_add_mod[OF N, of a "unat (b - a)"] by simp
  then have i: "(unat b + i) mod N = (unat a + (unat (b - a) + i)) mod N" for i
    by (metis add.assoc mod_add_left_eq)
  show ?thesis
    by (rule nth_equalityI) (auto simp: ring_def s nth_append i)
qed

lemma ring_last:
  assumes N: "N dvd 2 ^ 32" and "a \<noteq> b"
  shows "last (ring N d a b) = d (unat (b - 1) mod N)"
proof -
  have "b - a \<noteq> 0" using assms by simp
  then have n: "unat (b - a) = Suc (unat (b - 1 - a))"
    using unat_minus_one[of "b - a"] unat_gt_0[of "b - a"] by (simp add: algebra_simps)
  show ?thesis using unat_add_mod[OF N, of a "unat (b - 1 - a)"] unfolding ring_def n by simp
qed

end
