(* ===== verification/Kstring.thy ===== *)
theory Kstring
  imports Prelude
begin

text \<open>
  The kernel's string library, \<^verbatim>\<open>string.c\<close>.

  \<^verbatim>\<open>memset\<close>, \<^verbatim>\<open>memcmp\<close> and \<^verbatim>\<open>memmove\<close> work on machine memory, because what they do
  depends on the addresses: \<^verbatim>\<open>memset\<close> picks the string instruction by alignment and
  \<^verbatim>\<open>memmove\<close> picks its direction by the overlap of the two areas.  The functions on
  NUL-terminated strings read a pointer as the stream of bytes it points to (\<open>str_at\<close>), and
  write an array of bytes.  Each is proved equal to a specification that mentions no loop.
\<close>

section \<open>Memory\<close>

primrec stosb :: "memory \<Rightarrow> uint \<Rightarrow> uchar \<Rightarrow> nat \<Rightarrow> memory" where
  "stosb m a c 0 = m"
| "stosb m a c (Suc n) = stosb (m(a := c)) (a + 1) c n"

primrec stosl :: "memory \<Rightarrow> uint \<Rightarrow> uint \<Rightarrow> nat \<Rightarrow> memory" where
  "stosl m a w 0 = m"
| "stosl m a w (Suc n) = stosl (store32 m a w) (a + 4) w n"

definition memset :: "memory \<Rightarrow> uint \<Rightarrow> uint \<Rightarrow> uint \<Rightarrow> memory" where
  "memset m dst c n =
     (if dst mod 4 = 0 \<and> n mod 4 = 0
      then (let c = c AND 0xFF
            in stosl m dst (push_bit 24 c OR push_bit 16 c OR push_bit 8 c OR c) (unat n div 4))
      else stosb m dst (ucast c) (unat n))"

primrec memcmp :: "memory \<Rightarrow> uint \<Rightarrow> uint \<Rightarrow> nat \<Rightarrow> int" where
  "memcmp m s1 s2 0 = 0"
| "memcmp m s1 s2 (Suc n) =
     (if m s1 \<noteq> m s2 then uint (m s1) - uint (m s2) else memcmp m (s1 + 1) (s2 + 1) n)"

primrec copy_up :: "memory \<Rightarrow> uint \<Rightarrow> uint \<Rightarrow> nat \<Rightarrow> memory" where
  "copy_up m d s 0 = m"
| "copy_up m d s (Suc n) = copy_up (m(d := m s)) (d + 1) (s + 1) n"

primrec copy_down :: "memory \<Rightarrow> uint \<Rightarrow> uint \<Rightarrow> nat \<Rightarrow> memory" where
  "copy_down m d s 0 = m"
| "copy_down m d s (Suc n) = copy_down (m(d - 1 := m (s - 1))) (d - 1) (s - 1) n"

definition memmove :: "memory \<Rightarrow> uint \<Rightarrow> uint \<Rightarrow> uint \<Rightarrow> memory" where
  "memmove m dst src n =
     (if src < dst \<and> src + n > dst
      then copy_down m (dst + n) (src + n) (unat n)
      else copy_up m dst src (unat n))"

section \<open>Strings\<close>

definition str_at :: "memory \<Rightarrow> uint \<Rightarrow> nat \<Rightarrow> uchar" where
  "str_at m a = (\<lambda>i. m (a + of_nat i))"

primrec strncmp :: "(nat \<Rightarrow> uchar) \<Rightarrow> (nat \<Rightarrow> uchar) \<Rightarrow> nat \<Rightarrow> int" where
  "strncmp p q 0 = 0"
| "strncmp p q (Suc n) =
     (if p 0 \<noteq> 0 \<and> p 0 = q 0 then strncmp (\<lambda>i. p (Suc i)) (\<lambda>i. q (Suc i)) n
      else uint (p 0) - uint (q 0))"

text \<open>
  The two loops of \<^verbatim>\<open>strncpy\<close>: the first copies up to and including the NUL and leaves the
  position and what remains of \<^verbatim>\<open>n\<close>; the second pads with NULs.
\<close>

primrec strncpy_copy :: "block \<Rightarrow> (nat \<Rightarrow> uchar) \<Rightarrow> nat \<Rightarrow> nat \<Rightarrow> block \<times> nat \<times> nat" where
  "strncpy_copy s t k 0 = (s, k, 0)"
| "strncpy_copy s t k (Suc n) =
     (if t k \<noteq> 0 then strncpy_copy (s(k := t k)) t (Suc k) n else (s(k := t k), Suc k, n))"

primrec strncpy_pad :: "block \<Rightarrow> nat \<Rightarrow> nat \<Rightarrow> block" where
  "strncpy_pad s k 0 = s"
| "strncpy_pad s k (Suc n) = strncpy_pad (s(k := 0)) (Suc k) n"

definition strncpy :: "block \<Rightarrow> (nat \<Rightarrow> uchar) \<Rightarrow> int \<Rightarrow> block" where
  "strncpy s t n = (case strncpy_copy s t 0 (nat n) of (s, k, n) \<Rightarrow> strncpy_pad s k n)"

primrec safestrcpy_copy :: "block \<Rightarrow> (nat \<Rightarrow> uchar) \<Rightarrow> nat \<Rightarrow> nat \<Rightarrow> block" where
  "safestrcpy_copy s t k 0 = s(k := 0)"
| "safestrcpy_copy s t k (Suc n) =
     (if t k \<noteq> 0 then safestrcpy_copy (s(k := t k)) t (Suc k) n
      else s(k := t k, Suc k := 0))"

definition safestrcpy :: "block \<Rightarrow> (nat \<Rightarrow> uchar) \<Rightarrow> int \<Rightarrow> block" where
  "safestrcpy s t n = (if n \<le> 0 then s else safestrcpy_copy s t 0 (nat n - 1))"

text \<open>\<^verbatim>\<open>strlen\<close> does not return on a string without a NUL.\<close>

partial_function (option) strlen_from :: "(nat \<Rightarrow> uchar) \<Rightarrow> nat \<Rightarrow> nat option" where
  "strlen_from s n = (if s n = 0 then Some n else strlen_from s (Suc n))"

definition strlen :: "(nat \<Rightarrow> uchar) \<Rightarrow> nat option" where
  "strlen s = strlen_from s 0"

section \<open>The string a bounded array holds\<close>

text \<open>
  \<open>cname n p\<close> is the string in the \<open>n\<close> bytes at \<open>p\<close>: the bytes before the first NUL, or
  all \<open>n\<close> of them.
\<close>

definition cname :: "nat \<Rightarrow> (nat \<Rightarrow> uchar) \<Rightarrow> uchar list" where
  "cname n p = takeWhile (\<lambda>c. c \<noteq> 0) (map p [0 ..< n])"

lemma cname_0 [simp]: "cname 0 p = []"
  by (simp add: cname_def)

lemma cname_Suc: "cname (Suc n) p = (if p 0 = 0 then [] else p 0 # cname n (\<lambda>i. p (Suc i)))"
proof -
  have "map p [0 ..< Suc n] = p 0 # map (\<lambda>i. p (Suc i)) [0 ..< n]"
    by (simp add: upt_conv_Cons map_Suc_upt [symmetric] comp_def del: upt_Suc)
  then show ?thesis
    by (simp add: cname_def)
qed

lemma length_cname: "length (cname n p) \<le> n"
  using length_takeWhile_le [of "\<lambda>c. c \<noteq> 0" "map p [0 ..< n]"] by (simp add: cname_def)

lemma cname_no_NUL: "0 \<notin> set (cname n p)"
  by (auto simp: cname_def dest: set_takeWhileD)

lemma cname_cong: "(\<And>i. i < n \<Longrightarrow> p i = q i) \<Longrightarrow> cname n p = cname n q"
  unfolding cname_def by (rule arg_cong [where f = "takeWhile _"]) (auto intro: map_cong)

lemma strncmp_0_iff: "strncmp p q n = 0 \<longleftrightarrow> cname n p = cname n q"
  by (induction n arbitrary: p q) (auto simp: cname_Suc word_uint_eq_iff)

section \<open>Memory operations meet their specifications\<close>

lemma of_nat_uint_inject: "i < 2 ^ 32 \<Longrightarrow> j < 2 ^ 32 \<Longrightarrow> (of_nat i :: uint) = of_nat j \<longleftrightarrow> i = j"
  by (simp add: word_of_nat_eq_iff take_bit_nat_eq_self)

lemma offset_ne:
  fixes a :: uint
  assumes "i < 2 ^ 32" and "j < 2 ^ 32" and "i \<noteq> j"
  shows "a + of_nat i \<noteq> a + of_nat j"
  using of_nat_uint_inject [OF assms(1,2)] assms(3) by simp

lemma area_tail:
  fixes a :: uint
  shows "(\<forall>i<Suc n. x \<noteq> a + of_nat i) \<longleftrightarrow> x \<noteq> a \<and> (\<forall>i<n. x \<noteq> a + 1 + of_nat i)"
  by (auto simp: All_less_Suc2 add.assoc)

lemma area_head:
  fixes a :: uint
  assumes "n < 2 ^ 32" shows "\<forall>i<n. a \<noteq> a + 1 + of_nat i"
proof (intro allI impI)
  fix i assume "i < n"
  then have "a + of_nat 0 \<noteq> a + of_nat (Suc i)"
    using assms by (intro offset_ne) auto
  then show "a \<noteq> a + 1 + of_nat i" by (simp add: add.assoc)
qed

lemma stosb_outside: "\<forall>i<n. x \<noteq> a + of_nat i \<Longrightarrow> stosb m a c n x = m x"
proof (induction n arbitrary: m a)
  case (Suc n)
  then show ?case unfolding area_tail by simp
qed simp

lemma stosb_inside:
  "n \<le> 2 ^ 32 \<Longrightarrow> i < n \<Longrightarrow> stosb m a c n (a + of_nat i) = c"
proof (induction n arbitrary: m a i)
  case (Suc n)
  show ?case
  proof (cases "i = 0")
    case True
    then show ?thesis
      using Suc.prems stosb_outside [OF area_head [of n a]] by simp
  next
    case False
    then obtain j where j: "i = Suc j" by (cases i) auto
    have "stosb (m(a := c)) (a + 1) c n (a + 1 + of_nat j) = c"
      using Suc.prems j by (intro Suc.IH) auto
    then show ?thesis using j by (simp add: add.assoc)
  qed
qed simp

lemma copy_up_outside: "\<forall>i<n. x \<noteq> d + of_nat i \<Longrightarrow> copy_up m d s n x = m x"
proof (induction n arbitrary: m d s)
  case (Suc n)
  then show ?case unfolding area_tail by simp
qed simp

text \<open>Copying upwards is right when no byte is written before it is read.\<close>

lemma copy_up_inside:
  "n \<le> 2 ^ 32 \<Longrightarrow> \<forall>i<n. \<forall>j<i. d + of_nat j \<noteq> s + of_nat i \<Longrightarrow> i < n \<Longrightarrow>
   copy_up m d s n (d + of_nat i) = m (s + of_nat i)"
proof (induction n arbitrary: m d s i)
  case (Suc n)
  show ?case
  proof (cases "i = 0")
    case True
    then show ?thesis
      using Suc.prems(1) copy_up_outside [OF area_head [of n d]] by simp
  next
    case False
    then obtain j where j: "i = Suc j" by (cases i) auto
    have "\<forall>i<n. \<forall>j<i. d + 1 + of_nat j \<noteq> s + 1 + of_nat i"
    proof (intro allI impI)
      fix i j assume "i < n" and "j < i"
      then show "d + 1 + of_nat j \<noteq> s + 1 + of_nat i"
        using Suc.prems(2) [rule_format, of "Suc i" "Suc j"] by (simp add: add.assoc)
    qed
    then have "copy_up (m(d := m s)) (d + 1) (s + 1) n (d + 1 + of_nat j)
                 = (m(d := m s)) (s + 1 + of_nat j)"
      using Suc.prems j by (intro Suc.IH) auto
    moreover have "s + 1 + of_nat j \<noteq> d"
      using Suc.prems(2) [rule_format, of "Suc j" 0] Suc.prems(3) j by (auto simp: add.assoc)
    ultimately show ?thesis using j by (simp add: add.assoc)
  qed
qed simp

lemma copy_down_outside:
  "\<forall>i<n. x \<noteq> d + of_nat i \<Longrightarrow> copy_down m (d + of_nat n) (s + of_nat n) n x = m x"
proof (induction n arbitrary: m)
  case (Suc n)
  have "copy_down m (d + of_nat (Suc n)) (s + of_nat (Suc n)) (Suc n)
        = copy_down (m(d + of_nat n := m (s + of_nat n))) (d + of_nat n) (s + of_nat n) n"
    by (simp add: add.commute add.left_commute)
  then show ?case using Suc by simp
qed simp

lemma copy_down_inside:
  "n \<le> 2 ^ 32 \<Longrightarrow> \<forall>i<n. \<forall>j<i. d + of_nat i \<noteq> s + of_nat j \<Longrightarrow> i < n \<Longrightarrow>
   copy_down m (d + of_nat n) (s + of_nat n) n (d + of_nat i) = m (s + of_nat i)"
proof (induction n arbitrary: m i)
  case (Suc n)
  let ?m = "m(d + of_nat n := m (s + of_nat n))"
  have step: "copy_down m (d + of_nat (Suc n)) (s + of_nat (Suc n)) (Suc n)
              = copy_down ?m (d + of_nat n) (s + of_nat n) n"
    by (simp add: add.commute add.left_commute)
  show ?case
  proof (cases "i = n")
    case True
    have "\<forall>j<n. d + of_nat n \<noteq> d + of_nat j"
      using Suc.prems(1) by (intro allI impI offset_ne) auto
    then show ?thesis
      unfolding step True by (subst copy_down_outside) simp_all
  next
    case False
    then have "copy_down ?m (d + of_nat n) (s + of_nat n) n (d + of_nat i) = ?m (s + of_nat i)"
      using Suc.prems by (intro Suc.IH) auto
    moreover have "s + of_nat i \<noteq> d + of_nat n"
      using Suc.prems(2) [rule_format, of n i] Suc.prems(3) False by auto
    ultimately show ?thesis unfolding step by simp
  qed
qed simp

lemma unat_offset:
  fixes a :: uint
  assumes "unat a + n \<le> 2 ^ 32" and "i < n" shows "unat (a + of_nat i) = unat a + i"
  using assms by (simp add: unat_word_ariths unat_of_nat)

lemma memmove_inside:
  assumes src: "unat src + unat n < 2 ^ 32" and dst: "unat dst + unat n \<le> 2 ^ 32"
    and i: "i < unat n"
  shows "memmove m dst src n (dst + of_nat i) = m (src + of_nat i)"
proof -
  have n: "unat n \<le> 2 ^ 32" using src by simp
  have end_src: "unat (src + n) = unat src + unat n"
    using src by (simp add: unat_word_ariths)
  note offs = unat_offset [OF dst] unat_offset [OF less_imp_le [OF src]]
  show ?thesis
  proof (cases "src < dst \<and> src + n > dst")
    case True
    then have "\<forall>i<unat n. \<forall>j<i. dst + of_nat i \<noteq> src + of_nat j"
      by (auto simp: word_less_nat_alt word_unat_eq_iff offs)
    from copy_down_inside [OF n this i] show ?thesis
      by (simp only: memmove_def if_P [OF True] of_nat_unat ucast_id)
  next
    case False
    then have "unat dst \<le> unat src \<or> unat src + unat n \<le> unat dst"
      by (auto simp: word_less_nat_alt end_src)
    then have "\<forall>i<unat n. \<forall>j<i. dst + of_nat j \<noteq> src + of_nat i"
      by (auto simp: word_unat_eq_iff offs)
    from copy_up_inside [OF n this i] show ?thesis
      by (simp only: memmove_def if_not_P [OF False])
  qed
qed

lemma memmove_outside:
  "\<forall>i<unat n. x \<noteq> dst + of_nat i \<Longrightarrow> memmove m dst src n x = m x"
  using copy_down_outside [of "unat n" x dst m src] copy_up_outside [of "unat n" x dst m src]
  by (simp add: memmove_def)

text \<open>The word path of \<^verbatim>\<open>memset\<close> stores the same bytes as the byte path.\<close>

definition rep4 :: "uint \<Rightarrow> uint" where
  "rep4 c = push_bit 24 (c AND 0xFF) OR push_bit 16 (c AND 0xFF) OR push_bit 8 (c AND 0xFF)
              OR (c AND 0xFF)"

lemma and_0xFF: "(c :: uint) AND 0xFF = take_bit 8 c"
proof -
  have "(0xFF :: uint) = mask 8" by (simp add: mask_eq_exp_minus_1)
  then show ?thesis by (simp only: take_bit_eq_mask)
qed

lemma bit_rep4: "n < 32 \<Longrightarrow> bit (rep4 c) n \<longleftrightarrow> bit c (n mod 8)"
proof -
  assume n: "n < 32"
  have "n mod 8 = n - 8" if "8 \<le> n" "n < 16" using that by presburger
  moreover have "n mod 8 = n - 16" if "16 \<le> n" "n < 24" using that by presburger
  moreover have "n mod 8 = n - 24" if "24 \<le> n" "n < 32" using that by presburger
  ultimately consider "n < 8" "n mod 8 = n" | "8 \<le> n" "n < 16" "n mod 8 = n - 8"
    | "16 \<le> n" "n < 24" "n mod 8 = n - 16" | "24 \<le> n" "n < 32" "n mod 8 = n - 24"
    using n by (metis linorder_not_less mod_less)
  then show ?thesis
    unfolding rep4_def and_0xFF by cases (auto simp: bit_simps)
qed

lemma rep4_bytes:
  assumes "k \<in> {0, 8, 16, 24}"
  shows "(ucast (drop_bit k (rep4 c)) :: uchar) = ucast c"
proof (rule bit_word_eqI)
  fix n assume n: "n < LENGTH(8)"
  then have "k + n < 32" and "(k + n) mod 8 = n" using assms by (auto, presburger+)
  then show "bit (ucast (drop_bit k (rep4 c)) :: uchar) n = bit (ucast c :: uchar) n"
    using n by (simp add: bit_ucast_iff bit_drop_bit_eq bit_rep4)
qed

lemma store32_rep4:
  "store32 m a (rep4 c) = m(a := ucast c, a + 1 := ucast c, a + 2 := ucast c, a + 3 := ucast c)"
  using rep4_bytes [of 0 c] rep4_bytes [of 8 c] rep4_bytes [of 16 c] rep4_bytes [of 24 c]
  by (simp add: store32_def)

lemma stosb_4:
  "stosb m a c (4 + n) = stosb (m(a := c, a + 1 := c, a + 2 := c, a + 3 := c)) (a + 4) c n"
proof -
  have "4 + n = Suc (Suc (Suc (Suc n)))" by simp
  then show ?thesis by (simp only: stosb.simps) (simp add: add.assoc)
qed

lemma stosl_rep4: "stosl m a (rep4 c) n = stosb m a (ucast c) (4 * n)"
proof (induction n arbitrary: m a)
  case (Suc n)
  have "stosb m a (ucast c) (4 * Suc n) = stosb m a (ucast c) (4 + 4 * n)" by simp
  also have "\<dots> = stosb (store32 m a (rep4 c)) (a + 4) (ucast c) (4 * n)"
    by (simp only: stosb_4 store32_rep4)
  finally show ?case by (simp add: Suc.IH)
qed simp

lemma memset_stosb: "memset m dst c n = stosb m dst (ucast c) (unat n)"
proof (cases "dst mod 4 = 0 \<and> n mod 4 = 0")
  case True
  then have "unat (n mod 4) = 0" by simp
  then have "4 * (unat n div 4) = unat n" by (simp add: unat_mod_distrib) presburger
  then show ?thesis using True stosl_rep4 [of m dst c "unat n div 4"]
    by (simp add: memset_def Let_def rep4_def)
next
  case False
  then show ?thesis unfolding memset_def by (rule if_not_P)
qed

section \<open>String operations meet their specifications\<close>

lemma memcmp_0_iff:
  "memcmp m a b n = 0 \<longleftrightarrow> (\<forall>i<n. m (a + of_nat i) = m (b + of_nat i))"
proof (induction n arbitrary: a b)
  case (Suc n)
  then show ?case
    by (simp only: All_less_Suc2 memcmp.simps) (auto simp: word_uint_eq_iff add.assoc)
qed simp

lemma all_from:
  fixes k :: nat
  assumes "P k" shows "(\<forall>j. k \<le> j \<and> Q j \<longrightarrow> P j) \<longleftrightarrow> (\<forall>j. Suc k \<le> j \<and> Q j \<longrightarrow> P j)"
proof -
  have "k \<le> j \<longleftrightarrow> j = k \<or> Suc k \<le> j" for j by auto
  then show ?thesis using assms by metis
qed

lemma strncpy_pad_eq: "strncpy_pad s k n = (\<lambda>i. if k \<le> i \<and> i < k + n then 0 else s i)"
  by (induction n arbitrary: s k) (auto simp: fun_eq_iff)

lemma strncpy_loops:
  "(case strncpy_copy s t k n of (s, k, n) \<Rightarrow> strncpy_pad s k n) =
   (\<lambda>i. if k \<le> i \<and> i < k + n then (if \<forall>j. k \<le> j \<and> j < i \<longrightarrow> t j \<noteq> 0 then t i else 0) else s i)"
proof (induction n arbitrary: s k)
  case (Suc n)
  show ?case
  proof (cases "t k = 0")
    case True
    then show ?thesis by (auto simp: strncpy_pad_eq fun_eq_iff)
  next
    case False
    note from_k = all_from [where P = "\<lambda>j. t j \<noteq> 0", OF False]
    show ?thesis
    proof (rule ext, goal_cases)
      case (1 i)
      show ?case
        using False by (cases "i = k") (auto simp: Suc.IH from_k [where Q = "\<lambda>j. j < i"])
    qed
  qed
qed (auto simp: fun_eq_iff)

lemma strncpy_eq:
  "strncpy s t n = (\<lambda>i. if i < nat n then (if \<forall>j<i. t j \<noteq> 0 then t i else 0) else s i)"
  using strncpy_loops [of s t 0 "nat n"] by (simp add: strncpy_def cong: if_cong)

lemma cname_pad: "cname n (\<lambda>i. if i < n then (if \<forall>j<i. t j \<noteq> 0 then t i else 0) else s i) = cname n t"
proof (induction n arbitrary: t s)
  case (Suc n)
  let ?t = "\<lambda>i. t (Suc i)"
  have "cname n (\<lambda>i. if Suc i < Suc n then (if \<forall>j<Suc i. t j \<noteq> 0 then t (Suc i) else 0) else s (Suc i))
        = cname n (\<lambda>i. if i < n then (if \<forall>j<i. ?t j \<noteq> 0 then ?t i else 0) else s (Suc i))"
    if "t 0 \<noteq> 0"
    using that by (intro cname_cong) (auto simp: All_less_Suc2)
  then show ?case by (simp add: cname_Suc Suc.IH)
qed simp

lemma cname_strncpy: "cname (nat n) (strncpy s t n) = cname (nat n) t"
  by (simp only: strncpy_eq cname_pad)

lemma strlen_from_Some:
  "strlen_from s k = Some n \<longleftrightarrow> k \<le> n \<and> s n = 0 \<and> (\<forall>i. k \<le> i \<and> i < n \<longrightarrow> s i \<noteq> 0)"
proof
  assume "strlen_from s k = Some n"
  then show "k \<le> n \<and> s n = 0 \<and> (\<forall>i. k \<le> i \<and> i < n \<longrightarrow> s i \<noteq> 0)"
  proof (rule strlen_from.raw_induct
      [where P = "\<lambda>s k n. k \<le> n \<and> s n = 0 \<and> (\<forall>i. k \<le> i \<and> i < n \<longrightarrow> s i \<noteq> 0)", rotated])
    fix f s k n
    assume IH: "\<And>s k n. f s k = Some n \<Longrightarrow> k \<le> n \<and> s n = 0 \<and> (\<forall>i. k \<le> i \<and> i < n \<longrightarrow> s i \<noteq> 0)"
      and eq: "(if s k = 0 then Some k else f s (Suc k)) = Some n"
    show "k \<le> n \<and> s n = 0 \<and> (\<forall>i. k \<le> i \<and> i < n \<longrightarrow> s i \<noteq> 0)"
    proof (cases "s k = 0")
      case True
      then show ?thesis using eq by auto
    next
      case False
      then show ?thesis
        using IH [of s "Suc k" n] eq all_from [where P = "\<lambda>i. s i \<noteq> 0" and Q = "\<lambda>i. i < n", of k]
        by simp
    qed
  qed
next
  assume "k \<le> n \<and> s n = 0 \<and> (\<forall>i. k \<le> i \<and> i < n \<longrightarrow> s i \<noteq> 0)"
  then show "strlen_from s k = Some n"
  proof (induction "n - k" arbitrary: k)
    case 0
    then show ?case by (simp add: strlen_from.simps)
  next
    case (Suc d)
    then have "strlen_from s (Suc k) = Some n" by simp
    then show ?case using Suc by (subst strlen_from.simps) (simp add: strlen_from.simps)
  qed
qed

lemma strlen_Some: "strlen s = Some n \<longleftrightarrow> s n = 0 \<and> (\<forall>i<n. s i \<noteq> 0)"
  by (simp add: strlen_def strlen_from_Some)

lemma safestrcpy_copy_eq:
  "safestrcpy_copy s t k n i =
     (if i < k then s i
      else if i < k + n \<and> (\<forall>j. k \<le> j \<and> j \<le> i \<longrightarrow> t j \<noteq> 0) then t i
      else if i \<le> k + n \<and> (\<forall>j. k \<le> j \<and> Suc j < i \<longrightarrow> t j \<noteq> 0) then 0
      else s i)"
proof (induction n arbitrary: s k)
  case 0
  then show ?case by auto
next
  case (Suc n)
  show ?case
  proof (cases "t k = 0")
    case True
    have "(\<forall>j. k \<le> j \<and> Suc j < i \<longrightarrow> t j \<noteq> 0) \<longleftrightarrow> i \<le> Suc k" for i
      using True by (auto simp: not_le)
    moreover have "(\<forall>j. k \<le> j \<and> j \<le> i \<longrightarrow> t j \<noteq> 0) \<longleftrightarrow> i < k" for i
      using True by (auto simp: not_le)
    ultimately show ?thesis using True by auto
  next
    case False
    note from_k = all_from [where P = "\<lambda>j. t j \<noteq> 0", OF False]
    show ?thesis using False
      by (auto simp: Suc.IH from_k [where Q = "\<lambda>j. j \<le> _"] from_k [where Q = "\<lambda>j. Suc j < _"]
          less_Suc_eq)
  qed
qed

section \<open>Properties\<close>

text \<open>C29: \<^verbatim>\<open>memmove\<close> copies the \<^verbatim>\<open>n\<close> source bytes as they were before the call to
  the destination, whether or not the areas overlap, and changes nothing else.\<close>

theorem memmove_correct:
  assumes "unat src + unat n < 2 ^ 32" and "unat dst + unat n \<le> 2 ^ 32"
  shows "(\<forall>i<unat n. memmove m dst src n (dst + of_nat i) = m (src + of_nat i)) \<and>
         (\<forall>x. (\<forall>i<unat n. x \<noteq> dst + of_nat i) \<longrightarrow> memmove m dst src n x = m x)"
  using memmove_inside [OF assms] memmove_outside by blast

theorem memmove_correct_witness:
  "memmove (\<lambda>a. ucast a) 0x1002 0x1000 8 0x1005 = 3"
  using memmove_correct [where m = "\<lambda>a. ucast a" and src = "0x1000" and n = 8 and dst = "0x1002"]
  by (auto dest!: conjunct1 spec[of _ 3])

text \<open>The routine \<^verbatim>\<open>memset\<close> stores the low byte of \<^verbatim>\<open>c\<close> in \<^verbatim>\<open>n\<close> consecutive bytes; the
  path that stores four bytes at a time is the same function as the one that stores one.\<close>

theorem memset_word_path: "memset m dst c n = stosb m dst (ucast c) (unat n)"
  by (rule memset_stosb)

text \<open>The name \<^verbatim>\<open>strncpy\<close> stores in an \<^verbatim>\<open>n\<close>-byte field is equal to the source
  under \<^verbatim>\<open>strncmp\<close>, and comparing with a third name gives zero exactly when that name is
  equal to the source in its first \<^verbatim>\<open>n\<close> bytes.\<close>

theorem strncpy_strncmp:
  "strncmp (strncpy s t n) u (nat n) = 0 \<longleftrightarrow> cname (nat n) t = cname (nat n) u"
  by (simp add: strncmp_0_iff cname_strncpy)

end
