(* ===== verification/Kalloc.thy ===== *)
theory Kalloc
  imports Kstring
begin

text \<open>
  The physical page allocator, \<^verbatim>\<open>kalloc.c\<close>, over the address layout of
  \<^verbatim>\<open>memlayout.h\<close> and \<^verbatim>\<open>mmu.h\<close>.

  The free list is where the code has it: the word at the start of every free page is the address
  of the next one.  \<open>chain\<close> reads that list out of memory; \<open>kmem_inv\<close> says it is a list of
  distinct pages between \<^verbatim>\<open>end\<close> and \<^verbatim>\<open>PHYSTOP\<close>.  The locale \<open>page_allocator\<close> is
  the contract other components rely on, and it is interpreted on \<open>kalloc\<close> and \<open>kfree\<close>.
\<close>

section \<open>Layout\<close>

definition EXTMEM :: uint where [simp]: "EXTMEM = 0x100000"
definition PHYSTOP :: uint where [simp]: "PHYSTOP = 0xE000000"
definition DEVSPACE :: uint where [simp]: "DEVSPACE = 0xFE000000"
definition KERNBASE :: uint where [simp]: "KERNBASE = 0x80000000"
definition PGSIZE :: uint where [simp]: "PGSIZE = 4096"

definition V2P :: "uint \<Rightarrow> uint" where "V2P a = a - KERNBASE"
definition P2V :: "uint \<Rightarrow> uint" where "P2V a = a + KERNBASE"

definition PGROUNDUP :: "uint \<Rightarrow> uint" where
  "PGROUNDUP sz = (sz + PGSIZE - 1) AND NOT (PGSIZE - 1)"

definition PGROUNDDOWN :: "uint \<Rightarrow> uint" where
  "PGROUNDDOWN a = a AND NOT (PGSIZE - 1)"

lemma and_not_low_bits: "(a :: uint) AND NOT (mask n) = a - take_bit n a"
proof -
  have "a - take_bit n a = a AND NOT (take_bit n a)"
    by (rule disjunctive_diff_eq_and_not) (simp add: bit_eq_iff bit_simps)
  also have "\<dots> = a AND NOT (mask n)"
    by (rule bit_word_eqI) (auto simp: bit_simps)
  finally show ?thesis by simp
qed

lemma unat_PGROUNDDOWN: "unat (PGROUNDDOWN a) = unat a - unat a mod 4096"
proof -
  have "(PGSIZE - 1 :: uint) = mask 12" by (simp add: mask_eq_exp_minus_1)
  then have "PGROUNDDOWN a = a - take_bit 12 a"
    by (simp only: PGROUNDDOWN_def and_not_low_bits)
  moreover have t: "unat (take_bit 12 a) = unat a mod 4096"
    by (simp add: take_bit_eq_mod unat_mod_distrib)
  moreover have "take_bit 12 a \<le> a" by (simp add: word_le_nat_alt t)
  ultimately show ?thesis by (simp add: unat_sub)
qed

lemma PGROUNDUP_down: "PGROUNDUP sz = PGROUNDDOWN (sz + 4095)"
  by (simp add: PGROUNDUP_def PGROUNDDOWN_def add.commute)

lemma unat_PGROUNDUP:
  assumes "unat sz + 4095 < 2 ^ 32"
  shows "unat (PGROUNDUP sz) = (unat sz + 4095) - (unat sz + 4095) mod 4096"
  using assms unat_add_offset [of sz 4095] by (simp add: PGROUNDUP_down unat_PGROUNDDOWN)

text \<open>\<^verbatim>\<open>PGROUNDUP\<close> is the least multiple of the page size that is not smaller.\<close>

lemma PGROUNDUP_least:
  assumes "unat sz + 4095 < 2 ^ 32"
  shows "unat (PGROUNDUP sz) mod 4096 = 0" and "sz \<le> PGROUNDUP sz"
    and "n mod 4096 = 0 \<Longrightarrow> unat sz \<le> n \<Longrightarrow> unat (PGROUNDUP sz) \<le> n"
proof -
  let ?a = "unat sz + 4095"
  have up: "unat (PGROUNDUP sz) = ?a div 4096 * 4096"
    using unat_PGROUNDUP [OF assms] minus_mod_eq_div_mult [of ?a 4096] by simp
  then show "unat (PGROUNDUP sz) mod 4096 = 0" by simp
  have "?a mod 4096 \<le> 4095" by (simp add: less_Suc_eq_le [symmetric])
  then show "sz \<le> PGROUNDUP sz"
    using unat_PGROUNDUP [OF assms] by (simp add: word_le_nat_alt)
  assume "n mod 4096 = 0" and n: "unat sz \<le> n"
  then obtain q where q: "n = 4096 * q" by (auto simp: mod_eq_0_iff_dvd elim: dvdE)
  have "?a div 4096 \<le> (4096 * q + 4095) div 4096" using n q by (intro div_le_mono) simp
  also have "\<dots> = q" by simp
  finally show "unat (PGROUNDUP sz) \<le> n" using up q by simp
qed

section \<open>State and operations\<close>

text \<open>
  \<open>kend\<close> and \<open>kdata\<close> are the addresses of \<^verbatim>\<open>end[]\<close> and \<^verbatim>\<open>data[]\<close>, which the linker fixes, and
  \<open>ksym\<close> the addresses of the kernel's functions.  The section between
  \<^verbatim>\<open>acquire(&kmem.lock)\<close> and \<^verbatim>\<open>release(&kmem.lock)\<close> is one atomic step;
  \<open>use_lock\<close> is kept because the initialisation sets it.
\<close>

record kmem =
  mem :: memory
  freelist :: uint
  use_lock :: bool
  kend :: uint
  kdata :: uint
  ksym :: "string \<Rightarrow> uint"

definition kfree :: "uint \<Rightarrow> 'a kmem_scheme \<Rightarrow> 'a kmem_scheme res" where
  "kfree v s =
     (if v mod PGSIZE \<noteq> 0 \<or> v < kend s \<or> V2P v \<ge> PHYSTOP then Inl (Panic ''kfree'')
      else let m = memset (mem s) v 1 PGSIZE;
               m = store32 m v (freelist s)
           in Inr (s\<lparr>mem := m, freelist := v\<rparr>))"

definition kalloc :: "'a kmem_scheme \<Rightarrow> uint \<times> 'a kmem_scheme" where
  "kalloc s =
     (let r = freelist s
      in (r, if r \<noteq> 0 then s\<lparr>freelist := load32 (mem s) r\<rparr> else s))"

lemma kfree_InrD:
  assumes "kfree v s = Inr s'"
  shows "v mod PGSIZE = 0" and "kend s \<le> v" and "V2P v < PHYSTOP"
    and "s' = s\<lparr>mem := store32 (memset (mem s) v 1 PGSIZE) v (freelist s), freelist := v\<rparr>"
  using assms by (auto simp: kfree_def Let_def split: if_splits)

lemma V2P_range:
  "V2P v < 0xE000000 \<longleftrightarrow> 0x80000000 \<le> unat v \<and> unat v < 0x8E000000"
  using unat_uint_bound [of v]
  by (auto simp: V2P_def word_less_nat_alt unat_sub_if')

lemma page_next:
  assumes "V2P v < PHYSTOP" shows "unat (v + PGSIZE) = unat v + 4096"
  using assms unat_add_offset [of v 4096] by (simp add: V2P_range)

text \<open>
  The loop of \<^verbatim>\<open>freerange\<close> ends because \<^verbatim>\<open>kfree\<close> panics on an address above
  \<^verbatim>\<open>PHYSTOP\<close>, so the pointer cannot wrap around.
\<close>

function freerange_loop :: "uint \<Rightarrow> uint \<Rightarrow> 'a kmem_scheme \<Rightarrow> 'a kmem_scheme res" where
  "freerange_loop p vend s =
     (if p + PGSIZE \<le> vend then bindr (kfree p s) (\<lambda>s. freerange_loop (p + PGSIZE) vend s)
      else Inr s)"
  by pat_completeness auto
termination
proof (relation "measure (\<lambda>(p, vend, s). 2 ^ 32 - unat p)", goal_cases)
  case (2 p vend s s')
  then have "unat (p + PGSIZE) = unat p + 4096"
    by (intro page_next kfree_InrD(3))
  then show ?case using unat_uint_bound [of "p + PGSIZE"] by simp
qed simp

declare freerange_loop.simps [simp del]

definition freerange :: "uint \<Rightarrow> uint \<Rightarrow> 'a kmem_scheme \<Rightarrow> 'a kmem_scheme res" where
  "freerange vstart vend s = freerange_loop (PGROUNDUP vstart) vend s"

definition kinit1 :: "uint \<Rightarrow> uint \<Rightarrow> 'a kmem_scheme \<Rightarrow> 'a kmem_scheme res" where
  "kinit1 vstart vend s = freerange vstart vend (s\<lparr>use_lock := False\<rparr>)"

definition kinit2 :: "uint \<Rightarrow> uint \<Rightarrow> 'a kmem_scheme \<Rightarrow> 'a kmem_scheme res" where
  "kinit2 vstart vend s = bindr (freerange vstart vend s) (\<lambda>s. Inr (s\<lparr>use_lock := True\<rparr>))"

section \<open>The free list\<close>

primrec chain :: "memory \<Rightarrow> uint \<Rightarrow> uint list \<Rightarrow> bool" where
  "chain m p [] \<longleftrightarrow> p = 0"
| "chain m p (x # xs) \<longleftrightarrow> p = x \<and> x \<noteq> 0 \<and> chain m (load32 m x) xs"

definition page_ok :: "'a kmem_scheme \<Rightarrow> uint \<Rightarrow> bool" where
  "page_ok s v \<longleftrightarrow> v mod PGSIZE = 0 \<and> kend s \<le> v \<and> V2P v < PHYSTOP"

definition free_list :: "'a kmem_scheme \<Rightarrow> uint list \<Rightarrow> bool" where
  "free_list s xs \<longleftrightarrow> chain (mem s) (freelist s) xs \<and> distinct xs \<and> (\<forall>x \<in> set xs. page_ok s x)"

definition kmem_inv :: "'a kmem_scheme \<Rightarrow> bool" where
  "kmem_inv s \<longleftrightarrow> (\<exists>xs. free_list s xs)"

definition free_pages :: "'a kmem_scheme \<Rightarrow> uint set" where
  "free_pages s = {x. \<exists>xs. free_list s xs \<and> x \<in> set xs}"

lemma chain_unique: "chain m p xs \<Longrightarrow> chain m p ys \<Longrightarrow> xs = ys"
proof (induction xs arbitrary: p ys)
  case Nil
  then show ?case by (cases ys) auto
next
  case (Cons x xs)
  then show ?case by (cases ys) auto
qed

lemma free_pages_eq: "free_list s xs \<Longrightarrow> free_pages s = set xs"
  by (auto simp: free_pages_def) (metis chain_unique free_list_def)

lemma page_ok_nonzero: "page_ok s v \<Longrightarrow> v \<noteq> 0"
  by (auto simp: page_ok_def V2P_range)

lemma page_ok_aligned:
  assumes "page_ok s v" shows "aligned 4096 v" and "aligned 4 v"
proof -
  from assms have "unat (v mod 4096) = 0" by (simp add: page_ok_def)
  then show "aligned 4096 v" by (simp add: aligned_def unat_mod_distrib)
  then show "aligned 4 v" by (rule aligned_mono) simp
qed

text \<open>Filling one page leaves every other page alone.\<close>

lemma load32_memset_other:
  assumes "aligned 4096 v" and "aligned 4096 x" and "x \<noteq> v"
  shows "load32 (memset m v c PGSIZE) x = load32 m x"
proof -
  have "memset m v c PGSIZE (x + of_nat i) = m (x + of_nat i)" if "i < 4096" for i
    using aligned_apart [OF assms(2,1) _ assms(3) that]
    by (auto simp: memset_stosb intro!: stosb_outside)
  from this [of 0] this [of 1] this [of 2] this [of 3] show ?thesis
    by (simp add: load32_def)
qed

lemma chain_cong: "(\<And>x. x \<in> set xs \<Longrightarrow> load32 m' x = load32 m x) \<Longrightarrow> chain m' p xs = chain m p xs"
  by (induction xs arbitrary: p) auto

lemma free_list_kfree:
  assumes "free_list s xs" and "page_ok s v" and "v \<notin> set xs"
  shows "\<exists>s'. kfree v s = Inr s' \<and> free_list s' (v # xs) \<and> kend s' = kend s"
proof -
  let ?s = "s\<lparr>mem := store32 (memset (mem s) v 1 PGSIZE) v (freelist s), freelist := v\<rparr>"
  have kf: "kfree v s = Inr ?s"
    using assms(2) by (auto simp: kfree_def page_ok_def Let_def)
  have "load32 (mem ?s) x = load32 (mem s) x" if "x \<in> set xs" for x
  proof -
    from that assms have "page_ok s x" and "x \<noteq> v" by (auto simp: free_list_def)
    then show ?thesis
      using page_ok_aligned [OF assms(2)] page_ok_aligned [of s x]
      by (simp add: load32_memset_other del: PGSIZE_def)
  qed
  then have "chain (mem ?s) (freelist s) xs"
    using assms(1) chain_cong [of xs "mem ?s" "mem s"] by (simp add: free_list_def)
  then have "free_list ?s (v # xs)"
    using assms page_ok_nonzero [OF assms(2)]
    by (auto simp: free_list_def page_ok_def)
  with kf show ?thesis by auto
qed

lemma free_list_kalloc:
  assumes "free_list s xs"
  shows "case xs of [] \<Rightarrow> kalloc s = (0, s)
         | x # ys \<Rightarrow> \<exists>s'. kalloc s = (x, s') \<and> free_list s' ys \<and> mem s' = mem s \<and> kend s' = kend s"
  using assms by (cases xs) (auto simp: free_list_def kalloc_def Let_def page_ok_def)

section \<open>The contract of the allocator\<close>

locale page_allocator =
  fixes alloc :: "'s \<Rightarrow> uint \<times> 's"
    and free :: "uint \<Rightarrow> 's \<Rightarrow> 's res"
    and pages :: "'s \<Rightarrow> uint set"
    and valid :: "'s \<Rightarrow> uint \<Rightarrow> bool"
    and invar :: "'s \<Rightarrow> bool"
  assumes alloc_none: "invar s \<Longrightarrow> pages s = {} \<Longrightarrow> alloc s = (0, s)"
    and alloc_some: "invar s \<Longrightarrow> pages s \<noteq> {} \<Longrightarrow>
      \<exists>p s'. alloc s = (p, s') \<and> p \<in> pages s \<and> pages s' = pages s - {p} \<and> invar s' \<and> valid s' = valid s"
    and free_returns: "invar s \<Longrightarrow> valid s v \<Longrightarrow> v \<notin> pages s \<Longrightarrow>
      \<exists>s'. free v s = Inr s' \<and> pages s' = insert v (pages s) \<and> invar s' \<and> valid s' = valid s"
    and pages_valid: "invar s \<Longrightarrow> p \<in> pages s \<Longrightarrow> valid s p"
    and valid_nonzero: "valid s p \<Longrightarrow> p \<noteq> 0"
begin

text \<open>
  What a client that owns the pages \<open>A\<close> can rely on: a page it gets is new to it, and no page is
  lost or handed out twice.
\<close>

lemma alloc_owned:
  assumes "invar s" and "alloc s = (p, s')" and "p \<noteq> 0" and "A \<inter> pages s = {}"
  shows "p \<notin> A" and "valid s p" and "invar s'" and "valid s' = valid s"
    and "insert p A \<inter> pages s' = {}" and "insert p A \<union> pages s' = A \<union> pages s"
proof -
  have "pages s \<noteq> {}" using assms(1-3) alloc_none by fastforce
  then have *: "p \<in> pages s" "pages s' = pages s - {p}" "invar s'" "valid s' = valid s"
    using alloc_some [OF assms(1)] assms(2) by auto
  then show "p \<notin> A" "valid s p" "invar s'" "valid s' = valid s"
    "insert p A \<inter> pages s' = {}" "insert p A \<union> pages s' = A \<union> pages s"
    using assms(1,4) pages_valid by auto
qed

lemma free_owned:
  assumes "invar s" and "v \<in> A" and "valid s v" and "A \<inter> pages s = {}"
  shows "\<exists>s'. free v s = Inr s' \<and> invar s' \<and> valid s' = valid s \<and>
           (A - {v}) \<inter> pages s' = {} \<and> (A - {v}) \<union> pages s' = A \<union> pages s"
proof -
  have "v \<notin> pages s" using assms(2,4) by auto
  from free_returns [OF assms(1,3) this] show ?thesis using assms(2,4) by auto
qed

end

interpretation kp: page_allocator kalloc kfree free_pages page_ok kmem_inv
proof (unfold_locales, goal_cases)
  case (1 s)
  then obtain xs where "free_list s xs" "xs = []"
    by (auto simp: kmem_inv_def free_pages_eq)
  then show ?case using free_list_kalloc [of s xs] by simp
next
  case (2 s)
  then obtain x xs where fl: "free_list s (x # xs)"
    by (metis empty_set free_pages_eq kmem_inv_def neq_Nil_conv)
  then obtain s' where s': "kalloc s = (x, s')" "free_list s' xs" "kend s' = kend s"
    using free_list_kalloc [OF fl] by auto
  moreover have "x \<notin> set xs" using fl by (simp add: free_list_def)
  ultimately show ?case
    using free_pages_eq [OF fl] free_pages_eq [OF s'(2)]
    by (auto simp: kmem_inv_def page_ok_def fun_eq_iff)
next
  case (3 s v)
  then obtain xs where fl: "free_list s xs" "v \<notin> set xs"
    by (auto simp: kmem_inv_def free_pages_eq)
  from free_list_kfree [OF fl(1) 3(2) fl(2)] obtain s' where
    s': "kfree v s = Inr s'" "free_list s' (v # xs)" "kend s' = kend s" by auto
  then show ?case
    using free_pages_eq [OF fl(1)] free_pages_eq [OF s'(2)]
    by (auto simp: kmem_inv_def page_ok_def fun_eq_iff)
next
  case (4 s p)
  then show ?case by (auto simp: free_pages_def free_list_def)
next
  case (5 s p)
  then show ?case by (rule page_ok_nonzero)
qed

section \<open>Initialisation\<close>

definition range_pages :: "uint \<Rightarrow> uint \<Rightarrow> uint set" where
  "range_pages p vend = {v. v mod PGSIZE = 0 \<and> p \<le> v \<and> unat v + 4096 \<le> unat vend}"

lemma mod_PGSIZE_iff: "v mod 4096 = 0 \<longleftrightarrow> unat v mod 4096 = 0" for v :: uint
proof -
  have "unat (v mod 4096) = unat v mod 4096" by (simp add: unat_mod_distrib)
  then show ?thesis by (metis unat_eq_zero)
qed

lemma range_pages_none:
  assumes "unat vend < unat p + 4096" shows "range_pages p vend = {}"
  using assms by (auto simp: range_pages_def word_le_nat_alt)

lemma multiples_le_iff:
  fixes a b N :: nat
  assumes "a mod N = 0" and "b mod N = 0" and "0 < N"
  shows "a \<le> b \<longleftrightarrow> b = a \<or> a + N \<le> b"
proof -
  obtain x y where xy: "a = N * x" "b = N * y"
    using assms(1,2) by (auto simp: mod_eq_0_iff_dvd elim!: dvdE)
  have "x \<le> y \<longleftrightarrow> y = x \<or> Suc x \<le> y" by auto
  moreover have "N * x + N = N * Suc x" by simp
  ultimately show ?thesis using xy assms(3) by (simp only: mult_le_cancel1 mult_cancel1) auto
qed

lemma range_pages_step:
  assumes "p mod PGSIZE = 0" and "unat p + 4096 \<le> unat vend"
  shows "range_pages p vend = insert p (range_pages (p + PGSIZE) vend)"
    and "p \<notin> range_pages (p + PGSIZE) vend"
    and "(p + PGSIZE) mod PGSIZE = 0"
proof -
  have next_p: "unat (p + 4096) = unat p + 4096"
    using unat_add_offset [of p 4096] unat_uint_bound [of vend] assms(2) by simp
  have p: "unat p mod 4096 = 0" using assms(1) by (simp add: mod_PGSIZE_iff)
  have "p \<le> v \<longleftrightarrow> v = p \<or> p + 4096 \<le> v" if "unat v mod 4096 = 0" for v
    using multiples_le_iff [OF p that] by (simp add: word_le_nat_alt word_unat_eq_iff next_p)
  then show "range_pages p vend = insert p (range_pages (p + PGSIZE) vend)"
    using assms by (auto simp: range_pages_def mod_PGSIZE_iff)
  show "p \<notin> range_pages (p + PGSIZE) vend"
    using next_p by (simp add: range_pages_def word_le_nat_alt)
  show "(p + PGSIZE) mod PGSIZE = 0"
    using p next_p by (simp add: mod_PGSIZE_iff)
qed

lemma freerange_loop_frees:
  assumes "free_list s xs" and "p mod PGSIZE = 0" and "kend s \<le> p" and "0x80000000 \<le> unat p"
    and "unat p \<le> 0x8E000000" and "unat vend \<le> 0x8E000000" and "range_pages p vend \<inter> set xs = {}"
  shows "\<exists>s' ys. freerange_loop p vend s = Inr s' \<and> free_list s' ys \<and>
           set ys = set xs \<union> range_pages p vend \<and> kend s' = kend s"
  using assms
proof (induction p vend s arbitrary: xs rule: freerange_loop.induct)
  case (1 p vend s)
  have next_p: "unat (p + PGSIZE) = unat p + 4096"
    using unat_add_offset [of p 4096] 1(6) by simp
  show ?case
  proof (cases "p + PGSIZE \<le> vend")
    case True
    then have room: "unat p + 4096 \<le> unat vend"
      using next_p by (simp add: word_le_nat_alt)
    note step = range_pages_step [OF 1(3) room]
    have "page_ok s p"
      using 1(3-5) room 1(7) by (simp add: page_ok_def V2P_range)
    moreover have "p \<notin> set xs" using 1(8) step(1) by auto
    ultimately obtain s1 where s1: "kfree p s = Inr s1" "free_list s1 (p # xs)" "kend s1 = kend s"
      using free_list_kfree [OF 1(2)] by blast
    have "\<exists>s' ys. freerange_loop (p + PGSIZE) vend s1 = Inr s' \<and> free_list s' ys \<and>
            set ys = set (p # xs) \<union> range_pages (p + PGSIZE) vend \<and> kend s' = kend s1"
    proof (rule 1(1) [OF True s1(1) s1(2) step(3)])
      show "kend s1 \<le> p + PGSIZE" "0x80000000 \<le> unat (p + PGSIZE)"
        "unat (p + PGSIZE) \<le> 0x8E000000" "unat vend \<le> 0x8E000000"
        using next_p 1(4-7) s1(3) room by (auto simp: word_le_nat_alt)
      show "range_pages (p + PGSIZE) vend \<inter> set (p # xs) = {}"
        using 1(8) step(1,2) by auto
    qed
    then show ?thesis
      using True s1 step(1) by (auto simp: freerange_loop.simps [of p vend s])
  next
    case False
    then have "range_pages p vend = {}"
      using next_p by (intro range_pages_none) (simp add: word_le_nat_alt)
    then show ?thesis
      using False 1(2) by (auto simp: freerange_loop.simps [of p vend s])
  qed
qed

lemma range_pages_Un:
  assumes "b mod PGSIZE = 0" and "a \<le> b" and "unat b \<le> unat c"
  shows "range_pages a b \<union> range_pages b c = range_pages a c"
    and "range_pages b c \<inter> range_pages a b = {}"
proof -
  have b: "unat b mod 4096 = 0" using assms(1) by (simp add: mod_PGSIZE_iff)
  have "v \<in> range_pages a c \<longleftrightarrow> v \<in> range_pages a b \<or> v \<in> range_pages b c" for v
  proof (cases "unat v mod 4096 = 0")
    case True
    show ?thesis
    proof (cases "b \<le> v")
      case True
      then show ?thesis using assms(2,3) by (auto simp: range_pages_def word_le_nat_alt)
    next
      case False
      then have "unat v + 4096 \<le> unat b"
        using multiples_le_iff [OF \<open>unat v mod 4096 = 0\<close> b] by (auto simp: word_le_nat_alt)
      then show ?thesis using assms(3) False by (auto simp: range_pages_def)
    qed
  qed (simp add: range_pages_def mod_PGSIZE_iff)
  then show "range_pages a b \<union> range_pages b c = range_pages a c" by auto
  show "range_pages b c \<inter> range_pages a b = {}"
    by (auto simp: range_pages_def word_le_nat_alt)
qed

text \<open>
  The two calls of \<^verbatim>\<open>main\<close>: \<^verbatim>\<open>kinit1(end, P2V(4*1024*1024))\<close> and
  \<^verbatim>\<open>kinit2(P2V(4*1024*1024), P2V(PHYSTOP))\<close>.
\<close>

definition kinit_main :: "'a kmem_scheme \<Rightarrow> 'a kmem_scheme res" where
  "kinit_main s =
     bindr (kinit1 (kend s) (P2V (4 * 1024 * 1024)) s) (\<lambda>s.
     kinit2 (P2V (4 * 1024 * 1024)) (P2V PHYSTOP) s)"

lemma kinit_main_frees:
  assumes "freelist s = 0" and "0x80000000 \<le> unat (kend s)" and "unat (kend s) \<le> 0x80400000"
  shows "\<exists>s'. kinit_main s = Inr s' \<and> kmem_inv s' \<and> use_lock s' \<and>
           free_pages s' = range_pages (PGROUNDUP (kend s)) (P2V PHYSTOP)"
proof -
  let ?p = "PGROUNDUP (kend s)" and ?mid = "P2V (4 * 1024 * 1024) :: uint" and ?top = "P2V PHYSTOP"
  let ?s0 = "s\<lparr>use_lock := False\<rparr>"
  have mid: "unat ?mid = 0x80400000" "?mid mod PGSIZE = 0" and top: "unat ?top = 0x8E000000"
    by (simp_all add: P2V_def)
  have small: "unat (kend s) + 4095 < 2 ^ 32" using assms(3) by simp
  note up = PGROUNDUP_least [OF small]
  have p_mid: "unat ?p \<le> 0x80400000" using up(3) [of "0x80400000"] assms(3) by simp
  have up_mid: "PGROUNDUP ?mid = ?mid" by (simp add: PGROUNDUP_def P2V_def)
  have p: "?p mod PGSIZE = 0" "0x80000000 \<le> unat ?p"
    using up(1,2) assms(2) by (simp_all add: mod_PGSIZE_iff word_le_nat_alt)
  have fl0: "free_list ?s0 []" using assms(1) by (simp add: free_list_def)
  have "\<exists>s1 ys. freerange_loop ?p ?mid ?s0 = Inr s1 \<and> free_list s1 ys \<and>
          set ys = set [] \<union> range_pages ?p ?mid \<and> kend s1 = kend ?s0"
    by (rule freerange_loop_frees [OF fl0 p(1)]) (use up(2) p p_mid mid in auto)
  then obtain s1 ys where s1: "freerange_loop ?p ?mid ?s0 = Inr s1" "free_list s1 ys"
    "set ys = range_pages ?p ?mid" "kend s1 = kend s" by auto
  have le_mid: "kend s \<le> ?mid" "?p \<le> ?mid"
    using assms(3) p_mid mid by (simp_all add: word_le_nat_alt)
  note un = range_pages_Un [where c = ?top, OF mid(2) le_mid(2)]
  have "\<exists>s2 zs. freerange_loop ?mid ?top s1 = Inr s2 \<and> free_list s2 zs \<and>
          set zs = set ys \<union> range_pages ?mid ?top \<and> kend s2 = kend s1"
    by (rule freerange_loop_frees [OF s1(2) mid(2)]) (use le_mid mid(1) top s1 un(2) in auto)
  then obtain s2 zs where s2: "freerange_loop ?mid ?top s1 = Inr s2" "free_list s2 zs"
    "set zs = range_pages ?p ?top" using s1(3) un(1) mid(1) top by auto
  have "free_list (s2\<lparr>use_lock := True\<rparr>) zs"
    using s2(2) by (simp add: free_list_def page_ok_def)
  then show ?thesis
    using s1(1) s2(1,3) up_mid free_pages_eq [of "s2\<lparr>use_lock := True\<rparr>" zs]
    by (auto simp: kinit_main_def kinit1_def kinit2_def freerange_def kmem_inv_def)
qed

section \<open>Clients of the allocator\<close>

text \<open>
  A run of the kernel as the allocator sees it: pages are taken with \<^verbatim>\<open>kalloc\<close>, and a page
  that was taken may be given back with \<^verbatim>\<open>kfree\<close>.  The set is the pages in use.
\<close>

inductive kuse :: "'a kmem_scheme \<times> uint set \<Rightarrow> 'a kmem_scheme \<times> uint set \<Rightarrow> bool" where
  start: "kuse c c"
| take: "kuse c (s, A) \<Longrightarrow> kalloc s = (p, s') \<Longrightarrow> p \<noteq> 0 \<Longrightarrow> kuse c (s', insert p A)"
| fail: "kuse c (s, A) \<Longrightarrow> kalloc s = (0, s') \<Longrightarrow> kuse c (s', A)"
| give: "kuse c (s, A) \<Longrightarrow> p \<in> A \<Longrightarrow> kfree p s = Inr s' \<Longrightarrow> kuse c (s', A - {p})"

lemma kuse_conserves:
  assumes "kuse (s0, {}) (s, A)" and "kmem_inv s0"
  shows "kmem_inv s \<and> A \<inter> free_pages s = {} \<and> A \<union> free_pages s = free_pages s0 \<and>
           page_ok s = page_ok s0 \<and> (\<forall>p \<in> A. page_ok s0 p)"
  using assms(1)
proof (induction "(s0, {} :: uint set)" "(s, A)" arbitrary: s A rule: kuse.induct)
  case start
  then show ?case using assms(2) by simp
next
  case (take s A p s')
  then show ?case using kp.alloc_owned [of s p s' A] by auto
next
  case (fail s A s')
  have "s' = s"
    using fail(3) by (auto simp: kalloc_def Let_def split: if_splits)
  then show ?case using fail by simp
next
  case (give s A p s')
  then show ?case using kp.free_owned [of s p A] by auto
qed

section \<open>Properties\<close>



text \<open>C28: in every run of \<^verbatim>\<open>kalloc\<close> and \<^verbatim>\<open>kfree\<close> calls in which only pages in use are
  freed, the pages in use and the free pages are disjoint and together are the pages the run
  started with, so no page is lost or handed out twice.\<close>

theorem pages_conserved:
  assumes "kuse (s0, {}) (s, A)" and "kmem_inv s0"
  shows "kmem_inv s \<and> A \<inter> free_pages s = {} \<and> A \<union> free_pages s = free_pages s0 \<and>
    (\<forall>p s'. kalloc s = (p, s') \<and> p \<noteq> 0 \<longrightarrow> p \<in> free_pages s0 - A)"
proof -
  note c = kuse_conserves [OF assms]
  have "p \<in> free_pages s0 - A" if "kalloc s = (p, s')" "p \<noteq> 0" for p s'
    using c kp.alloc_owned(1) [of s p s' A] kp.alloc_owned(6) [of s p s' A] that by auto
  with c show ?thesis by blast
qed

lemma two_free_pages:
  "\<exists>s :: kmem. free_list s [0x80500000, 0x80400000] \<and> kend s = 0x80200000"
proof -
  let ?s = "\<lparr>mem = (\<lambda>_. 0), freelist = 0, use_lock = True, kend = 0x80200000, kdata = 0x80108000, ksym = (\<lambda>_. 0x80100000)\<rparr>"
  have "free_list ?s []" "page_ok ?s 0x80400000"
    by (simp_all add: free_list_def page_ok_def V2P_def)
  then obtain s1 :: kmem where "free_list s1 [0x80400000]" "kend s1 = 0x80200000"
    using free_list_kfree [of ?s "[]" "0x80400000"] by auto
  moreover from this have "page_ok s1 0x80500000"
    by (simp add: page_ok_def V2P_def)
  ultimately show ?thesis
    using free_list_kfree [of s1 "[0x80400000]" "0x80500000"] by auto
qed

theorem pages_conserved_witness:
  "\<exists>(s0 :: kmem) s. kuse (s0, {}) (s, {0x80500000}) \<and> kmem_inv s0 \<and> 0x80500000 \<notin> free_pages s \<and>
     free_pages s0 = {0x80500000, 0x80400000} \<and> insert 0x80500000 (free_pages s) = free_pages s0"
proof -
  obtain s0 :: kmem where s0: "free_list s0 [0x80500000, 0x80400000]"
    using two_free_pages by blast
  then obtain s where "kalloc s0 = (0x80500000, s)"
    using free_list_kalloc by fastforce
  then have run: "kuse (s0, {}) (s, {0x80500000})"
    using kuse.take [OF kuse.start] by fastforce
  moreover have "kmem_inv s0"
    using s0 kmem_inv_def by blast
  ultimately show ?thesis
    using pages_conserved [of s0 s "{0x80500000}"] free_pages_eq [OF s0] by (intro exI[of _ s0] exI[of _ s]) auto
qed

end
