(* ===== verification/Spinlock.thy ===== *)
theory Spinlock
  imports Prelude
begin

text \<open>
  The per-CPU state of \<^verbatim>\<open>proc.h\<close> and the spin locks of \<^verbatim>\<open>spinlock.c\<close>.

  \<open>pushcli\<close>, \<open>popcli\<close> and \<open>holding\<close> are functions of the state of the CPU that runs them.
  \<open>acquire\<close> and \<open>release\<close> run on several CPUs at once, so they are cut at their accesses to
  the shared lock: \<open>cpu_step\<close> is what one CPU does up to its next such access, and \<open>spin_step\<close>
  interleaves the CPUs in any order.  The rest of the development treats a section between
  \<open>acquire\<close> and \<open>release\<close> as one step; mutual exclusion is what justifies it.
\<close>

section \<open>CPUs\<close>

definition NCPU :: nat where [simp]: "NCPU = 8"

record segdesc =
  lim_15_0 :: "16 word"
  base_15_0 :: "16 word"
  base_23_16 :: "8 word"
  sd_type :: "4 word"
  sd_s :: "1 word"
  sd_dpl :: "2 word"
  sd_p :: "1 word"
  lim_19_16 :: "4 word"
  sd_avl :: "1 word"
  sd_rsv1 :: "1 word"
  sd_db :: "1 word"
  sd_g :: "1 word"
  base_31_24 :: "8 word"

definition SEG :: "uint \<Rightarrow> uint \<Rightarrow> uint \<Rightarrow> uint \<Rightarrow> segdesc" where
  "SEG type base lim dpl = \<lparr>lim_15_0 = ucast (drop_bit 12 lim AND 0xffff), base_15_0 = ucast (base AND 0xffff),
     base_23_16 = ucast (drop_bit 16 base AND 0xff), sd_type = ucast type, sd_s = 1, sd_dpl = ucast dpl, sd_p = 1,
     lim_19_16 = ucast (drop_bit 28 lim), sd_avl = 0, sd_rsv1 = 0, sd_db = 1, sd_g = 1, base_31_24 = ucast (drop_bit 24 base)\<rparr>"

definition SEG16 :: "uint \<Rightarrow> uint \<Rightarrow> uint \<Rightarrow> uint \<Rightarrow> segdesc" where
  "SEG16 type base lim dpl = \<lparr>lim_15_0 = ucast (lim AND 0xffff), base_15_0 = ucast (base AND 0xffff),
     base_23_16 = ucast (drop_bit 16 base AND 0xff), sd_type = ucast type, sd_s = 1, sd_dpl = ucast dpl, sd_p = 1,
     lim_19_16 = ucast (drop_bit 16 lim), sd_avl = 0, sd_rsv1 = 0, sd_db = 1, sd_g = 0, base_31_24 = ucast (drop_bit 24 base)\<rparr>"

text \<open>
  Of the task state the kernel writes \<open>ss0\<close>, \<open>esp0\<close> and \<open>iomb\<close>.  \<open>c_if\<close> is the interrupt
  flag of the CPU's \<^verbatim>\<open>eflags\<close>, \<open>c_cr3\<close> its page table register, \<open>c_ts_addr\<close> the address of its
  task state.
\<close>

record cpu =
  c_apicid :: uchar
  c_ts_addr :: uint
  c_ts_ss0 :: ushort
  c_ts_esp0 :: uint
  c_ts_iomb :: ushort
  c_gdt :: "nat \<Rightarrow> segdesc"
  c_started :: bool
  c_ncli :: int
  c_intena :: bool
  c_proc :: "nat option"
  c_if :: bool
  c_cr3 :: uint

definition pushcli :: "cpu \<Rightarrow> cpu" where
  "pushcli c =
     (let eflags = c_if c; c = c\<lparr>c_if := False\<rparr>;
          c = (if c_ncli c = 0 then c\<lparr>c_intena := eflags\<rparr> else c)
      in c\<lparr>c_ncli := c_ncli c + 1\<rparr>)"

definition popcli :: "cpu \<Rightarrow> cpu res" where
  "popcli c =
     (if c_if c then Inl (Panic ''popcli - interruptible'')
      else let c = c\<lparr>c_ncli := c_ncli c - 1\<rparr> in
      if c_ncli c < 0 then Inl (Panic ''popcli'')
      else Inr (if c_ncli c = 0 \<and> c_intena c then c\<lparr>c_if := True\<rparr> else c))"

section \<open>Locks\<close>

text \<open>A pointer to a CPU is its index in \<^verbatim>\<open>cpus\<close>.\<close>

record spinlock =
  lk_locked :: bool
  lk_cpu :: "nat option"

definition initlock :: spinlock where
  "initlock = \<lparr>lk_locked = False, lk_cpu = None\<rparr>"

definition holding :: "nat \<Rightarrow> spinlock \<Rightarrow> cpu \<Rightarrow> (bool \<times> cpu) res" where
  "holding i lk c =
     (let c = pushcli c; r = (lk_locked lk \<and> lk_cpu lk = Some i)
      in bindr (popcli c) (\<lambda>c. Inr (r, c)))"

text \<open>The instruction \<^verbatim>\<open>xchg\<close> on the lock word: the old value and the lock with the new one.\<close>

definition xchg_lock :: "spinlock \<Rightarrow> bool \<Rightarrow> bool \<times> spinlock" where
  "xchg_lock lk v = (lk_locked lk, lk\<lparr>lk_locked := v\<rparr>)"

text \<open>Following the frame pointers: at most ten return addresses, padded with zeroes.\<close>

primrec getcallerpcs_loop :: "nat \<Rightarrow> (uint \<Rightarrow> uint) \<Rightarrow> uint \<Rightarrow> uint list" where
  "getcallerpcs_loop 0 ld ebp = []"
| "getcallerpcs_loop (Suc k) ld ebp =
     (if ebp = 0 \<or> ebp < 0x80000000 \<or> ebp = 0xffffffff then replicate (Suc k) 0
      else ld (ebp + 4) # getcallerpcs_loop k ld (ld ebp))"

definition getcallerpcs :: "(uint \<Rightarrow> uint) \<Rightarrow> uint \<Rightarrow> uint list" where
  "getcallerpcs ld v = getcallerpcs_loop 10 ld (v - 8)"

text \<open>
  Where a CPU is: outside; spinning in \<open>acquire\<close>; the exchange has succeeded; between \<open>acquire\<close> and
  \<open>release\<close>; \<open>release\<close> has cleared the owner; \<open>release\<close> has cleared the lock word; stopped by
  \<open>panic\<close>.
\<close>

datatype pc = Outside | Spinning | Taken | Critical | Disowned | Freed | Halted string

record sys =
  scpus :: "nat \<Rightarrow> cpu"
  slock :: spinlock
  spcs :: "nat \<Rightarrow> pc"

definition spc_goto :: "nat \<Rightarrow> pc \<Rightarrow> sys \<Rightarrow> sys" where
  "spc_goto i q s = s\<lparr>spcs := (spcs s)(i := q)\<rparr>"

definition set_cpu :: "nat \<Rightarrow> cpu \<Rightarrow> sys \<Rightarrow> sys" where
  "set_cpu i c s = s\<lparr>scpus := (scpus s)(i := c)\<rparr>"

text \<open>A call that may panic, then the rest.\<close>

definition try_cpu :: "nat \<Rightarrow> 'a res \<Rightarrow> ('a \<Rightarrow> sys) \<Rightarrow> sys \<Rightarrow> sys" where
  "try_cpu i r f s = (case r of Inr x \<Rightarrow> f x | Inl (Panic m) \<Rightarrow> spc_goto i (Halted m) s | Inl _ \<Rightarrow> spc_goto i (Halted []) s)"

definition acquire_enter :: "nat \<Rightarrow> sys \<Rightarrow> sys" where
  "acquire_enter i s =
     (let c = pushcli (scpus s i) in
      try_cpu i (holding i (slock s) c) (\<lambda>(h, c).
        if h then spc_goto i (Halted ''acquire'') (set_cpu i c s) else spc_goto i Spinning (set_cpu i c s)) s)"

definition acquire_xchg :: "nat \<Rightarrow> sys \<Rightarrow> sys" where
  "acquire_xchg i s =
     (let (old, lk) = xchg_lock (slock s) True; s = s\<lparr>slock := lk\<rparr>
      in if old then s else spc_goto i Taken s)"

definition acquire_own :: "nat \<Rightarrow> sys \<Rightarrow> sys" where
  "acquire_own i s = spc_goto i Critical (s\<lparr>slock := (slock s)\<lparr>lk_cpu := Some i\<rparr>\<rparr>)"

definition release_enter :: "nat \<Rightarrow> sys \<Rightarrow> sys" where
  "release_enter i s =
     try_cpu i (holding i (slock s) (scpus s i)) (\<lambda>(h, c).
       if \<not> h then spc_goto i (Halted ''release'') (set_cpu i c s)
       else spc_goto i Disowned ((set_cpu i c s)\<lparr>slock := (slock s)\<lparr>lk_cpu := None\<rparr>\<rparr>)) s"

definition release_free :: "nat \<Rightarrow> sys \<Rightarrow> sys" where
  "release_free i s = spc_goto i Freed (s\<lparr>slock := (slock s)\<lparr>lk_locked := False\<rparr>\<rparr>)"

definition release_leave :: "nat \<Rightarrow> sys \<Rightarrow> sys" where
  "release_leave i s = try_cpu i (popcli (scpus s i)) (\<lambda>c. spc_goto i Outside (set_cpu i c s)) s"

definition cpu_step :: "nat \<Rightarrow> sys \<Rightarrow> sys" where
  "cpu_step i s = (case spcs s i of
     Outside \<Rightarrow> acquire_enter i s
   | Spinning \<Rightarrow> acquire_xchg i s
   | Taken \<Rightarrow> acquire_own i s
   | Critical \<Rightarrow> release_enter i s
   | Disowned \<Rightarrow> release_free i s
   | Freed \<Rightarrow> release_leave i s
   | Halted m \<Rightarrow> s)"

text \<open>
  Any CPU may take its next step.  A CPU outside may also turn its interrupts on or off when it
  is not inside a \<open>pushcli\<close>, and hold other locks, which nests \<open>pushcli\<close>.
\<close>

inductive spin_step :: "sys \<Rightarrow> sys \<Rightarrow> bool" where
  run: "i < NCPU \<Longrightarrow> spin_step s (cpu_step i s)"
| sti_cli: "i < NCPU \<Longrightarrow> spcs s i = Outside \<Longrightarrow> c_ncli (scpus s i) = 0 \<Longrightarrow> spin_step s (set_cpu i ((scpus s i)\<lparr>c_if := b\<rparr>) s)"
| other_lock: "i < NCPU \<Longrightarrow> spcs s i = Outside \<Longrightarrow> spin_step s (set_cpu i (pushcli (scpus s i)) s)"
| other_unlock: "i < NCPU \<Longrightarrow> spcs s i = Outside \<Longrightarrow> 0 < c_ncli (scpus s i) \<Longrightarrow> popcli (scpus s i) = Inr c \<Longrightarrow> spin_step s (set_cpu i c s)"

inductive_cases spin_stepE: "spin_step s t"

section \<open>Interrupt nesting\<close>

definition cpu_ok :: "cpu \<Rightarrow> bool" where
  "cpu_ok c \<longleftrightarrow> 0 \<le> c_ncli c \<and> (0 < c_ncli c \<longrightarrow> \<not> c_if c)"

lemma pushcli_ok [simp]: "cpu_ok c \<Longrightarrow> cpu_ok (pushcli c)"
  by (simp add: cpu_ok_def pushcli_def Let_def)

lemma popcli_ok:
  assumes "cpu_ok c" "0 < c_ncli c"
  shows "\<exists>c'. popcli c = Inr c' \<and> cpu_ok c' \<and> c_ncli c' = c_ncli c - 1"
  using assms by (auto simp: popcli_def cpu_ok_def Let_def)

lemma pushcli_popcli:
  assumes "cpu_ok c"
  shows "\<exists>b. popcli (pushcli c) = Inr (c\<lparr>c_intena := b\<rparr>)"
  using assms by (auto simp: popcli_def pushcli_def cpu_ok_def Let_def intro!: exI[of _ "if c_ncli c = 0 then c_if c else c_intena c"])

lemma holding_ok:
  assumes "cpu_ok c"
  shows "\<exists>b. holding i lk c = Inr (lk_locked lk \<and> lk_cpu lk = Some i, c\<lparr>c_intena := b\<rparr>)"
  using pushcli_popcli[OF assms] by (auto simp: holding_def Let_def)

section \<open>Mutual exclusion\<close>

definition inside :: "pc \<Rightarrow> bool" where
  "inside q \<longleftrightarrow> q = Taken \<or> q = Critical \<or> q = Disowned"

text \<open>
  The lock word is set exactly while some CPU is inside, then exactly one; the owner is recorded
  exactly while it is between \<open>acquire\<close> and \<open>release\<close>; no CPU has panicked; a CPU that is anywhere
  but outside has its interrupts off.
\<close>

definition lock_inv :: "sys \<Rightarrow> bool" where
  "lock_inv s \<longleftrightarrow> (\<forall>i j. inside (spcs s i) \<longrightarrow> inside (spcs s j) \<longrightarrow> i = j) \<and>
     (lk_locked (slock s) \<longleftrightarrow> (\<exists>i. inside (spcs s i))) \<and>
     (\<forall>i. lk_cpu (slock s) = Some i \<longleftrightarrow> spcs s i = Critical) \<and>
     (\<forall>i m. spcs s i \<noteq> Halted m) \<and> (\<forall>i. cpu_ok (scpus s i)) \<and>
     (\<forall>i. spcs s i \<noteq> Outside \<longrightarrow> 0 < c_ncli (scpus s i))"

lemmas step_defs = spc_goto_def set_cpu_def try_cpu_def acquire_enter_def acquire_xchg_def acquire_own_def
  release_enter_def release_free_def release_leave_def xchg_lock_def Let_def

lemma lock_inv_cpu:
  assumes "lock_inv s" "cpu_ok c" "spcs s i \<noteq> Outside \<longrightarrow> 0 < c_ncli c"
  shows "lock_inv (set_cpu i c s)"
  using assms by (auto simp: lock_inv_def set_cpu_def)

lemma pc_facts [simp]:
  "inside Taken" "inside Critical" "inside Disowned" "\<not> inside Outside" "\<not> inside Spinning" "\<not> inside Freed" "\<not> inside (Halted m)"
  by (simp_all add: inside_def)

text \<open>A step of CPU \<open>i\<close> that changes its own position, its own state and the lock.\<close>

lemma lock_inv_move:
  assumes inv: "lock_inv s" and c: "cpu_ok c" "q \<noteq> Outside \<longrightarrow> 0 < c_ncli c" and q: "\<And>m. q \<noteq> Halted m"
    and free: "inside q \<Longrightarrow> \<not> inside (spcs s i) \<Longrightarrow> \<not> lk_locked (slock s)"
    and l: "lk_locked lk = (if inside q then True else if inside (spcs s i) then False else lk_locked (slock s))"
    and o: "lk_cpu lk = (if q = Critical then Some i else if spcs s i = Critical then None else lk_cpu (slock s))"
  shows "lock_inv (spc_goto i q (set_cpu i c (s\<lparr>slock := lk\<rparr>)))"
proof -
  have one: "i = j" if "inside (spcs s j)" "inside q \<or> inside (spcs s i)" for j
  proof (cases "inside (spcs s i)")
    case False
    then have "\<not> lk_locked (slock s)" using that free by blast
    then show ?thesis using inv that unfolding lock_inv_def by blast
  qed (use inv that in \<open>auto simp: lock_inv_def\<close>)
  let ?spcs = "(spcs s)(i := q)"
  let ?t = "spc_goto i q (set_cpu i c (s\<lparr>slock := lk\<rparr>))"
  have t: "spcs ?t = ?spcs" "slock ?t = lk" "scpus ?t = (scpus s)(i := c)" by (simp_all add: spc_goto_def set_cpu_def)
  have 1: "\<forall>j k. inside (?spcs j) \<longrightarrow> inside (?spcs k) \<longrightarrow> j = k"
    using one inv by (auto simp: lock_inv_def split: if_splits)
  have 2: "lk_locked lk \<longleftrightarrow> (\<exists>j. inside (?spcs j))"
    using one inv by (auto simp: lock_inv_def l split: if_splits)
  have 3: "\<forall>j. lk_cpu lk = Some j \<longleftrightarrow> ?spcs j = Critical"
  proof
    fix j
    have j: "lk_cpu (slock s) = Some k \<longleftrightarrow> spcs s k = Critical" for k using inv by (simp add: lock_inv_def)
    show "lk_cpu lk = Some j \<longleftrightarrow> ?spcs j = Critical"
      using one[of j] j[of i] j[of j] o by (cases "j = i") auto
  qed
  have 4: "\<forall>j m. ?spcs j \<noteq> Halted m" "\<forall>j. cpu_ok (((scpus s)(i := c)) j)"
    "\<forall>j. ?spcs j \<noteq> Outside \<longrightarrow> 0 < c_ncli (((scpus s)(i := c)) j)"
    using c q inv by (auto simp: lock_inv_def)
  show ?thesis unfolding lock_inv_def t by (intro conjI 1 2 3 4)
qed

lemma cpu_step_inv:
  assumes inv: "lock_inv s"
  shows "lock_inv (cpu_step i s)"
proof -
  have ok: "cpu_ok (scpus s i)" and n: "spcs s i \<noteq> Outside \<Longrightarrow> 0 < c_ncli (scpus s i)"
    and cpu: "lk_cpu (slock s) = Some i \<longleftrightarrow> spcs s i = Critical" and nh: "\<And>m. spcs s i \<noteq> Halted m"
    and lk: "inside (spcs s i) \<Longrightarrow> lk_locked (slock s)"
    using inv by (auto simp: lock_inv_def)
  note mv = lock_inv_move[OF inv, of _ _ i]
  have same: "s\<lparr>slock := slock s\<rparr> = s" "set_cpu i (scpus s i) t = t" if "scpus t = scpus s" for t
    using that by (simp_all add: set_cpu_def flip: that)
  show ?thesis
  proof (cases "spcs s i")
    case Outside
    have p: "cpu_ok (pushcli (scpus s i))" using ok by simp
    obtain b where h: "holding i (slock s) (pushcli (scpus s i)) = Inr (False, (pushcli (scpus s i))\<lparr>c_intena := b\<rparr>)"
      using holding_ok[OF p, of i "slock s"] cpu Outside by auto
    have "lock_inv (spc_goto i Spinning (set_cpu i ((pushcli (scpus s i))\<lparr>c_intena := b\<rparr>) (s\<lparr>slock := slock s\<rparr>)))"
      by (rule mv) (use p ok Outside in \<open>auto simp: cpu_ok_def pushcli_def Let_def\<close>)
    then show ?thesis using Outside h by (simp add: cpu_step_def acquire_enter_def try_cpu_def Let_def)
  next
    case Spinning
    show ?thesis
    proof (cases "lk_locked (slock s)")
      case True
      then have "s\<lparr>slock := (slock s)\<lparr>lk_locked := True\<rparr>\<rparr> = s" by (cases s; cases "slock s") simp
      then have "cpu_step i s = s" using Spinning True by (simp add: cpu_step_def acquire_xchg_def xchg_lock_def)
      then show ?thesis using inv by simp
    next
      case False
      have "lock_inv (spc_goto i Taken (set_cpu i (scpus s i) (s\<lparr>slock := (slock s)\<lparr>lk_locked := True\<rparr>\<rparr>)))"
        by (rule mv) (use ok n Spinning False in auto)
      then show ?thesis using Spinning False by (simp add: cpu_step_def acquire_xchg_def xchg_lock_def same)
    qed
  next
    case Taken
    have "lock_inv (spc_goto i Critical (set_cpu i (scpus s i) (s\<lparr>slock := (slock s)\<lparr>lk_cpu := Some i\<rparr>\<rparr>)))"
      by (rule mv) (use ok n lk Taken in auto)
    then show ?thesis using Taken by (simp add: cpu_step_def acquire_own_def same)
  next
    case Critical
    obtain b where h: "holding i (slock s) (scpus s i) = Inr (True, (scpus s i)\<lparr>c_intena := b\<rparr>)"
      using holding_ok[OF ok, of i "slock s"] cpu lk Critical by auto
    have "lock_inv (spc_goto i Disowned (set_cpu i ((scpus s i)\<lparr>c_intena := b\<rparr>) (s\<lparr>slock := (slock s)\<lparr>lk_cpu := None\<rparr>\<rparr>)))"
      by (rule mv) (use ok n lk Critical in \<open>auto simp: cpu_ok_def\<close>)
    moreover have "set_cpu i c (s\<lparr>slock := l\<rparr>) = (set_cpu i c s)\<lparr>slock := l\<rparr>" for c l by (simp add: set_cpu_def)
    ultimately show ?thesis using Critical h by (simp add: cpu_step_def release_enter_def try_cpu_def)
  next
    case Disowned
    have "lock_inv (spc_goto i Freed (set_cpu i (scpus s i) (s\<lparr>slock := (slock s)\<lparr>lk_locked := False\<rparr>\<rparr>)))"
      by (rule mv) (use ok n Disowned in auto)
    then show ?thesis using Disowned by (simp add: cpu_step_def release_free_def same)
  next
    case Freed
    obtain c where c: "popcli (scpus s i) = Inr c" "cpu_ok c" using popcli_ok[OF ok] n Freed by auto
    have "lock_inv (spc_goto i Outside (set_cpu i c (s\<lparr>slock := slock s\<rparr>)))"
      by (rule mv) (use c Freed in auto)
    then show ?thesis using Freed c by (simp add: cpu_step_def release_leave_def try_cpu_def)
  next
    case (Halted m)
    then show ?thesis using nh by simp
  qed
qed

lemma step_inv: "spin_step s t \<Longrightarrow> lock_inv s \<Longrightarrow> lock_inv t"
proof (induction rule: spin_step.induct)
  case (run i s)
  then show ?case by (simp add: cpu_step_inv)
next
  case (sti_cli i s b)
  then show ?case by (intro lock_inv_cpu) (auto simp: cpu_ok_def)
next
  case (other_lock i s)
  then show ?case by (intro lock_inv_cpu) (auto simp: lock_inv_def)
next
  case (other_unlock i s c)
  then show ?case using popcli_ok[of "scpus s i"] by (intro lock_inv_cpu) (auto simp: lock_inv_def)
qed

text \<open>The lock as \<open>initlock\<close> makes it, and all CPUs outside.\<close>

definition spin_start :: "(nat \<Rightarrow> cpu) \<Rightarrow> sys" where
  "spin_start cs = \<lparr>scpus = cs, slock = initlock, spcs = (\<lambda>_. Outside)\<rparr>"

text \<open>C7: However the CPUs interleave, at most one of them is between \<^verbatim>\<open>acquire\<close> and \<^verbatim>\<open>release\<close>, with its
  interrupts off; no CPU ever panics in \<^verbatim>\<open>acquire\<close>, \<^verbatim>\<open>release\<close> or \<^verbatim>\<open>popcli\<close>.\<close>

theorem mutual_exclusion:
  assumes "\<forall>i. cpu_ok (cs i)" and "spin_step\<^sup>*\<^sup>* (spin_start cs) s"
  shows "(\<forall>i j. spcs s i = Critical \<longrightarrow> spcs s j = Critical \<longrightarrow> i = j) \<and>
    (\<forall>i. spcs s i = Critical \<longrightarrow> \<not> c_if (scpus s i) \<and> lk_cpu (slock s) = Some i) \<and> (\<forall>i m. spcs s i \<noteq> Halted m)"
proof -
  have "lock_inv (spin_start cs)"
    using assms(1) by (simp add: lock_inv_def spin_start_def initlock_def)
  with assms(2) have inv: "lock_inv s"
    by (induction rule: rtranclp_induct) (auto intro: step_inv)
  show ?thesis
  proof (intro conjI)
    show "\<forall>i j. spcs s i = Critical \<longrightarrow> spcs s j = Critical \<longrightarrow> i = j"
      using inv unfolding lock_inv_def by (metis pc_facts(2))
    show "\<forall>i. spcs s i = Critical \<longrightarrow> \<not> c_if (scpus s i) \<and> lk_cpu (slock s) = Some i"
      using inv unfolding lock_inv_def cpu_ok_def by (metis pc.distinct(5))
    show "\<forall>i m. spcs s i \<noteq> Halted m"
      using inv unfolding lock_inv_def by blast
  qed
qed

definition cpu0 :: cpu where
  "cpu0 = \<lparr>c_apicid = 0, c_ts_addr = 0, c_ts_ss0 = 0, c_ts_esp0 = 0, c_ts_iomb = 0, c_gdt = (\<lambda>_. SEG 0 0 0 0), c_started = True,
     c_ncli = 0, c_intena = False, c_proc = None, c_if = True, c_cr3 = 0\<rparr>"

lemma steps_run: "spin_step\<^sup>*\<^sup>* s t \<Longrightarrow> i < NCPU \<Longrightarrow> spin_step\<^sup>*\<^sup>* s (cpu_step i t)"
  by (rule rtranclp.rtrancl_into_rtrancl) (auto intro: run)

text \<open>CPU 1 acquires the lock while CPU 0 spins.\<close>

theorem mutual_exclusion_witness:
  "\<exists>s. spin_step\<^sup>*\<^sup>* (spin_start (\<lambda>_. cpu0)) s \<and> spcs s 0 = Spinning \<and> spcs s 1 = Critical \<and> \<not> c_if (scpus s 1)"
proof -
  define s where "s = cpu_step 0 (cpu_step 1 (cpu_step 1 (cpu_step 1 (cpu_step 0 (spin_start (\<lambda>_. cpu0))))))"
  have r: "spin_step\<^sup>*\<^sup>* (spin_start (\<lambda>_. cpu0)) s"
    unfolding s_def by (intro steps_run rtranclp.rtrancl_refl) simp_all
  have "spcs s 0 = Spinning" "spcs s 1 = Critical"
    by (simp_all add: s_def cpu_step_def step_defs spin_start_def cpu0_def initlock_def holding_def pushcli_def popcli_def)
  moreover have "\<forall>i::nat. cpu_ok cpu0" by (simp add: cpu_ok_def cpu0_def)
  ultimately show ?thesis using mutual_exclusion[OF _ r] r by blast
qed

end
