(* ===== verification/Ptable.thy ===== *)
theory Ptable
  imports Kalloc Spinlock
begin

text \<open>
  The process table of \<^verbatim>\<open>proc.h\<close> and \<^verbatim>\<open>proc.c\<close> as far as every other part of the
  kernel needs it (the current process, \<^verbatim>\<open>sleep\<close>, \<^verbatim>\<open>wakeup\<close>), and the sleep locks of
  \<^verbatim>\<open>sleeplock.c\<close>, whose owner is a process.
\<close>

section \<open>Processes\<close>

datatype procstate = UNUSED | EMBRYO | SLEEPING | RUNNABLE | RUNNING | ZOMBIE

record trapframe =
  tf_edi :: uint
  tf_esi :: uint
  tf_ebp :: uint
  tf_oesp :: uint
  tf_ebx :: uint
  tf_edx :: uint
  tf_ecx :: uint
  tf_eax :: uint
  tf_gs :: ushort
  tf_fs :: ushort
  tf_es :: ushort
  tf_ds :: ushort
  tf_trapno :: uint
  tf_err :: uint
  tf_eip :: uint
  tf_cs :: ushort
  tf_eflags :: uint
  tf_esp :: uint
  tf_ss :: ushort

text \<open>A trap frame of zeroes; it takes 76 bytes of the kernel stack.\<close>

definition tf0 :: trapframe where
  "tf0 = \<lparr>tf_edi = 0, tf_esi = 0, tf_ebp = 0, tf_oesp = 0, tf_ebx = 0, tf_edx = 0, tf_ecx = 0, tf_eax = 0, tf_gs = 0, tf_fs = 0,
     tf_es = 0, tf_ds = 0, tf_trapno = 0, tf_err = 0, tf_eip = 0, tf_cs = 0, tf_eflags = 0, tf_esp = 0, tf_ss = 0\<rparr>"

text \<open>
  A pointer to a process, to an open file or to an in-memory inode is an index into its table;
  a null pointer is \<open>None\<close>.  \<open>p_pgdir\<close>, \<open>p_kstack\<close> and \<open>p_context\<close> are
  addresses, null is 0.  The trap frame, which lies on the kernel stack, is kept as a record.
\<close>

record proc =
  p_sz :: uint
  p_pgdir :: uint
  p_kstack :: uint
  p_state :: procstate
  p_pid :: int
  p_parent :: "nat option"
  p_tf :: trapframe
  p_context :: uint
  p_chan :: "chan option"
  p_killed :: bool
  p_ofile :: "nat \<Rightarrow> nat option"
  p_cwd :: "nat option"
  p_name :: block
  p_alarmticks :: int
  p_alarmhandler :: uint
  p_tick_counts :: int

text \<open>
  \<open>cur\<close> is the process on whose behalf the kernel code runs, that is \<^verbatim>\<open>myproc()\<close>, and
  \<open>mycpu\<close> the state of the CPU it runs on.
\<close>

record ptable = kmem +
  procs :: "nat \<Rightarrow> proc"
  cur :: nat
  nextpid :: int
  initproc :: "nat option"
  kpgdir :: uint
  mycpu :: cpu

definition myproc :: "'a ptable_scheme \<Rightarrow> proc" where
  "myproc s = procs s (cur s)"

definition upd_proc :: "nat \<Rightarrow> (proc \<Rightarrow> proc) \<Rightarrow> 'a ptable_scheme \<Rightarrow> 'a ptable_scheme" where
  "upd_proc i f s = s\<lparr>procs := (procs s)(i := f (procs s i))\<rparr>"

text \<open>\<^verbatim>\<open>wakeup1\<close> walks the whole table and makes the sleepers on the channel runnable.\<close>

definition woken :: "chan \<Rightarrow> (nat \<Rightarrow> proc) \<Rightarrow> nat \<Rightarrow> proc" where
  "woken ch ps = (\<lambda>i. let p = ps i in
     if i < NPROC \<and> p_state p = SLEEPING \<and> p_chan p = Some ch then p\<lparr>p_state := RUNNABLE\<rparr> else p)"

definition wakeup1 :: "chan \<Rightarrow> 'a ptable_scheme \<Rightarrow> 'a ptable_scheme" where
  "wakeup1 ch s = s\<lparr>procs := woken ch (procs s)\<rparr>"

definition wakeup :: "chan \<Rightarrow> 'a ptable_scheme \<Rightarrow> 'a ptable_scheme" where
  "wakeup ch s = wakeup1 ch s"

text \<open>
  What may happen to the process table while a file system operation runs: processes are made
  runnable.  Everything else in it stays.
\<close>

definition same_procs :: "(nat \<Rightarrow> proc) \<Rightarrow> (nat \<Rightarrow> proc) \<Rightarrow> bool" where
  "same_procs ps qs \<longleftrightarrow> (\<forall>i. (qs i)\<lparr>p_state := UNUSED\<rparr> = (ps i)\<lparr>p_state := UNUSED\<rparr>)"

lemma same_procs_refl [simp, intro]: "same_procs ps ps"
  by (simp add: same_procs_def)

lemma same_procs_trans [trans]: "same_procs ps qs \<Longrightarrow> same_procs qs rs \<Longrightarrow> same_procs ps rs"
  by (simp add: same_procs_def)

lemma same_procs_pid: "same_procs ps qs \<Longrightarrow> p_pid (qs i) = p_pid (ps i)"
  unfolding same_procs_def by (metis proc.select_convs(5) proc.surjective proc.update_convs(4))

lemma same_procs_woken [simp, intro]: "same_procs ps (woken ch ps)"
  by (simp add: woken_def same_procs_def Let_def)

lemma wakeup_eq: "wakeup ch s = s\<lparr>procs := woken ch (procs s)\<rparr>"
  by (simp add: wakeup_def wakeup1_def)

section \<open>Sleep locks\<close>

text \<open>
  \<^verbatim>\<open>acquiresleep\<close> on a lock that is held puts the caller to sleep on the lock.  The lock is a
  field of a buffer or of an inode, so the operations take the lock and the channel that is its
  address, and the caller stores the new lock.
\<close>

record sleeplock =
  sl_locked :: bool
  sl_pid :: int

definition initsleeplock :: sleeplock where
  "initsleeplock = \<lparr>sl_locked = False, sl_pid = 0\<rparr>"

definition acquiresleep :: "chan \<Rightarrow> sleeplock \<Rightarrow> 'a ptable_scheme \<Rightarrow> sleeplock res" where
  "acquiresleep ch lk s =
     (if sl_locked lk then Inl (Asleep ch)
      else Inr (lk\<lparr>sl_locked := True, sl_pid := p_pid (myproc s)\<rparr>))"

definition releasesleep :: "chan \<Rightarrow> sleeplock \<Rightarrow> 'a ptable_scheme \<Rightarrow> sleeplock \<times> 'a ptable_scheme" where
  "releasesleep ch lk s = (lk\<lparr>sl_locked := False, sl_pid := 0\<rparr>, wakeup ch s)"

definition holdingsleep :: "sleeplock \<Rightarrow> 'a ptable_scheme \<Rightarrow> bool" where
  "holdingsleep lk s \<longleftrightarrow> sl_locked lk \<and> sl_pid lk = p_pid (myproc s)"

end
