(* ===== verification/Ide.thy ===== *)
theory Ide
  imports Ptable
begin

text \<open>
  Disk buffers (\<^verbatim>\<open>buf.h\<close>) and the two disk drivers: the IDE driver \<^verbatim>\<open>ide.c\<close> and
  the memory disk \<^verbatim>\<open>memide.c\<close>, which implement one interface, \<open>disk_driver\<close>.

  The platter is the image the machine was started with and the list of the sector writes since
  then, newest first, so that a crash is a shorter list of writes.  The IDE driver selects the disk
  with the low bit of the device number.
\<close>

section \<open>Buffers and sectors\<close>

definition BSIZE :: nat where [simp]: "BSIZE = 512"
definition B_VALID :: uint where "B_VALID = 0x2"
definition B_DIRTY :: uint where "B_DIRTY = 0x4"

record buf =
  b_flags :: uint
  b_dev :: uint
  b_blockno :: uint
  b_lock :: sleeplock
  b_refcnt :: uint
  b_prev :: nat
  b_next :: nat
  b_data :: block

type_synonym sector = "uint \<times> uint"

record ide = ptable +
  bufs :: "nat \<Rightarrow> buf"
  idequeue :: "nat list"
  havedisk1 :: bool
  ideerr :: "sector \<Rightarrow> bool"          \<comment> \<open>reading this sector ends with the error bits set\<close>
  disk0 :: "sector \<Rightarrow> block"
  dwrites :: "(sector \<times> block) list"

definition upd_buf :: "nat \<Rightarrow> (buf \<Rightarrow> buf) \<Rightarrow> 'a ide_scheme \<Rightarrow> 'a ide_scheme" where
  "upd_buf i f s = s\<lparr>bufs := (bufs s)(i := f (bufs s i))\<rparr>"

definition sector_of :: "uint \<Rightarrow> uint \<Rightarrow> sector" where
  "sector_of dev blockno = (dev AND 1, blockno)"

definition platter :: "(sector \<Rightarrow> block) \<Rightarrow> (sector \<times> block) list \<Rightarrow> sector \<Rightarrow> block" where
  "platter d ws x = (case map_of ws x of Some v \<Rightarrow> v | None \<Rightarrow> d x)"

definition dread :: "'a ide_scheme \<Rightarrow> uint \<Rightarrow> uint \<Rightarrow> block" where
  "dread s dev blockno = platter (disk0 s) (dwrites s) (sector_of dev blockno)"

lemma platter_Nil [simp]: "platter d [] = d"
  by (simp add: platter_def fun_eq_iff)

lemma platter_Cons [simp]: "platter d ((x, v) # ws) = (platter d ws)(x := v)"
  by (auto simp: platter_def fun_eq_iff)

text \<open>The two flag bits are independent of each other and of the rest of the word.\<close>

definition is_valid :: "uint \<Rightarrow> bool" where "is_valid f \<longleftrightarrow> f AND B_VALID \<noteq> 0"
definition is_dirty :: "uint \<Rightarrow> bool" where "is_dirty f \<longleftrightarrow> f AND B_DIRTY \<noteq> 0"

lemma flag_bits:
  "bit B_VALID n \<longleftrightarrow> n = 1" "bit B_DIRTY n \<longleftrightarrow> n = 2"
  using bit_exp_iff[where 'a = "32 word", of 1 n] bit_exp_iff[where 'a = "32 word", of 2 n]
  by (auto simp: B_VALID_def B_DIRTY_def)

lemma is_valid_bit: "is_valid f \<longleftrightarrow> bit f 1" and is_dirty_bit: "is_dirty f \<longleftrightarrow> bit f 2"
proof -
  have "f AND B_VALID = (if bit f 1 then B_VALID else 0)" "f AND B_DIRTY = (if bit f 2 then B_DIRTY else 0)"
    by (auto intro!: bit_word_eqI simp: bit_and_iff flag_bits)
  then show "is_valid f \<longleftrightarrow> bit f 1" "is_dirty f \<longleftrightarrow> bit f 2"
    by (simp_all add: is_valid_def is_dirty_def B_VALID_def B_DIRTY_def)
qed

lemma flag_AND [simp]: "f AND B_VALID = 0 \<longleftrightarrow> \<not> is_valid f" "f AND B_DIRTY = 0 \<longleftrightarrow> \<not> is_dirty f"
  by (simp_all add: is_valid_def is_dirty_def)

lemma flag_set [simp]:
  "is_valid (f OR B_VALID)" "is_dirty (f OR B_VALID) = is_dirty f" "is_dirty (f OR B_DIRTY)"
  "is_valid (f OR B_DIRTY) = is_valid f" "\<not> is_dirty (f AND NOT B_DIRTY)"
  "is_valid (f AND NOT B_DIRTY) = is_valid f" "\<not> is_valid 0" "\<not> is_dirty 0"
  unfolding is_valid_bit is_dirty_bit by (simp_all add: bit_or_iff bit_and_iff bit_not_iff flag_bits)

lemma flag_synced [simp]: "f AND (B_VALID OR B_DIRTY) = B_VALID \<longleftrightarrow> is_valid f \<and> \<not> is_dirty f"
proof -
  have "f AND (B_VALID OR B_DIRTY) = (if bit f 1 then B_VALID else 0) OR (if bit f 2 then B_DIRTY else 0)"
    by (rule bit_word_eqI) (auto simp: bit_and_iff bit_or_iff flag_bits)
  then show ?thesis
    unfolding is_valid_bit is_dirty_bit by (simp add: B_VALID_def B_DIRTY_def)
qed

lemma not_dirty_AND [simp]: "\<not> is_dirty f \<Longrightarrow> f AND NOT B_DIRTY = f"
  unfolding is_dirty_bit by (rule bit_word_eqI) (auto simp: bit_and_iff bit_not_iff flag_bits)

lemma valid_dirty_commute: "(f AND NOT B_DIRTY) OR B_VALID = (f OR B_VALID) AND NOT B_DIRTY"
  by (rule bit_word_eqI) (auto simp: bit_or_iff bit_and_iff bit_not_iff flag_bits)

section \<open>The IDE driver\<close>

text \<open>
  \<^verbatim>\<open>idestart\<close> issues the command.  On a write the data goes to the controller at once
  (\<^verbatim>\<open>outsl\<close>); on a read the data is there when the interrupt comes (\<^verbatim>\<open>insl\<close>).  With
  \<^verbatim>\<open>BSIZE = SECTOR_SIZE\<close> a block is one sector.  Polling the status port until the drive is
  ready (\<^verbatim>\<open>idewait(0)\<close>) is not a step of the model.
\<close>

definition idestart :: "nat \<Rightarrow> 'a ide_scheme \<Rightarrow> 'a ide_scheme res" where
  "idestart i s =
     (let b = bufs s i in
      if b_blockno b \<ge> of_nat FSSIZE then Inl (Panic ''incorrect blockno'')
      else if b_flags b AND B_DIRTY \<noteq> 0
      then Inr (s\<lparr>dwrites := (sector_of (b_dev b) (b_blockno b), b_data b) # dwrites s\<rparr>)
      else Inr s)"

text \<open>\<open>ide_done\<close> is the middle of \<^verbatim>\<open>ideintr\<close>, from the transfer of the data to the wakeup.\<close>

definition ide_done :: "nat \<Rightarrow> 'a ide_scheme \<Rightarrow> 'a ide_scheme" where
  "ide_done i s =
     (let b = bufs s i;
          x = sector_of (b_dev b) (b_blockno b);
          s = (if b_flags b AND B_DIRTY = 0 \<and> \<not> ideerr s x
               then upd_buf i (\<lambda>b. b\<lparr>b_data := platter (disk0 s) (dwrites s) x\<rparr>) s else s);
          s = upd_buf i (\<lambda>b. b\<lparr>b_flags := b_flags b OR B_VALID\<rparr>) s;
          s = upd_buf i (\<lambda>b. b\<lparr>b_flags := b_flags b AND NOT B_DIRTY\<rparr>) s
      in wakeup (ChanBuf i) s)"

definition ideintr :: "'a ide_scheme \<Rightarrow> 'a ide_scheme res" where
  "ideintr s =
     (case idequeue s of
        [] \<Rightarrow> Inr s
      | i # q \<Rightarrow>
          let s = ide_done i (s\<lparr>idequeue := q\<rparr>)
          in if idequeue s \<noteq> [] then idestart (hd (idequeue s)) s else Inr s)"

text \<open>
  The sleep loop at the end of \<^verbatim>\<open>iderw\<close>: the process sleeps, the next disk interrupt runs
  \<^verbatim>\<open>ideintr\<close>, and the condition is tested again.  When no request is outstanding no
  interrupt comes and the process sleeps on.
\<close>

lemma idequeue_idestart: "idestart i s = Inr s' \<Longrightarrow> idequeue s' = idequeue s"
  by (auto simp: idestart_def Let_def split: if_splits)

lemma idequeue_wakeup [simp]: "idequeue (wakeup ch s) = idequeue s"
  by (simp add: wakeup_eq)

lemma idequeue_upd_buf [simp]: "idequeue (upd_buf i f s) = idequeue s"
  by (simp add: upd_buf_def)

lemma idequeue_ide_done [simp]: "idequeue (ide_done i s) = idequeue s"
  by (simp add: ide_done_def Let_def)

lemma idequeue_ideintr: "ideintr s = Inr s' \<Longrightarrow> idequeue s' = tl (idequeue s)"
  by (auto simp: ideintr_def Let_def split: list.splits if_splits dest: idequeue_idestart)

function ide_wait :: "nat \<Rightarrow> 'a ide_scheme \<Rightarrow> 'a ide_scheme res" where
  "ide_wait i s =
     (if b_flags (bufs s i) AND (B_VALID OR B_DIRTY) = B_VALID then Inr s
      else if idequeue s = [] then Inl (Asleep (ChanBuf i))
      else bindr (ideintr s) (\<lambda>s. ide_wait i s))"
  by pat_completeness auto
termination
  by (relation "measure (\<lambda>(i, s). length (idequeue s))") (auto simp: idequeue_ideintr)

declare ide_wait.simps [simp del]

definition iderw :: "nat \<Rightarrow> 'a ide_scheme \<Rightarrow> 'a ide_scheme res" where
  "iderw i s =
     (let b = bufs s i in
      if \<not> holdingsleep (b_lock b) s then Inl (Panic ''iderw: buf not locked'')
      else if b_flags b AND (B_VALID OR B_DIRTY) = B_VALID then Inl (Panic ''iderw: nothing to do'')
      else if b_dev b \<noteq> 0 \<and> \<not> havedisk1 s then Inl (Panic ''iderw: ide disk 1 not present'')
      else let s = s\<lparr>idequeue := idequeue s @ [i]\<rparr>
           in bindr (if hd (idequeue s) = i then idestart i s else Inr s) (\<lambda>s.
              ide_wait i s))"

section \<open>The memory disk\<close>

text \<open>\<open>disksize\<close> is the number of blocks of the image the linker put into the kernel.\<close>

definition memide_rw :: "uint \<Rightarrow> nat \<Rightarrow> 'a ide_scheme \<Rightarrow> 'a ide_scheme res" where
  "memide_rw disksize i s =
     (let b = bufs s i in
      if \<not> holdingsleep (b_lock b) s then Inl (Panic ''iderw: buf not locked'')
      else if b_flags b AND (B_VALID OR B_DIRTY) = B_VALID then Inl (Panic ''iderw: nothing to do'')
      else if b_dev b \<noteq> 1 then Inl (Panic ''iderw: request not for disk 1'')
      else if b_blockno b \<ge> disksize then Inl (Panic ''iderw: block out of range'')
      else let x = sector_of (b_dev b) (b_blockno b);
               s = (if b_flags b AND B_DIRTY \<noteq> 0
                    then (upd_buf i (\<lambda>b. b\<lparr>b_flags := b_flags b AND NOT B_DIRTY\<rparr>) s)
                           \<lparr>dwrites := (x, b_data b) # dwrites s\<rparr>
                    else upd_buf i (\<lambda>b. b\<lparr>b_data := platter (disk0 s) (dwrites s) x\<rparr>) s)
           in Inr (upd_buf i (\<lambda>b. b\<lparr>b_flags := b_flags b OR B_VALID\<rparr>) s))"

section \<open>The interface of the drivers\<close>

text \<open>
  What the buffer cache relies on.  \<open>ready s dev blockno\<close> says that the driver can serve the block
  at once.  A request for a buffer the process has locked fills it from the platter or, if it
  is dirty, appends its data to the writes; nothing else changes but the state of sleeping
  processes.
\<close>

locale disk_driver =
  fixes rw :: "nat \<Rightarrow> 'a ide_scheme \<Rightarrow> 'a ide_scheme res"
    and ready :: "'a ide_scheme \<Rightarrow> uint \<Rightarrow> uint \<Rightarrow> bool"
  assumes rw_read: "\<lbrakk>ready s (b_dev (bufs s i)) (b_blockno (bufs s i)); holdingsleep (b_lock (bufs s i)) s;
      \<not> is_valid (b_flags (bufs s i)); \<not> is_dirty (b_flags (bufs s i))\<rbrakk> \<Longrightarrow>
      \<exists>ps. same_procs (procs s) ps \<and>
        rw i s = Inr (s\<lparr>procs := ps, bufs := (bufs s)(i := (bufs s i)
          \<lparr>b_data := dread s (b_dev (bufs s i)) (b_blockno (bufs s i)),
           b_flags := (b_flags (bufs s i) OR B_VALID) AND NOT B_DIRTY\<rparr>)\<rparr>)"
    and rw_write: "\<lbrakk>ready s (b_dev (bufs s i)) (b_blockno (bufs s i)); holdingsleep (b_lock (bufs s i)) s;
      is_dirty (b_flags (bufs s i))\<rbrakk> \<Longrightarrow>
      \<exists>ps. same_procs (procs s) ps \<and>
        rw i s = Inr (s\<lparr>procs := ps, bufs := (bufs s)(i := (bufs s i)
          \<lparr>b_flags := (b_flags (bufs s i) OR B_VALID) AND NOT B_DIRTY\<rparr>),
          dwrites := (sector_of (b_dev (bufs s i)) (b_blockno (bufs s i)), b_data (bufs s i)) # dwrites s\<rparr>)"
    and ready_dwrites: "ready (s\<lparr>procs := ps, bufs := bs, dwrites := ws\<rparr>) = ready s"
begin

text \<open>A block that one buffer writes is what another buffer reads back.\<close>

lemma write_read:
  assumes "ready s (b_dev (bufs s i)) (b_blockno (bufs s i))"
    and "holdingsleep (b_lock (bufs s i)) s" "is_dirty (b_flags (bufs s i))"
    and "i \<noteq> j" "b_dev (bufs s j) = b_dev (bufs s i)" "b_blockno (bufs s j) = b_blockno (bufs s i)"
    and "holdingsleep (b_lock (bufs s j)) s" "\<not> is_valid (b_flags (bufs s j))" "\<not> is_dirty (b_flags (bufs s j))"
  shows "\<exists>s' s''. rw i s = Inr s' \<and> rw j s' = Inr s'' \<and> b_data (bufs s'' j) = b_data (bufs s i)"
proof -
  obtain ps where ps: "same_procs (procs s) ps" and 1: "rw i s = Inr (s\<lparr>procs := ps, bufs := (bufs s)(i := (bufs s i)
          \<lparr>b_flags := (b_flags (bufs s i) OR B_VALID) AND NOT B_DIRTY\<rparr>),
          dwrites := (sector_of (b_dev (bufs s i)) (b_blockno (bufs s i)), b_data (bufs s i)) # dwrites s\<rparr>)"
    (is "_ = Inr ?s") using rw_write assms by blast
  have "ready ?s (b_dev (bufs ?s j)) (b_blockno (bufs ?s j))" "holdingsleep (b_lock (bufs ?s j)) ?s"
    "\<not> is_valid (b_flags (bufs ?s j))" "\<not> is_dirty (b_flags (bufs ?s j))"
    using assms ps by (auto simp: ready_dwrites holdingsleep_def myproc_def same_procs_pid)
  then obtain s'' qs where "rw j ?s = Inr s''"
    "s'' = ?s\<lparr>procs := qs, bufs := (bufs ?s)(j := (bufs ?s j)
          \<lparr>b_data := dread ?s (b_dev (bufs ?s j)) (b_blockno (bufs ?s j)),
           b_flags := (b_flags (bufs ?s j) OR B_VALID) AND NOT B_DIRTY\<rparr>)\<rparr>"
    using rw_read by blast
  with 1 assms show ?thesis
    by (auto simp: dread_def)
qed

end

definition ide_ready :: "'a ide_scheme \<Rightarrow> uint \<Rightarrow> uint \<Rightarrow> bool" where
  "ide_ready s dev blockno \<longleftrightarrow> idequeue s = [] \<and> (dev = 0 \<or> havedisk1 s) \<and> blockno < of_nat FSSIZE \<and>
     \<not> ideerr s (sector_of dev blockno)"

definition memide_ready :: "uint \<Rightarrow> 'a ide_scheme \<Rightarrow> uint \<Rightarrow> uint \<Rightarrow> bool" where
  "memide_ready disksize s dev blockno \<longleftrightarrow> dev = 1 \<and> blockno < disksize"

lemma iderw_alone:
  assumes "ide_ready s (b_dev (bufs s i)) (b_blockno (bufs s i))" "holdingsleep (b_lock (bufs s i)) s"
    and "\<not> (is_valid (b_flags (bufs s i)) \<and> \<not> is_dirty (b_flags (bufs s i)))"
  shows "iderw i s = bindr (idestart i (s\<lparr>idequeue := [i]\<rparr>)) (\<lambda>s. bindr (ideintr s) (ide_wait i))"
  using assms by (auto simp: iderw_def ide_ready_def idestart_def ide_wait.simps Let_def)

interpretation idedrv: disk_driver iderw ide_ready
proof (unfold_locales, goal_cases)
  case (1 s i)
  then show ?case
    by (intro exI[of _ "woken (ChanBuf i) (procs s)"])
       (auto simp: iderw_alone ide_ready_def idestart_def ideintr_def ide_done_def upd_buf_def ide_wait.simps Let_def dread_def wakeup_eq)
next
  case (2 s i)
  then show ?case
    by (intro exI[of _ "woken (ChanBuf i) (procs s)"])
       (auto simp: iderw_alone ide_ready_def idestart_def ideintr_def ide_done_def upd_buf_def ide_wait.simps Let_def wakeup_eq)
qed (simp add: ide_ready_def fun_eq_iff)

interpretation memdrv: disk_driver "memide_rw disksize" "memide_ready disksize" for disksize
proof (unfold_locales, goal_cases)
  case (1 s i)
  then show ?case
    by (intro exI[of _ "procs s"]) (auto simp: memide_rw_def memide_ready_def upd_buf_def Let_def dread_def)
next
  case (2 s i)
  then show ?case
    by (intro exI[of _ "procs s"])
       (auto simp: memide_rw_def memide_ready_def upd_buf_def Let_def valid_dirty_commute)
qed (simp add: memide_ready_def fun_eq_iff)

text \<open>
  A request behind others in the queue is served as well: every interrupt takes one request off
  the queue, and the one that takes off \<open>i\<close> leaves it valid and clean.
\<close>

lemma ideintr_progress:
  assumes "idequeue s = j # q" "\<forall>k\<in>set q. b_blockno (bufs s k) < of_nat FSSIZE"
  obtains s' where "ideintr s = Inr s'" "idequeue s' = q" "\<And>k. b_blockno (bufs s' k) = b_blockno (bufs s k)"
    "is_valid (b_flags (bufs s' j))" "\<not> is_dirty (b_flags (bufs s' j))"
proof -
  let ?t = "ide_done j (s\<lparr>idequeue := q\<rparr>)"
  have t: "b_blockno (bufs ?t k) = b_blockno (bufs s k)" "is_valid (b_flags (bufs ?t j))"
    "\<not> is_dirty (b_flags (bufs ?t j))" for k
    by (simp_all add: ide_done_def upd_buf_def wakeup_eq Let_def)
  have "q = [] \<or> \<not> of_nat FSSIZE \<le> b_blockno (bufs ?t (hd q))"
    unfolding t not_le using assms by (cases q) auto
  then obtain s' where "ideintr s = Inr s'" "idequeue s' = q" "bufs s' = bufs ?t"
    using assms by (cases "q = []"; cases "is_dirty (b_flags (bufs ?t (hd q)))")
      (auto simp: ideintr_def idestart_def Let_def)
  with t show ?thesis
    using that by auto
qed

lemma ide_wait_returns:
  assumes "i \<in> set (idequeue s)" "\<forall>k\<in>set (idequeue s). b_blockno (bufs s k) < of_nat FSSIZE"
  shows "\<exists>s'. ide_wait i s = Inr s' \<and> is_valid (b_flags (bufs s' i)) \<and> \<not> is_dirty (b_flags (bufs s' i))"
  using assms
proof (induction "idequeue s" arbitrary: s)
  case (Cons j q)
  then obtain s' where s': "ideintr s = Inr s'" "idequeue s' = q"
    "\<And>k. b_blockno (bufs s' k) = b_blockno (bufs s k)"
    "is_valid (b_flags (bufs s' j))" "\<not> is_dirty (b_flags (bufs s' j))"
    by (metis ideintr_progress list.set_intros(2))
  show ?case
  proof (cases "i = j")
    case True
    with s' Cons.hyps show ?thesis
      by (subst ide_wait.simps) (auto simp: ide_wait.simps[of _ s'])
  next
    case False
    then have "\<exists>t. ide_wait i s' = Inr t \<and> is_valid (b_flags (bufs t i)) \<and> \<not> is_dirty (b_flags (bufs t i))"
      using Cons s' by (intro Cons.hyps) (auto simp flip: Cons.hyps(2))
    with s' Cons.hyps show ?thesis
      by (subst ide_wait.simps) auto
  qed
qed simp

end
