(* ===== verification/Bio.thy ===== *)
theory Bio
  imports Ide
begin

text \<open>
  The buffer cache, \<^verbatim>\<open>bio.c\<close>.  \<^verbatim>\<open>bcache.head\<close> is entry \<^verbatim>\<open>NBUF\<close> of the array,
  and the list through \<^verbatim>\<open>prev\<close> and \<^verbatim>\<open>next\<close> is the pointer structure of the code.
\<close>

section \<open>Operations\<close>

abbreviation at_buf :: "nat \<Rightarrow> (buf \<Rightarrow> buf) \<Rightarrow> (nat \<Rightarrow> buf) \<Rightarrow> nat \<Rightarrow> buf" where
  "at_buf i f bs \<equiv> bs(i := f (bs i))"

primrec binit_loop :: "nat \<Rightarrow> (nat \<Rightarrow> buf) \<Rightarrow> nat \<Rightarrow> buf" where
  "binit_loop 0 bs = bs"
| "binit_loop (Suc b) bs =
     (let bs = binit_loop b bs;
          bs = at_buf b (\<lambda>x. x\<lparr>b_next := b_next (bs NBUF)\<rparr>) bs;
          bs = at_buf b (\<lambda>x. x\<lparr>b_prev := NBUF\<rparr>) bs;
          bs = at_buf b (\<lambda>x. x\<lparr>b_lock := initsleeplock\<rparr>) bs;
          bs = at_buf (b_next (bs NBUF)) (\<lambda>x. x\<lparr>b_prev := b\<rparr>) bs
      in at_buf NBUF (\<lambda>x. x\<lparr>b_next := b\<rparr>) bs)"

definition binit :: "'a ide_scheme \<Rightarrow> 'a ide_scheme" where
  "binit s = s\<lparr>bufs := binit_loop NBUF ((bufs s)(NBUF := (bufs s NBUF)\<lparr>b_prev := NBUF, b_next := NBUF\<rparr>))\<rparr>"

text \<open>
  The two loops of \<^verbatim>\<open>bget\<close> walk the list by one of the pointers until the head comes round.
  The fuel is for a list that never comes back to the head.
\<close>

primrec walk :: "(buf \<Rightarrow> nat) \<Rightarrow> (buf \<Rightarrow> bool) \<Rightarrow> nat \<Rightarrow> nat \<Rightarrow> (nat \<Rightarrow> buf) \<Rightarrow> nat option res" where
  "walk sel P 0 b bs = Inl (Undefined ''bcache list'')"
| "walk sel P (Suc n) b bs =
     (if b = NBUF then Inr None
      else if P (bs b) then Inr (Some b)
      else walk sel P n (sel (bs b)) bs)"

definition lock_buf :: "nat \<Rightarrow> 'a ide_scheme \<Rightarrow> (nat \<times> 'a ide_scheme) res" where
  "lock_buf b s = bindr (acquiresleep (ChanBufLock b) (b_lock (bufs s b)) s) (\<lambda>lk.
     Inr (b, upd_buf b (\<lambda>x. x\<lparr>b_lock := lk\<rparr>) s))"

definition bget :: "uint \<Rightarrow> uint \<Rightarrow> 'a ide_scheme \<Rightarrow> (nat \<times> 'a ide_scheme) res" where
  "bget dev blockno s =
     bindr (walk b_next (\<lambda>b. b_dev b = dev \<and> b_blockno b = blockno) (Suc NBUF)
              (b_next (bufs s NBUF)) (bufs s)) (\<lambda>r. case r of
       Some b \<Rightarrow> lock_buf b (upd_buf b (\<lambda>x. x\<lparr>b_refcnt := b_refcnt x + 1\<rparr>) s)
     | None \<Rightarrow>
         bindr (walk b_prev (\<lambda>b. b_refcnt b = 0 \<and> b_flags b AND B_DIRTY = 0) (Suc NBUF)
                  (b_prev (bufs s NBUF)) (bufs s)) (\<lambda>r. case r of
           Some b \<Rightarrow> lock_buf b (upd_buf b (\<lambda>x. x\<lparr>b_dev := dev, b_blockno := blockno,
                                              b_flags := 0, b_refcnt := 1\<rparr>) s)
         | None \<Rightarrow> Inl (Panic ''bget: no buffers'')))"

definition bread :: "uint \<Rightarrow> uint \<Rightarrow> 'a ide_scheme \<Rightarrow> (nat \<times> 'a ide_scheme) res" where
  "bread dev blockno s =
     bindr (bget dev blockno s) (\<lambda>(b, s).
       if b_flags (bufs s b) AND B_VALID = 0 then bindr (iderw b s) (\<lambda>s. Inr (b, s)) else Inr (b, s))"

definition bwrite :: "nat \<Rightarrow> 'a ide_scheme \<Rightarrow> 'a ide_scheme res" where
  "bwrite b s =
     (if \<not> holdingsleep (b_lock (bufs s b)) s then Inl (Panic ''bwrite'')
      else iderw b (upd_buf b (\<lambda>x. x\<lparr>b_flags := b_flags x OR B_DIRTY\<rparr>) s))"

definition unlink :: "nat \<Rightarrow> (nat \<Rightarrow> buf) \<Rightarrow> nat \<Rightarrow> buf" where
  "unlink b bs =
     (let bs = at_buf (b_next (bs b)) (\<lambda>x. x\<lparr>b_prev := b_prev (bs b)\<rparr>) bs
      in at_buf (b_prev (bs b)) (\<lambda>x. x\<lparr>b_next := b_next (bs b)\<rparr>) bs)"

definition push_front :: "nat \<Rightarrow> (nat \<Rightarrow> buf) \<Rightarrow> nat \<Rightarrow> buf" where
  "push_front b bs =
     (let bs = at_buf b (\<lambda>x. x\<lparr>b_next := b_next (bs NBUF)\<rparr>) bs;
          bs = at_buf b (\<lambda>x. x\<lparr>b_prev := NBUF\<rparr>) bs;
          bs = at_buf (b_next (bs NBUF)) (\<lambda>x. x\<lparr>b_prev := b\<rparr>) bs
      in at_buf NBUF (\<lambda>x. x\<lparr>b_next := b\<rparr>) bs)"

definition brelse :: "nat \<Rightarrow> 'a ide_scheme \<Rightarrow> 'a ide_scheme res" where
  "brelse b s =
     (if \<not> holdingsleep (b_lock (bufs s b)) s then Inl (Panic ''brelse'')
      else let (lk, s) = releasesleep (ChanBufLock b) (b_lock (bufs s b)) s;
               s = upd_buf b (\<lambda>x. x\<lparr>b_lock := lk\<rparr>) s;
               s = upd_buf b (\<lambda>x. x\<lparr>b_refcnt := b_refcnt x - 1\<rparr>) s
           in Inr (if b_refcnt (bufs s b) = 0 then s\<lparr>bufs := push_front b (unlink b (bufs s))\<rparr> else s))"

section \<open>The list of buffers\<close>

fun linked :: "(nat \<Rightarrow> buf) \<Rightarrow> nat list \<Rightarrow> bool" where
  "linked bs (a # b # r) \<longleftrightarrow> b_next (bs a) = b \<and> b_prev (bs b) = a \<and> linked bs (b # r)"
| "linked bs _ \<longleftrightarrow> True"

definition mru :: "(nat \<Rightarrow> buf) \<Rightarrow> nat list \<Rightarrow> bool" where
  "mru bs xs \<longleftrightarrow> distinct xs \<and> set xs = {..<NBUF} \<and> linked bs (NBUF # xs @ [NBUF])"

lemma linked_append: "linked bs (xs @ a # ys) \<longleftrightarrow> linked bs (xs @ [a]) \<and> linked bs (a # ys)"
  by (induction bs xs rule: linked.induct) (auto simp: neq_Nil_conv)

lemma linked_cong:
  "\<lbrakk>\<And>x. x \<in> set (butlast zs) \<Longrightarrow> b_next (bs' x) = b_next (bs x);
    \<And>x. x \<in> set (tl zs) \<Longrightarrow> b_prev (bs' x) = b_prev (bs x)\<rbrakk> \<Longrightarrow> linked bs' zs = linked bs zs"
proof (induction bs zs rule: linked.induct)
  case (1 bs a b r)
  have "linked bs' (b # r) = linked bs (b # r)"
    using "1.prems" by (intro "1.IH") (auto dest: list.set_sel(2)[rotated])
  with "1.prems" show ?case by simp
qed auto

lemma walk_next:
  "\<lbrakk>linked bs (ys @ [NBUF]); NBUF \<notin> set ys; length ys < n\<rbrakk> \<Longrightarrow>
   walk b_next P n (hd (ys @ [NBUF])) bs = Inr (List.find (\<lambda>i. P (bs i)) ys)"
proof (induction ys arbitrary: n)
  case Nil
  then show ?case by (cases n) auto
next
  case (Cons y ys)
  then obtain k where "n = Suc k" by (cases n) auto
  moreover have "b_next (bs y) = hd (ys @ [NBUF])" "linked bs (ys @ [NBUF])"
    using Cons.prems(1) by (cases ys; simp)+
  ultimately show ?case using Cons by simp
qed

lemma walk_prev:
  "\<lbrakk>linked bs (NBUF # ys); NBUF \<notin> set ys; length ys < n\<rbrakk> \<Longrightarrow>
   walk b_prev P n (last (NBUF # ys)) bs = Inr (List.find (\<lambda>i. P (bs i)) (rev ys))"
proof (induction ys arbitrary: n rule: rev_induct)
  case Nil
  then show ?case by (cases n) auto
next
  case (snoc y ys)
  then obtain k where "n = Suc k" by (cases n) auto
  moreover have "linked bs (NBUF # ys)" "b_prev (bs y) = last (NBUF # ys)"
    using snoc.prems(1) linked_append[of bs "NBUF # butlast ys" "last ys" "[y]"]
    by (cases ys rule: rev_cases; simp)+
  ultimately show ?case using snoc by simp
qed

lemma linked_unlink:
  assumes "distinct (H # us @ b # vs)" and "linked bs (H # us @ b # vs @ [H])"
    and bs': "bs' = at_buf (b_prev (bs b)) (\<lambda>x. x\<lparr>b_next := b_next (bs b)\<rparr>)
                   (at_buf (b_next (bs b)) (\<lambda>x. x\<lparr>b_prev := b_prev (bs b)\<rparr>) bs)"
  shows "linked bs' (H # us @ vs @ [H])"
proof -
  obtain us' p where p: "H # us = us' @ [p]" by (metis list.distinct(1) rev_exhaust)
  obtain n vs' where n: "vs @ [H] = n # vs'" by (cases "vs @ [H]") auto
  have "linked bs (us' @ p # b # n # vs')"
    using assms(2) p n by (metis append.assoc append_Cons append_Nil)
  then have l: "linked bs (us' @ [p])" "b_next (bs b) = n" "b_prev (bs b) = p" "linked bs (n # vs')"
    using linked_append[of bs us' p "b # n # vs'"] linked_append[of bs "us' @ [p]" b "n # vs'"] by simp_all
  have "distinct (us' @ [p])" "distinct (n # vs')"
    unfolding p[symmetric] n[symmetric] using assms(1) by auto
  moreover have "tl (us' @ [p]) = us" "butlast (n # vs') = vs"
    unfolding p[symmetric] n[symmetric] by simp_all
  moreover have "p \<in> set (H # us)" "n \<in> set (vs @ [H])"
    unfolding p n by simp_all
  ultimately have "linked bs' (us' @ [p]) = linked bs (us' @ [p])" "linked bs' (n # vs') = linked bs (n # vs')"
    using assms(1) by (intro linked_cong; auto simp: bs' l)+
  moreover have "b_next (bs' p) = n" "b_prev (bs' n) = p"
    by (auto simp: bs' l)
  ultimately have "linked bs' (us' @ p # n # vs')"
    using l linked_append[of bs' us' p "n # vs'"] by simp
  then show ?thesis
    using p n by (metis append.assoc append_Cons append_Nil)
qed

lemma linked_push:
  assumes "distinct (H # b # xs)" and "linked bs (H # xs @ [H])"
    and "bs' = at_buf (b_next (bs H)) (\<lambda>x. x\<lparr>b_prev := b\<rparr>)
                (bs(b := (bs b)\<lparr>b_next := b_next (bs H), b_prev := H\<rparr>))"
  shows "linked (at_buf H (\<lambda>x. x\<lparr>b_next := b\<rparr>) bs') (H # b # xs @ [H])" (is "linked ?bs _")
proof -
  obtain n ys where n: "xs @ [H] = n # ys" by (cases "xs @ [H]") auto
  then have l: "b_next (bs H) = n" "linked bs (n # ys)"
    using assms(2) by simp_all
  have "n \<in> set (xs @ [H])"
    unfolding n by simp
  then have "n \<noteq> b"
    using assms(1) by auto
  have "distinct (n # ys)"
    unfolding n[symmetric] using assms(1) by simp
  moreover have "butlast (n # ys) = xs"
    unfolding n[symmetric] by simp
  moreover have "set (n # ys) = insert H (set xs)"
    unfolding n[symmetric] by simp
  ultimately have "linked ?bs (n # ys) = linked bs (n # ys)"
    using assms(1) \<open>n \<noteq> b\<close> by (intro linked_cong) (auto simp: assms(3) l)
  then show ?thesis
    using assms(1) l n \<open>n \<noteq> b\<close> by (auto simp: assms(3))
qed

lemma unlink_eq:
  assumes "b_next (bs b) \<noteq> b"
  shows "unlink b bs = at_buf (b_prev (bs b)) (\<lambda>x. x\<lparr>b_next := b_next (bs b)\<rparr>)
           (at_buf (b_next (bs b)) (\<lambda>x. x\<lparr>b_prev := b_prev (bs b)\<rparr>) bs)"
  using assms by (simp add: unlink_def Let_def)

lemma push_front_eq:
  assumes "b \<noteq> NBUF"
  shows "push_front b bs = at_buf NBUF (\<lambda>x. x\<lparr>b_next := b\<rparr>) (at_buf (b_next (bs NBUF)) (\<lambda>x. x\<lparr>b_prev := b\<rparr>)
                (bs(b := (bs b)\<lparr>b_next := b_next (bs NBUF), b_prev := NBUF\<rparr>)))"
  using assms by (simp add: push_front_def Let_def)

lemma linked_ends:
  assumes "linked bs (H # us @ b # vs @ [H])"
  shows "b_next (bs b) \<in> set (vs @ [H])" and "b_prev (bs b) \<in> set (H # us)"
proof -
  have *: "linked bs (H # us @ [b])" "linked bs (b # vs @ [H])"
    using assms linked_append[of bs "H # us" b "vs @ [H]"] by simp_all
  from *(2) show "b_next (bs b) \<in> set (vs @ [H])"
    by (cases vs) auto
  from *(1) show "b_prev (bs b) \<in> set (H # us)"
    using linked_append[of bs "H # butlast us" "last us" "[b]"] by (cases us rule: rev_cases) auto
qed

lemma linked_move_front:
  assumes "distinct (NBUF # us @ b # vs)" and "linked bs (NBUF # us @ b # vs @ [NBUF])"
  shows "linked (push_front b (unlink b bs)) (NBUF # b # us @ vs @ [NBUF])"
proof -
  have "b_next (bs b) \<noteq> b"
    using linked_ends(1)[OF assms(2)] assms(1) by auto
  then have "linked (unlink b bs) (NBUF # (us @ vs) @ [NBUF])"
    using linked_unlink[OF assms unlink_eq] by simp
  from linked_push[OF _ this refl, of b] show ?thesis
    using assms(1) push_front_eq[of b "unlink b bs"] by simp
qed

lemma list_fields [simp]:
  "b_flags (unlink b bs i) = b_flags (bs i)" "b_flags (push_front b bs i) = b_flags (bs i)"
  "b_dev (unlink b bs i) = b_dev (bs i)" "b_dev (push_front b bs i) = b_dev (bs i)"
  "b_blockno (unlink b bs i) = b_blockno (bs i)" "b_blockno (push_front b bs i) = b_blockno (bs i)"
  "b_lock (unlink b bs i) = b_lock (bs i)" "b_lock (push_front b bs i) = b_lock (bs i)"
  "b_refcnt (unlink b bs i) = b_refcnt (bs i)" "b_refcnt (push_front b bs i) = b_refcnt (bs i)"
  "b_data (unlink b bs i) = b_data (bs i)" "b_data (push_front b bs i) = b_data (bs i)"
  by (simp_all add: unlink_def push_front_def Let_def)

lemma mru_move_front:
  assumes "mru bs xs" and "b < NBUF"
  shows "mru (push_front b (unlink b bs)) (b # remove1 b xs)"
proof -
  obtain us vs where xs: "xs = us @ b # vs"
    using assms split_list[of b xs] by (auto simp: mru_def)
  then have "b \<notin> set us" and d: "distinct (NBUF # us @ b # vs)"
    using assms by (auto simp: mru_def)
  then show ?thesis
    using assms xs linked_move_front[OF d, of bs] by (auto simp: mru_def remove1_append)
qed

lemma binit_loop_step:
  assumes "b < NBUF"
  shows "binit_loop (Suc b) bs = push_front b (at_buf b (\<lambda>x. x\<lparr>b_lock := initsleeplock\<rparr>) (binit_loop b bs))"
  using assms by (auto simp: push_front_def Let_def fun_eq_iff)

lemma binit_loop_linked:
  assumes "linked bs [NBUF, NBUF]" and "b \<le> NBUF"
  shows "linked (binit_loop b bs) (NBUF # rev [0..<b] @ [NBUF])"
  using assms(2)
proof (induction b)
  case 0
  then show ?case using assms(1) by simp
next
  case (Suc b)
  let ?bs = "at_buf b (\<lambda>x. x\<lparr>b_lock := initsleeplock\<rparr>) (binit_loop b bs)"
  have "linked ?bs (NBUF # rev [0..<b] @ [NBUF]) = linked (binit_loop b bs) (NBUF # rev [0..<b] @ [NBUF])"
    by (rule linked_cong) simp_all
  with Suc have "linked ?bs (NBUF # rev [0..<b] @ [NBUF])"
    by simp
  then have "linked (push_front b ?bs) (NBUF # b # rev [0..<b] @ [NBUF])"
    using Suc.prems linked_push[of NBUF b "rev [0..<b]" ?bs] push_front_eq[of b ?bs] by simp
  then show ?case
    using Suc.prems binit_loop_step[of b bs] by simp
qed

lemma mru_binit: "mru (bufs (binit s)) (rev [0..<NBUF])"
  unfolding mru_def binit_def by (auto intro!: binit_loop_linked[of _ NBUF, simplified])

lemma binit_loop_fields:
  assumes "b \<le> NBUF" and "i < NBUF"
  shows "b_lock (binit_loop b bs i) = (if i < b then initsleeplock else b_lock (bs i))"
    "b_flags (binit_loop b bs i) = b_flags (bs i)" "b_dev (binit_loop b bs i) = b_dev (bs i)"
    "b_blockno (binit_loop b bs i) = b_blockno (bs i)" "b_refcnt (binit_loop b bs i) = b_refcnt (bs i)"
  using assms by (induction b) (auto simp: binit_loop_step simp del: binit_loop.simps(2))

section \<open>The contents of the cache\<close>

text \<open>
  Buffers that are locked, buffers that \<^verbatim>\<open>bget\<close> may recycle, and the blocks with a dirty buffer.
  \<open>view s dev blockno\<close> is the block as the kernel sees it: the cached copy if there is a valid one,
  the disk otherwise.
\<close>

definition locked :: "'a ide_scheme \<Rightarrow> nat set" where
  "locked s = {i. i < NBUF \<and> sl_locked (b_lock (bufs s i))}"

definition avail :: "'a ide_scheme \<Rightarrow> nat set" where
  "avail s = {i. i < NBUF \<and> b_refcnt (bufs s i) = 0 \<and> \<not> is_dirty (b_flags (bufs s i))}"

definition holds :: "'a ide_scheme \<Rightarrow> nat \<Rightarrow> uint \<Rightarrow> uint \<Rightarrow> bool" where
  "holds s i dev blockno \<longleftrightarrow> i < NBUF \<and> b_dev (bufs s i) = dev \<and> b_blockno (bufs s i) = blockno"

definition view :: "'a ide_scheme \<Rightarrow> uint \<Rightarrow> uint \<Rightarrow> block" where
  "view s dev blockno =
     (case List.find (\<lambda>i. holds s i dev blockno \<and> is_valid (b_flags (bufs s i))) [0..<NBUF] of
        Some i \<Rightarrow> b_data (bufs s i)
      | None \<Rightarrow> dread s dev blockno)"

definition dirtied :: "'a ide_scheme \<Rightarrow> sector set" where
  "dirtied s = (\<lambda>i. (b_dev (bufs s i), b_blockno (bufs s i))) ` {i. i < NBUF \<and> is_dirty (b_flags (bufs s i))}"

text \<open>
  The invariant between the operations of a process when no other process waits for a buffer.
  Before \<^verbatim>\<open>bget\<close> first uses a buffer it is marked as block 0 of device 0 and is not valid; for
  every other block there is at most one buffer.  A buffer no one has locked and that is not dirty
  is a copy of the disk.
\<close>

definition buf_ok :: "'a ide_scheme \<Rightarrow> nat \<Rightarrow> bool" where
  "buf_ok s i \<longleftrightarrow>
     (let b = bufs s i in
      b_refcnt b = (if sl_locked (b_lock b) then 1 else 0) \<and> b_dev b \<le> 1 \<and>
      (is_dirty (b_flags b) \<longrightarrow> is_valid (b_flags b)) \<and>
      (is_valid (b_flags b) \<longrightarrow> (b_dev b, b_blockno b) \<noteq> (0, 0)) \<and>
      (sl_locked (b_lock b) \<longrightarrow> is_valid (b_flags b)) \<and>
      (is_valid (b_flags b) \<and> \<not> is_dirty (b_flags b) \<and> \<not> sl_locked (b_lock b) \<longrightarrow>
         b_data b = dread s (b_dev b) (b_blockno b)))"

definition bio_inv :: "'a ide_scheme \<Rightarrow> bool" where
  "bio_inv s \<longleftrightarrow> (\<exists>xs. mru (bufs s) xs) \<and> idequeue s = [] \<and> (\<forall>i<NBUF. buf_ok s i) \<and>
     (\<forall>i j d b. holds s i d b \<longrightarrow> holds s j d b \<longrightarrow> (d, b) \<noteq> (0, 0) \<longrightarrow> i = j)"

lemma bio_invI:
  "\<lbrakk>mru (bufs s) xs; idequeue s = []; \<And>i. i < NBUF \<Longrightarrow> buf_ok s i;
    \<And>i j d b. holds s i d b \<Longrightarrow> holds s j d b \<Longrightarrow> (d, b) \<noteq> (0, 0) \<Longrightarrow> i = j\<rbrakk> \<Longrightarrow> bio_inv s"
  unfolding bio_inv_def by blast

lemma bio_inv_mru: "bio_inv s \<Longrightarrow> \<exists>xs. mru (bufs s) xs" and bio_inv_queue: "bio_inv s \<Longrightarrow> idequeue s = []"
  unfolding bio_inv_def by blast+

lemma bio_inv_ok: "bio_inv s \<Longrightarrow> i < NBUF \<Longrightarrow> buf_ok s i"
  unfolding bio_inv_def by blast

lemma holds_unique: "bio_inv s \<Longrightarrow> holds s i d b \<Longrightarrow> holds s j d b \<Longrightarrow> (d, b) \<noteq> (0, 0) \<Longrightarrow> i = j"
  unfolding bio_inv_def by blast

lemma find_unique:
  assumes "x \<in> set xs" "P x" "\<And>y. y \<in> set xs \<Longrightarrow> P y \<Longrightarrow> y = x"
  shows "List.find P xs = Some x"
proof (cases "List.find P xs")
  case None
  then show ?thesis using assms(1,2) by (auto simp: find_None_iff)
next
  case (Some y)
  then have "y \<in> set xs" "P y" by (auto simp: find_Some_iff)
  with Some assms(3) show ?thesis by simp
qed

lemma valid_key: "bio_inv s \<Longrightarrow> holds s i d b \<Longrightarrow> is_valid (b_flags (bufs s i)) \<Longrightarrow> (d, b) \<noteq> (0, 0)"
  using bio_inv_ok[of s i] by (auto simp: buf_ok_def holds_def Let_def)

lemma view_cached:
  assumes "bio_inv s" "holds s i d b" "is_valid (b_flags (bufs s i))"
  shows "view s d b = b_data (bufs s i)"
proof -
  note ne = valid_key[OF assms]
  have "List.find (\<lambda>i. holds s i d b \<and> is_valid (b_flags (bufs s i))) [0..<NBUF] = Some i"
    using assms holds_unique[OF assms(1) _ _ ne] by (intro find_unique) (auto simp: holds_def)
  then show ?thesis
    by (simp add: view_def)
qed

lemma view_uncached: "(\<And>i. holds s i d b \<Longrightarrow> \<not> is_valid (b_flags (bufs s i))) \<Longrightarrow> view s d b = dread s d b"
  unfolding view_def by (auto simp: find_None_iff split: option.splits) (auto simp: find_Some_iff)

text \<open>What the operations leave alone: everything but the buffers, the disk and who is runnable.\<close>

definition bframe :: "'a ide_scheme \<Rightarrow> 'a ide_scheme \<Rightarrow> bool" where
  "bframe s s' \<longleftrightarrow> (\<exists>ps bs ws. same_procs (procs s) ps \<and> s' = s\<lparr>procs := ps, bufs := bs, dwrites := ws\<rparr>)"

lemma bframeI: "same_procs (procs s) ps \<Longrightarrow> bframe s (s\<lparr>procs := ps, bufs := bs, dwrites := ws\<rparr>)"
  by (auto simp: bframe_def)

lemma bframe_trans [trans]: "bframe s t \<Longrightarrow> bframe t u \<Longrightarrow> bframe s u"
  by (auto simp: bframe_def[of s t] bframe_def[of t u] intro!: bframeI intro: same_procs_trans)

lemma bframe_refl [simp, intro]: "bframe s s"
  using bframeI[where s = s and ps = "procs s" and bs = "bufs s" and ws = "dwrites s"] by simp

lemma bframe_upd_buf [simp]: "bframe s (upd_buf i f s)"
  using bframeI[where s = s and ps = "procs s" and ws = "dwrites s"] by (simp add: upd_buf_def)

lemma bframe_same:
  assumes "bframe s s'"
  shows "cur s' = cur s" "disk0 s' = disk0 s" "havedisk1 s' = havedisk1 s" "ideerr s' = ideerr s"
    "idequeue s' = idequeue s" "ide.more s' = ide.more s" "mem s' = mem s" "freelist s' = freelist s"
    "holdingsleep lk s' = holdingsleep lk s" "p_pid (myproc s') = p_pid (myproc s)"
proof -
  obtain ps bs ws where eq: "s' = s\<lparr>procs := ps, bufs := bs, dwrites := ws\<rparr>" and sp: "same_procs (procs s) ps"
    using assms by (auto simp: bframe_def)
  show *: "cur s' = cur s" "disk0 s' = disk0 s" "havedisk1 s' = havedisk1 s" "ideerr s' = ideerr s"
    "idequeue s' = idequeue s" "ide.more s' = ide.more s" "mem s' = mem s" "freelist s' = freelist s"
    by (simp_all add: eq)
  show pid: "p_pid (myproc s') = p_pid (myproc s)"
    by (simp add: myproc_def eq same_procs_pid[OF sp])
  show "holdingsleep lk s' = holdingsleep lk s"
    by (simp add: holdingsleep_def pid)
qed

section \<open>Reading a block\<close>

lemma dread_cong: "disk0 s' = disk0 s \<Longrightarrow> dwrites s' = dwrites s \<Longrightarrow> dread s' = dread s"
  by (intro ext) (simp add: dread_def)

text \<open>\<open>can_read\<close>: \<^verbatim>\<open>bread\<close> of this block neither sleeps nor panics.\<close>

definition drive_ok :: "'a ide_scheme \<Rightarrow> uint \<Rightarrow> uint \<Rightarrow> bool" where
  "drive_ok s dev blockno \<longleftrightarrow> dev \<le> 1 \<and> (dev, blockno) \<noteq> (0, 0) \<and> (dev = 0 \<or> havedisk1 s) \<and>
     blockno < of_nat FSSIZE \<and> \<not> ideerr s (sector_of dev blockno)"

definition can_read :: "'a ide_scheme \<Rightarrow> uint \<Rightarrow> uint \<Rightarrow> bool" where
  "can_read s dev blockno \<longleftrightarrow> drive_ok s dev blockno \<and> (\<forall>i. holds s i dev blockno \<longrightarrow> i \<notin> locked s) \<and>
     ((\<exists>i. holds s i dev blockno) \<or> avail s \<noteq> {})"

text \<open>\<^verbatim>\<open>bget\<close> as a search in the list the pointers represent.\<close>

lemma bget_eq:
  assumes "mru (bufs s) xs"
  shows "bget dev blockno s =
    (case List.find (\<lambda>i. holds s i dev blockno) xs of
       Some b \<Rightarrow> lock_buf b (upd_buf b (\<lambda>x. x\<lparr>b_refcnt := b_refcnt x + 1\<rparr>) s)
     | None \<Rightarrow> (case List.find (\<lambda>i. i \<in> avail s) (rev xs) of
         Some b \<Rightarrow> lock_buf b (upd_buf b (\<lambda>x. x\<lparr>b_dev := dev, b_blockno := blockno,
                                            b_flags := 0, b_refcnt := 1\<rparr>) s)
       | None \<Rightarrow> Inl (Panic ''bget: no buffers'')))"
proof -
  let ?P = "\<lambda>b. b_dev b = dev \<and> b_blockno b = blockno"
  let ?Q = "\<lambda>b. b_refcnt b = 0 \<and> b_flags b AND B_DIRTY = 0"
  have xs: "linked (bufs s) (NBUF # xs @ [NBUF])" "NBUF \<notin> set xs" "length xs = NBUF" "set xs = {..<NBUF}"
    using assms distinct_card[of xs] by (auto simp: mru_def)
  have 1: "b_next (bufs s NBUF) = hd (xs @ [NBUF])" "linked (bufs s) (xs @ [NBUF])"
    using xs(1) by (cases xs; simp)+
  have 2: "linked (bufs s) (NBUF # xs)" "b_prev (bufs s NBUF) = last (NBUF # xs)"
    using xs(1) linked_append[of "bufs s" "NBUF # butlast xs" "last xs" "[NBUF]"]
    by (cases xs rule: rev_cases; simp)+
  have "walk b_next ?P (Suc NBUF) (b_next (bufs s NBUF)) (bufs s) = Inr (List.find (\<lambda>i. ?P (bufs s i)) xs)"
    unfolding 1(1) using 1(2) xs by (intro walk_next) auto
  moreover have "List.find (\<lambda>i. ?P (bufs s i)) xs = List.find (\<lambda>i. holds s i dev blockno) xs"
    using xs by (intro find_cong) (auto simp: holds_def)
  moreover have "walk b_prev ?Q (Suc NBUF) (b_prev (bufs s NBUF)) (bufs s) = Inr (List.find (\<lambda>i. ?Q (bufs s i)) (rev xs))"
    unfolding 2(2) using 2(1) xs by (intro walk_prev) auto
  moreover have "List.find (\<lambda>i. ?Q (bufs s i)) (rev xs) = List.find (\<lambda>i. i \<in> avail s) (rev xs)"
    using xs by (intro find_cong) (auto simp: avail_def)
  ultimately show ?thesis
    by (simp only: bget_def bindr_Inr cong: option.case_cong)
qed

definition taken :: "'a ide_scheme \<Rightarrow> uint \<Rightarrow> uint \<Rightarrow> nat \<Rightarrow> buf \<Rightarrow> bool" where
  "taken s dev blockno i b \<longleftrightarrow> i < NBUF \<and> i \<notin> locked s \<and>
     (holds s i dev blockno \<or> (\<forall>j. \<not> holds s j dev blockno) \<and> i \<in> avail s) \<and>
     b_dev b = dev \<and> b_blockno b = blockno \<and> b_refcnt b = 1 \<and>
     b_lock b = \<lparr>sl_locked = True, sl_pid = p_pid (myproc s)\<rparr> \<and>
     is_dirty (b_flags b) = is_dirty (b_flags (bufs s i)) \<and>
     b_next b = b_next (bufs s i) \<and> b_prev b = b_prev (bufs s i)"

lemma sleeplock_upd [simp]: "lk\<lparr>sl_locked := l, sl_pid := p\<rparr> = \<lparr>sl_locked = l, sl_pid = p\<rparr>"
  for lk :: sleeplock
  by (cases lk) simp

lemma bget_ok:
  assumes "bio_inv s" "can_read s dev blockno"
  obtains i b where "bget dev blockno s = Inr (i, s\<lparr>bufs := (bufs s)(i := b)\<rparr>)"
    "taken s dev blockno i b" "b_data b = b_data (bufs s i)"
    "is_valid (b_flags b) = (holds s i dev blockno \<and> is_valid (b_flags (bufs s i)))"
proof -
  obtain xs where xs: "mru (bufs s) xs" "set xs = {..<NBUF}"
    using assms(1) by (auto simp: bio_inv_def mru_def)
  note ok = bio_inv_ok[OF assms(1)]
  show ?thesis
  proof (cases "List.find (\<lambda>i. holds s i dev blockno) xs")
    case None
    then have none: "\<forall>j. \<not> holds s j dev blockno"
      using xs by (auto simp: find_None_iff holds_def)
    then have "avail s \<noteq> {}"
      using assms(2) by (auto simp: can_read_def)
    then obtain i where i: "List.find (\<lambda>i. i \<in> avail s) (rev xs) = Some i"
      using xs by (cases "List.find (\<lambda>i. i \<in> avail s) (rev xs)") (auto simp: find_None_iff avail_def)
    then have "i \<in> avail s"
      by (auto simp: find_Some_iff)
    moreover from this have "i < NBUF" "\<not> sl_locked (b_lock (bufs s i))"
      using ok[of i] by (auto simp: avail_def buf_ok_def Let_def split: if_splits)
    ultimately show ?thesis
      using None i none xs(1)
      by (intro that[of i "(bufs s i)\<lparr>b_dev := dev, b_blockno := blockno, b_flags := 0, b_refcnt := 1,
            b_lock := \<lparr>sl_locked = True, sl_pid = p_pid (myproc s)\<rparr>\<rparr>"])
         (auto simp: bget_eq lock_buf_def acquiresleep_def upd_buf_def myproc_def taken_def locked_def avail_def)
  next
    case (Some i)
    then have h: "holds s i dev blockno"
      by (auto simp: find_Some_iff)
    then have "i < NBUF" "\<not> sl_locked (b_lock (bufs s i))"
      using assms(2) by (auto simp: can_read_def holds_def locked_def)
    moreover from this have "b_refcnt (bufs s i) = 0" "is_dirty (b_flags (bufs s i)) \<longrightarrow> is_valid (b_flags (bufs s i))"
      using ok[of i] by (auto simp: buf_ok_def Let_def)
    ultimately show ?thesis
      using Some h xs(1)
      by (intro that[of i "(bufs s i)\<lparr>b_refcnt := 1,
            b_lock := \<lparr>sl_locked = True, sl_pid = p_pid (myproc s)\<rparr>\<rparr>"])
         (auto simp: bget_eq lock_buf_def acquiresleep_def upd_buf_def myproc_def taken_def locked_def holds_def)
  qed
qed

lemma bread_eq:
  assumes "bio_inv s" "can_read s dev blockno"
  obtains i b ps where "bread dev blockno s = Inr (i, s\<lparr>procs := ps, bufs := (bufs s)(i := b)\<rparr>)"
    "same_procs (procs s) ps" "taken s dev blockno i b" "is_valid (b_flags b)" "b_data b = view s dev blockno"
proof -
  obtain i b where get: "bget dev blockno s = Inr (i, s\<lparr>bufs := (bufs s)(i := b)\<rparr>)"
    and b: "taken s dev blockno i b" "b_data b = b_data (bufs s i)"
      "is_valid (b_flags b) = (holds s i dev blockno \<and> is_valid (b_flags (bufs s i)))"
    using bget_ok[OF assms] .
  show ?thesis
  proof (cases "is_valid (b_flags b)")
    case True
    with b show ?thesis
      using view_cached[OF assms(1), of i dev blockno]
      by (intro that[where i = i and b = b and ps = "procs s"]) (auto simp: bread_def get)
  next
    case False
    let ?s = "s\<lparr>bufs := (bufs s)(i := b)\<rparr>"
    have "view s dev blockno = dread s dev blockno"
    proof (rule view_uncached)
      fix j assume j: "holds s j dev blockno"
      moreover have "(dev, blockno) \<noteq> (0, 0)"
        using assms(2) by (simp add: can_read_def drive_ok_def)
      ultimately have "holds s i dev blockno \<Longrightarrow> j = i"
        using holds_unique[OF assms(1)] by blast
      with b j False show "\<not> is_valid (b_flags (bufs s j))"
        by (auto simp: taken_def)
    qed
    moreover have "dread ?s = dread s"
      by (rule dread_cong) simp_all
    moreover have "is_dirty (b_flags b) = False"
      using b False bio_inv_ok[OF assms(1), of i] by (auto simp: taken_def buf_ok_def avail_def holds_def Let_def)
    moreover have "ide_ready ?s (b_dev b) (b_blockno b)"
      using assms b(1) by (auto simp: ide_ready_def can_read_def drive_ok_def bio_inv_def taken_def)
    moreover have "holdingsleep (b_lock b) ?s"
      using b(1) by (simp add: holdingsleep_def taken_def myproc_def)
    ultimately obtain ps where ps: "same_procs (procs s) ps" "iderw i ?s = Inr (?s\<lparr>procs := ps, bufs := (bufs ?s)(i := b
          \<lparr>b_data := dread s (b_dev b) (b_blockno b), b_flags := (b_flags b OR B_VALID) AND NOT B_DIRTY\<rparr>)\<rparr>)"
      using idedrv.rw_read[of ?s i] False by auto
    with b(1) False \<open>view s dev blockno = _\<close> \<open>is_dirty (b_flags b) = False\<close> show ?thesis
      by (intro that[where i = i and ps = ps and b = "b\<lparr>b_data := dread s (b_dev b) (b_blockno b),
            b_flags := (b_flags b OR B_VALID) AND NOT B_DIRTY\<rparr>"])
         (auto simp: bread_def get taken_def)
  qed
qed

lemma view_cong:
  assumes "\<And>i. i < NBUF \<Longrightarrow> b_dev (bufs s' i) = b_dev (bufs s i) \<and> b_blockno (bufs s' i) = b_blockno (bufs s i) \<and>
      is_valid (b_flags (bufs s' i)) = is_valid (b_flags (bufs s i)) \<and> b_data (bufs s' i) = b_data (bufs s i)"
    and "dread s' = dread s"
  shows "view s' = view s"
proof -
  have "List.find (\<lambda>i. holds s' i d b \<and> is_valid (b_flags (bufs s' i))) [0..<NBUF]
      = List.find (\<lambda>i. holds s i d b \<and> is_valid (b_flags (bufs s i))) [0..<NBUF]" for d b
    using assms(1) by (intro find_cong) (auto simp: holds_def)
  moreover have "List.find P [0..<NBUF] = Some i \<Longrightarrow> i < NBUF" for P i
    by (auto simp: find_Some_iff)
  ultimately show ?thesis
    using assms by (intro ext) (auto simp: view_def split: option.splits)
qed

lemma linked_upd:
  "b_next b = b_next (bs i) \<Longrightarrow> b_prev b = b_prev (bs i) \<Longrightarrow> linked (bs(i := b)) zs = linked bs zs"
  by (rule linked_cong) auto

lemma mru_upd:
  "b_next b = b_next (bs i) \<Longrightarrow> b_prev b = b_prev (bs i) \<Longrightarrow> mru (bs(i := b)) xs = mru bs xs"
  by (simp add: mru_def linked_upd)

text \<open>\<open>took s dev blockno i s'\<close>: the state after a \<^verbatim>\<open>bread\<close> that returned buffer \<open>i\<close>.\<close>

definition took :: "'a ide_scheme \<Rightarrow> uint \<Rightarrow> uint \<Rightarrow> nat \<Rightarrow> 'a ide_scheme \<Rightarrow> bool" where
  "took s dev blockno i s' \<longleftrightarrow> bio_inv s \<and> (dev, blockno) \<noteq> (0, 0) \<and> dev \<le> 1 \<and>
     (\<exists>b ps. same_procs (procs s) ps \<and> s' = s\<lparr>procs := ps, bufs := (bufs s)(i := b)\<rparr> \<and>
        taken s dev blockno i b \<and> is_valid (b_flags b) \<and> b_data b = view s dev blockno)"

lemma took_buf:
  assumes "took s dev blockno i s'"
  shows "taken s dev blockno i (bufs s' i)" "is_valid (b_flags (bufs s' i))" "b_data (bufs s' i) = view s dev blockno"
    "j \<noteq> i \<Longrightarrow> bufs s' j = bufs s j" "bframe s s'" "dwrites s' = dwrites s" "dread s' = dread s"
proof -
  obtain b ps where b: "same_procs (procs s) ps" "s' = s\<lparr>procs := ps, bufs := (bufs s)(i := b)\<rparr>"
    "taken s dev blockno i b" "is_valid (b_flags b)" "b_data b = view s dev blockno"
    using assms by (auto simp: took_def)
  then show "taken s dev blockno i (bufs s' i)" "is_valid (b_flags (bufs s' i))" "b_data (bufs s' i) = view s dev blockno"
    "j \<noteq> i \<Longrightarrow> bufs s' j = bufs s j" "dwrites s' = dwrites s" "dread s' = dread s"
    by (auto intro!: dread_cong)
  show "bframe s s'"
    using bframeI[OF b(1), of "dwrites s"] by (simp add: b(2))
qed

lemma took_holds:
  assumes "took s dev blockno i s'"
  shows "holds s' j d x \<longleftrightarrow> (if j = i then d = dev \<and> x = blockno else holds s j d x)"
  using took_buf(1)[OF assms] took_buf(4)[OF assms, of j] by (auto simp: holds_def taken_def)

lemma took_inv:
  assumes "took s dev blockno i s'"
  shows "bio_inv s'"
proof -
  note tb = took_buf[OF assms]
  have inv: "bio_inv s" and key: "(dev, blockno) \<noteq> (0, 0)" "dev \<le> 1"
    using assms by (auto simp: took_def)
  have "buf_ok s' j" if "j < NBUF" for j
    using bio_inv_ok[OF inv that] tb(1,2) key tb(4)[of j]
    by (cases "j = i") (auto simp: buf_ok_def tb(7) taken_def Let_def)
  moreover have "j = k" if "holds s' j d x" "holds s' k d x" "(d, x) \<noteq> (0, 0)" for j k d x
  proof -
    have "\<not> holds s l dev blockno" if "l \<noteq> i" for l
      using tb(1) that holds_unique[OF inv, of l dev blockno i] key by (auto simp: taken_def)
    then show ?thesis
      using that holds_unique[OF inv, of j d x k] by (auto simp: took_holds[OF assms] split: if_splits)
  qed
  moreover have "mru (bufs s') xs = mru (bufs s) xs" for xs
  proof -
    have "bufs s' = (bufs s)(i := bufs s' i)"
      using tb(4) by (auto simp: fun_eq_iff)
    then show ?thesis
      using tb(1) mru_upd[of "bufs s' i" "bufs s" i xs] by (simp add: taken_def)
  qed
  moreover obtain xs where "mru (bufs s) xs"
    using bio_inv_mru[OF inv] by blast
  ultimately show ?thesis
    using bio_inv_queue[OF inv] bframe_same(5)[OF tb(5)] by (intro bio_invI[of s' xs]) simp_all
qed

lemma took_view:
  assumes "took s dev blockno i s'"
  shows "view s' = view s"
proof (intro ext, goal_cases)
  case (1 d x k)
  note tb = took_buf[OF assms] and th = took_holds[OF assms] and inv' = took_inv[OF assms]
  have inv: "bio_inv s"
    using assms by (simp add: took_def)
  show ?case
  proof (cases "d = dev \<and> x = blockno")
    case True
    then show ?thesis
      using view_cached[OF inv', of i] tb(2,3) by (simp add: th)
  next
    case False
    show ?thesis
    proof (cases "\<exists>j. j \<noteq> i \<and> holds s j d x \<and> is_valid (b_flags (bufs s j))")
      case True
      then obtain j where "j \<noteq> i" "holds s j d x" "is_valid (b_flags (bufs s j))" by blast
      then show ?thesis
        using view_cached[OF inv', of j d x] view_cached[OF inv, of j d x] tb(4)[of j] by (simp add: th)
    next
      case none: False
      then have "\<not> is_valid (b_flags (bufs s' j))" if "holds s' j d x" for j
        using False that tb(4)[of j] by (auto simp: th split: if_splits)
      then have 1: "view s' d x = dread s d x"
        using view_uncached[of s' d x] by (simp add: tb(7))
      show ?thesis
      proof (cases "holds s i d x \<and> is_valid (b_flags (bufs s i))")
        case True
        then have "i \<in> avail s"
          using tb(1) False by (auto simp: taken_def holds_def)
        then have "b_data (bufs s i) = dread s d x"
          using True bio_inv_ok[OF inv, of i] by (auto simp: avail_def buf_ok_def holds_def Let_def split: if_splits)
        then show ?thesis
          using 1 view_cached[OF inv, of i d x] True by simp
      next
        case False
        then show ?thesis
          using 1 none view_uncached[of s d x] by metis
      qed
    qed
  qed
qed

lemma took_sets:
  assumes "took s dev blockno i s'"
  shows "locked s' = insert i (locked s)" "dirtied s' = dirtied s" "avail s' = avail s - {i}"
proof -
  note tb = took_buf[OF assms]
  have "(j \<in> locked s' \<longleftrightarrow> j = i \<or> j \<in> locked s) \<and> (j \<in> avail s' \<longleftrightarrow> j \<in> avail s \<and> j \<noteq> i)" for j
    using tb(1) tb(4)[of j] by (cases "j = i") (auto simp: locked_def avail_def taken_def)
  then show "locked s' = insert i (locked s)" "avail s' = avail s - {i}"
    by blast+
  have "is_dirty (b_flags (bufs s i)) \<Longrightarrow> holds s i dev blockno"
    using tb(1) by (auto simp: taken_def avail_def)
  then have "b_dev (bufs s' j) = b_dev (bufs s j) \<and> b_blockno (bufs s' j) = b_blockno (bufs s j) \<and>
      is_dirty (b_flags (bufs s' j))" if "is_dirty (b_flags (bufs s j))" for j
    using tb(1) tb(4)[of j] that by (cases "j = i") (auto simp: taken_def holds_def)
  moreover have "is_dirty (b_flags (bufs s' j)) \<Longrightarrow> is_dirty (b_flags (bufs s j))" for j
    using tb(1) tb(4)[of j] by (cases "j = i") (auto simp: taken_def)
  ultimately show "dirtied s' = dirtied s"
    unfolding dirtied_def by (intro image_cong) auto
qed

theorem bread_ok:
  assumes "bio_inv s" "can_read s dev blockno"
  shows "\<exists>i s'. bread dev blockno s = Inr (i, s') \<and> took s dev blockno i s'"
proof -
  obtain i b ps where "bread dev blockno s = Inr (i, s\<lparr>procs := ps, bufs := (bufs s)(i := b)\<rparr>)"
    "same_procs (procs s) ps" "taken s dev blockno i b" "is_valid (b_flags b)" "b_data b = view s dev blockno"
    using bread_eq[OF assms] .
  then show ?thesis
    using assms by (intro exI[of _ i] exI conjI) (auto simp: took_def can_read_def drive_ok_def)
qed

section \<open>Changing, writing and releasing a locked buffer\<close>

abbreviation key :: "'a ide_scheme \<Rightarrow> nat \<Rightarrow> sector" where
  "key s i \<equiv> (b_dev (bufs s i), b_blockno (bufs s i))"

definition edited :: "'a ide_scheme \<Rightarrow> nat \<Rightarrow> 'a ide_scheme \<Rightarrow> bool" where
  "edited s i s' \<longleftrightarrow> bio_inv s \<and> i \<in> locked s \<and>
     (\<exists>ps b ws. same_procs (procs s) ps \<and> s' = s\<lparr>procs := ps, bufs := (bufs s)(i := b), dwrites := ws\<rparr> \<and>
        b_dev b = b_dev (bufs s i) \<and> b_blockno b = b_blockno (bufs s i) \<and> b_refcnt b = b_refcnt (bufs s i) \<and>
        b_lock b = b_lock (bufs s i) \<and> b_next b = b_next (bufs s i) \<and> b_prev b = b_prev (bufs s i) \<and>
        is_valid (b_flags b) \<and> (ws = dwrites s \<or> ws = (sector_of (b_dev b) (b_blockno b), b_data b) # dwrites s))"

lemma edited_buf:
  assumes "edited s i s'"
  shows "bio_inv s" "i < NBUF" "i \<in> locked s" "bframe s s'" "bufs s' = (bufs s)(i := bufs s' i)"
    "b_dev (bufs s' i) = b_dev (bufs s i)" "b_blockno (bufs s' i) = b_blockno (bufs s i)"
    "b_refcnt (bufs s' i) = b_refcnt (bufs s i)" "b_lock (bufs s' i) = b_lock (bufs s i)"
    "b_next (bufs s' i) = b_next (bufs s i)" "b_prev (bufs s' i) = b_prev (bufs s i)"
    "is_valid (b_flags (bufs s' i))" "is_valid (b_flags (bufs s i))" "disk0 s' = disk0 s" "b_refcnt (bufs s i) = 1"
    "dwrites s' = dwrites s \<or>
     dwrites s' = (sector_of (b_dev (bufs s i)) (b_blockno (bufs s i)), b_data (bufs s' i)) # dwrites s"
proof -
  show "bio_inv s" "i < NBUF" "i \<in> locked s" "bframe s s'"
    using assms by (auto simp: edited_def locked_def intro!: bframeI)
  then show "is_valid (b_flags (bufs s i))" "b_refcnt (bufs s i) = 1"
    using bio_inv_ok[of s i] by (auto simp: buf_ok_def locked_def Let_def)
qed (use assms in \<open>auto simp: edited_def\<close>)

lemma edited_keys:
  assumes "edited s i s'"
  shows "holds s' j d x = holds s j d x" "locked s' = locked s" "avail s' = avail s" "bframe s s'"
    "j \<noteq> i \<Longrightarrow> bufs s' j = bufs s j" "b_lock (bufs s' i) = b_lock (bufs s i)" "key s' i = key s i"
proof -
  note e = edited_buf[OF assms]
  show 1: "j \<noteq> i \<Longrightarrow> bufs s' j = bufs s j" for j
    by (subst e(5)) simp
  have "b_dev (bufs s' j) = b_dev (bufs s j) \<and> b_blockno (bufs s' j) = b_blockno (bufs s j) \<and>
      b_lock (bufs s' j) = b_lock (bufs s j) \<and> b_refcnt (bufs s' j) = b_refcnt (bufs s j)" for j
    using 1[of j] e by (cases "j = i") auto
  then show "holds s' j d x = holds s j d x" "locked s' = locked s" "b_lock (bufs s' i) = b_lock (bufs s i)" "key s' i = key s i"
    by (auto simp: holds_def locked_def)
  have "j \<in> avail s' \<longleftrightarrow> j \<in> avail s" for j
    using 1[of j] e by (cases "j = i") (auto simp: avail_def)
  then show "avail s' = avail s" by blast
  show "bframe s s'" by (rule e(4))
qed

lemma sector_of_eq: "d \<le> 1 \<Longrightarrow> d' \<le> 1 \<Longrightarrow> sector_of d x = sector_of d' y \<longleftrightarrow> d = d' \<and> x = y" for d d' :: uint
proof -
  have "e = 0 \<or> e = 1" if "e \<le> 1" for e :: uint
    using that by (simp add: word_le_nat_alt word_unat_eq_iff) linarith
  from this[of d] this[of d'] show "d \<le> 1 \<Longrightarrow> d' \<le> 1 \<Longrightarrow> ?thesis"
    by (auto simp: sector_of_def)
qed

lemma edited_dread:
  assumes "edited s i s'" "d \<le> 1" "(d, x) \<noteq> key s i"
  shows "dread s' d x = dread s d x"
proof -
  note e = edited_buf[OF assms(1)]
  have "b_dev (bufs s i) \<le> 1"
    using bio_inv_ok[OF e(1,2)] by (simp add: buf_ok_def Let_def)
  then have "sector_of d x \<noteq> sector_of (b_dev (bufs s i)) (b_blockno (bufs s i))"
    using assms(2,3) sector_of_eq[of d "b_dev (bufs s i)"] by auto
  then show ?thesis
    using e(14,16) by (auto simp: dread_def)
qed

lemma edited_inv:
  assumes "edited s i s'"
  shows "bio_inv s'"
proof -
  note ek = edited_keys[OF assms]
  note e = edited_buf[OF assms]
  have ok: "buf_ok s i"
    using bio_inv_ok[OF e(1,2)] .
  have "buf_ok s' j" if j: "j < NBUF" for j
  proof (cases "j = i")
    case True
    then show ?thesis
      using ok e by (auto simp: buf_ok_def locked_def Let_def)
  next
    case False
    have jok: "buf_ok s j"
      using bio_inv_ok[OF e(1) j] .
    have "is_valid (b_flags (bufs s j)) \<Longrightarrow> key s j \<noteq> key s i"
      using False holds_unique[OF e(1), of j "b_dev (bufs s j)" "b_blockno (bufs s j)" i] j e(2) jok
      by (auto simp: holds_def buf_ok_def Let_def)
    then have "is_valid (b_flags (bufs s j)) \<Longrightarrow> dread s' (b_dev (bufs s j)) (b_blockno (bufs s j)) =
        dread s (b_dev (bufs s j)) (b_blockno (bufs s j))"
      using edited_dread[OF assms, of "b_dev (bufs s j)" "b_blockno (bufs s j)"] jok by (auto simp: buf_ok_def Let_def)
    with jok show ?thesis
      using ek(5)[OF False] by (auto simp: buf_ok_def Let_def)
  qed
  moreover obtain xs where "mru (bufs s) xs"
    using bio_inv_mru[OF e(1)] by blast
  then have "mru (bufs s') xs"
    by (subst e(5)) (simp add: mru_upd e(10,11))
  ultimately show ?thesis
    using bio_inv_queue[OF e(1)] bframe_same(5)[OF ek(4)] holds_unique[OF e(1)]
    by (intro bio_invI[of s' xs]) (simp_all only: ek(1))
qed

lemma edited_view:
  assumes "edited s i s'" "d \<le> 1"
  shows "view s' d x = (if (d, x) = key s i then b_data (bufs s' i) else view s d x)"
proof -
  note ek = edited_keys[OF assms(1)] and inv' = edited_inv[OF assms(1)]
  note e = edited_buf(12,13,1,2)[OF assms(1)]
  have hi: "holds s i (fst (key s i)) (snd (key s i))"
    using e(4) by (simp add: holds_def)
  show ?thesis
  proof (cases "(d, x) = key s i")
    case True
    then show ?thesis
      using view_cached[OF inv', of i d x] e(1) hi by (auto simp: ek(1))
  next
    case False
    have "view s' d x = view s d x"
    proof (cases "\<exists>j. holds s j d x \<and> is_valid (b_flags (bufs s j))")
      case True
      then obtain j where j: "holds s j d x" "is_valid (b_flags (bufs s j))" by blast
      with False have "j \<noteq> i" by (auto simp: holds_def)
      then show ?thesis
        using view_cached[OF inv', of j d x] view_cached[OF e(3), of j d x] j ek(5)[of j] by (simp add: ek(1))
    next
      case none: False
      have "\<not> is_valid (b_flags (bufs s' j))" if "holds s' j d x" for j
        using that none False ek(5)[of j] e(2) by (cases "j = i") (auto simp: ek(1))
      then show ?thesis
        using view_uncached[of s' d x] view_uncached[of s d x] none edited_dread[OF assms False] by auto
    qed
    with False show ?thesis by auto
  qed
qed

lemma locked_valid: "bio_inv s \<Longrightarrow> i \<in> locked s \<Longrightarrow> is_valid (b_flags (bufs s i))"
  using bio_inv_ok[of s i] by (auto simp: buf_ok_def locked_def Let_def)

lemma edited_upd_buf:
  assumes "bio_inv s" "i \<in> locked s"
    and "b_dev (f (bufs s i)) = b_dev (bufs s i)" "b_blockno (f (bufs s i)) = b_blockno (bufs s i)"
      "b_refcnt (f (bufs s i)) = b_refcnt (bufs s i)" "b_lock (f (bufs s i)) = b_lock (bufs s i)"
      "b_next (f (bufs s i)) = b_next (bufs s i)" "b_prev (f (bufs s i)) = b_prev (bufs s i)" "is_valid (b_flags (f (bufs s i)))"
  shows "edited s i (upd_buf i f s)"
  unfolding edited_def using assms
  by (intro conjI exI[of _ "procs s"] exI[of _ "f (bufs s i)"] exI[of _ "dwrites s"]) (simp_all add: upd_buf_def)

lemma edited_data:
  assumes "bio_inv s" "i \<in> locked s"
  shows "edited s i (upd_buf i (b_data_update f) s)" "dirtied (upd_buf i (b_data_update f) s) = dirtied s"
    "dread (upd_buf i (b_data_update f) s) = dread s"
proof -
  show "edited s i (upd_buf i (b_data_update f) s)"
    using assms locked_valid[OF assms] by (intro edited_upd_buf) auto
  show "dirtied (upd_buf i (b_data_update f) s) = dirtied s"
    unfolding dirtied_def by (intro image_cong) (auto simp: upd_buf_def)
qed (auto intro!: dread_cong simp: upd_buf_def)

abbreviation mark_dirty :: "nat \<Rightarrow> 'a ide_scheme \<Rightarrow> 'a ide_scheme" where
  "mark_dirty i s \<equiv> upd_buf i (\<lambda>x. x\<lparr>b_flags := b_flags x OR B_DIRTY\<rparr>) s"

lemma edited_dirty:
  assumes "bio_inv s" "i \<in> locked s"
  shows "edited s i (mark_dirty i s)" "dirtied (mark_dirty i s) = insert (key s i) (dirtied s)"
    "dread (mark_dirty i s) = dread s"
proof -
  let ?s = "mark_dirty i s"
  show "edited s i (mark_dirty i s)"
    using assms locked_valid[OF assms] by (intro edited_upd_buf) auto
  have "{j. j < NBUF \<and> is_dirty (b_flags (bufs ?s j))} = insert i {j. j < NBUF \<and> is_dirty (b_flags (bufs s j))}"
    using assms(2) by (auto simp: upd_buf_def locked_def)
  moreover have "key ?s j = key s j" for j
    by (simp add: upd_buf_def)
  ultimately show "dirtied (mark_dirty i s) = insert (key s i) (dirtied s)"
    unfolding dirtied_def by simp
qed (auto intro!: dread_cong simp: upd_buf_def)

lemma dirtied_clean:
  assumes "bio_inv s" "i < NBUF" "is_valid (b_flags (bufs s i))"
    and "\<And>j. j < NBUF \<Longrightarrow> key s' j = key s j \<and> is_dirty (b_flags (bufs s' j)) = (j \<noteq> i \<and> is_dirty (b_flags (bufs s j)))"
  shows "dirtied s' = dirtied s - {key s i}"
proof -
  have "key s j \<noteq> key s i" if "j < NBUF" "j \<noteq> i" for j
    using holds_unique[OF assms(1), of j "b_dev (bufs s i)" "b_blockno (bufs s i)" i] that assms(2)
      valid_key[OF assms(1), of i] assms(3) by (auto simp: holds_def)
  then show ?thesis
    using assms(4) by (force simp: dirtied_def image_iff)
qed

lemma bwrite_ok:
  assumes "bio_inv s" "i \<in> locked s" "holdingsleep (b_lock (bufs s i)) s"
    and "drive_ok s (b_dev (bufs s i)) (b_blockno (bufs s i))"
  shows "\<exists>s'. bwrite i s = Inr s' \<and> edited s i s' \<and> dirtied s' = dirtied s - {key s i} \<and>
     b_data (bufs s' i) = b_data (bufs s i) \<and> \<not> is_dirty (b_flags (bufs s' i)) \<and>
     dwrites s' = (sector_of (b_dev (bufs s i)) (b_blockno (bufs s i)), b_data (bufs s i)) # dwrites s"
proof -
  let ?s = "upd_buf i (\<lambda>x. x\<lparr>b_flags := b_flags x OR B_DIRTY\<rparr>) s"
  have i: "i < NBUF" using assms(2) by (simp add: locked_def)
  have "ide_ready ?s (b_dev (bufs ?s i)) (b_blockno (bufs ?s i))"
    using assms(4) bio_inv_queue[OF assms(1)] by (simp add: ide_ready_def drive_ok_def upd_buf_def)
  moreover have "holdingsleep (b_lock (bufs ?s i)) ?s" "is_dirty (b_flags (bufs ?s i))"
    using assms(3) by (simp_all add: holdingsleep_def myproc_def upd_buf_def)
  ultimately obtain ps where ps: "same_procs (procs ?s) ps" and
    rw: "iderw i ?s = Inr (?s\<lparr>procs := ps, bufs := (bufs ?s)(i := (bufs ?s i)
          \<lparr>b_flags := (b_flags (bufs ?s i) OR B_VALID) AND NOT B_DIRTY\<rparr>),
          dwrites := (sector_of (b_dev (bufs ?s i)) (b_blockno (bufs ?s i)), b_data (bufs ?s i)) # dwrites ?s\<rparr>)"
    using idedrv.rw_write[of ?s i] by blast
  define b where "b = (bufs s i)\<lparr>b_flags := ((b_flags (bufs s i) OR B_DIRTY) OR B_VALID) AND NOT B_DIRTY\<rparr>"
  define s' where "s' = s\<lparr>procs := ps, bufs := (bufs s)(i := b),
     dwrites := (sector_of (b_dev (bufs s i)) (b_blockno (bufs s i)), b_data (bufs s i)) # dwrites s\<rparr>"
  have "iderw i ?s = Inr s'"
    unfolding rw by (simp add: s'_def b_def upd_buf_def)
  then have "bwrite i s = Inr s'"
    using assms(3) by (simp add: bwrite_def)
  moreover have "edited s i s'"
    using assms ps unfolding edited_def s'_def
    by (intro conjI exI[of _ ps] exI[of _ b]
      exI[of _ "(sector_of (b_dev (bufs s i)) (b_blockno (bufs s i)), b_data (bufs s i)) # dwrites s"])
     (simp_all add: b_def upd_buf_def)
  moreover have "dirtied s' = dirtied s - {key s i}"
    by (rule dirtied_clean[OF assms(1) i locked_valid[OF assms(1,2)]]) (simp add: s'_def b_def)
  ultimately show ?thesis
    by (intro exI[of _ s']) (simp_all add: s'_def b_def)
qed

text \<open>\<open>released s i s'\<close>: what \<^verbatim>\<open>brelse\<close> of a buffer does.\<close>

definition released :: "'a ide_scheme \<Rightarrow> nat \<Rightarrow> 'a ide_scheme \<Rightarrow> bool" where
  "released s i s' \<longleftrightarrow> bio_inv s' \<and> bframe s s' \<and> view s' = view s \<and> dwrites s' = dwrites s \<and>
     locked s' = locked s - {i} \<and> dirtied s' = dirtied s \<and>
     avail s' = (if is_dirty (b_flags (bufs s i)) then avail s else insert i (avail s)) \<and>
     (\<forall>j. key s' j = key s j \<and> b_flags (bufs s' j) = b_flags (bufs s j) \<and> b_data (bufs s' j) = b_data (bufs s j) \<and>
        (j \<noteq> i \<longrightarrow> b_lock (bufs s' j) = b_lock (bufs s j)))"

lemma brelse_ok:
  assumes "bio_inv s" "i \<in> locked s" "holdingsleep (b_lock (bufs s i)) s"
    and "is_dirty (b_flags (bufs s i)) \<or> b_data (bufs s i) = dread s (b_dev (bufs s i)) (b_blockno (bufs s i))"
  shows "\<exists>s'. brelse i s = Inr s' \<and> released s i s'"
proof -
  have i: "i < NBUF" "b_refcnt (bufs s i) = 1" "is_valid (b_flags (bufs s i))"
    using assms(2) bio_inv_ok[OF assms(1), of i] by (auto simp: locked_def buf_ok_def Let_def)
  define b where "b = (bufs s i)\<lparr>b_lock := \<lparr>sl_locked = False, sl_pid = 0\<rparr>, b_refcnt := 0\<rparr>"
  define bs where "bs = push_front i (unlink i ((bufs s)(i := b)))"
  define s' where "s' = s\<lparr>procs := woken (ChanBufLock i) (procs s), bufs := bs\<rparr>"
  have ret: "brelse i s = Inr s'"
    using assms(3) i(2) by (simp add: brelse_def releasesleep_def wakeup_eq upd_buf_def s'_def bs_def b_def)
  have f: "key s' j = key s j" "b_flags (bufs s' j) = b_flags (bufs s j)" "b_data (bufs s' j) = b_data (bufs s j)"
    "b_lock (bufs s' j) = (if j = i then \<lparr>sl_locked = False, sl_pid = 0\<rparr> else b_lock (bufs s j))"
    "b_refcnt (bufs s' j) = (if j = i then 0 else b_refcnt (bufs s j))" for j
    by (simp_all add: s'_def bs_def b_def)
  have frame: "bframe s s'"
    using bframeI[where s = s and ws = "dwrites s"] by (simp add: s'_def)
  have d: "dread s' = dread s"
    by (rule dread_cong) (simp_all add: s'_def)
  have h: "holds s' j e x = holds s j e x" for j e x
    using f(1)[of j] by (simp add: holds_def)
  obtain xs where "mru (bufs s) xs"
    using bio_inv_mru[OF assms(1)] by blast
  then have "mru ((bufs s)(i := b)) xs"
    by (simp add: mru_upd b_def)
  then have "mru (bufs s') (i # remove1 i xs)"
    using i(1) by (simp add: s'_def bs_def mru_move_front)
  moreover have "buf_ok s' j" if "j < NBUF" for j
    using bio_inv_ok[OF assms(1) that] f[of j] i assms(4) by (cases "j = i") (auto simp: buf_ok_def d Let_def)
  ultimately have "bio_inv s'"
    using bio_inv_queue[OF assms(1)] bframe_same(5)[OF frame] holds_unique[OF assms(1)]
    by (intro bio_invI[of s' "i # remove1 i xs"]) (simp_all only: h)
  moreover have "view s' = view s"
    by (rule view_cong) (use f d in auto)
  moreover have "j \<in> locked s' \<longleftrightarrow> j \<in> locked s - {i}" for j
    by (auto simp: locked_def f)
  moreover have "j \<in> avail s' \<longleftrightarrow> j \<in> (if is_dirty (b_flags (bufs s i)) then avail s else insert i (avail s))" for j
    using i by (auto simp: avail_def f)
  moreover have "dirtied s' = dirtied s"
    unfolding dirtied_def by (simp only: f)
  moreover have "dwrites s' = dwrites s"
    by (simp add: s'_def)
  ultimately show ?thesis
    using ret frame f unfolding released_def by (intro exI[of _ s']) (auto simp del: split_paired_All)
qed

section \<open>Looking at a block\<close>

text \<open>
  \<open>quiet s s'\<close>: the cache may have moved blocks around, but who looks at the blocks, the locks and the
  disk cannot tell.
\<close>

definition quiet :: "'a ide_scheme \<Rightarrow> 'a ide_scheme \<Rightarrow> bool" where
  "quiet s s' \<longleftrightarrow> bio_inv s' \<and> bframe s s' \<and> view s' = view s \<and> dwrites s' = dwrites s \<and>
     locked s' = locked s \<and> dirtied s' = dirtied s \<and> avail s' = avail s \<and>
     (\<forall>i\<in>locked s. key s' i = key s i \<and> b_flags (bufs s' i) = b_flags (bufs s i) \<and>
        b_data (bufs s' i) = b_data (bufs s i) \<and> b_lock (bufs s' i) = b_lock (bufs s i))"

lemma quiet_refl: "bio_inv s \<Longrightarrow> quiet s s"
  by (simp add: quiet_def)

lemma quiet_trans [trans]: "quiet s t \<Longrightarrow> quiet t u \<Longrightarrow> quiet s u"
  unfolding quiet_def by (auto intro: bframe_trans)

lemma view_clean:
  assumes "bio_inv s" "\<And>i. holds s i d b \<Longrightarrow> i \<notin> locked s \<and> \<not> is_dirty (b_flags (bufs s i))"
  shows "view s d b = dread s d b"
proof (cases "\<exists>i. holds s i d b \<and> is_valid (b_flags (bufs s i))")
  case True
  then obtain i where i: "holds s i d b" "is_valid (b_flags (bufs s i))" by blast
  then show ?thesis
    using view_cached[OF assms(1) i] assms(2)[OF i(1)] bio_inv_ok[OF assms(1), of i]
    by (auto simp: holds_def locked_def buf_ok_def Let_def)
qed (use view_uncached in blast)

lemma took_hold:
  assumes "took s dev blockno i s'"
  shows "bio_inv s'" "i \<in> locked s'" "i \<notin> locked s" "holdingsleep (b_lock (bufs s' i)) s'" "key s' i = (dev, blockno)"
  using took_inv[OF assms] took_sets(1)[OF assms] took_buf(1,5)[OF assms] bframe_same(10)[OF took_buf(5)[OF assms]]
  by (auto simp: taken_def holdingsleep_def)

lemma took_clean:
  assumes "took s dev blockno i s'" "\<not> is_dirty (b_flags (bufs s' i))"
  shows "b_data (bufs s' i) = dread s' dev blockno"
proof -
  note tb = took_buf[OF assms(1)]
  have inv: "bio_inv s" and ne: "(dev, blockno) \<noteq> (0, 0)"
    using assms(1) by (auto simp: took_def)
  have "j \<notin> locked s \<and> \<not> is_dirty (b_flags (bufs s j))" if "holds s j dev blockno" for j
  proof -
    have "j = i"
      using tb(1) that holds_unique[OF inv, of j dev blockno i] ne by (auto simp: taken_def)
    then show ?thesis
      using tb(1) assms(2) by (auto simp: taken_def)
  qed
  from view_clean[OF inv this] show ?thesis
    by (simp add: tb(3,7))
qed

lemma peek_ok:
  assumes "bio_inv s" "can_read s dev blockno"
  shows "\<exists>i s1 s2. bread dev blockno s = Inr (i, s1) \<and> b_data (bufs s1 i) = view s dev blockno \<and>
    brelse i s1 = Inr s2 \<and> quiet s s2"
proof -
  obtain i s1 where r: "bread dev blockno s = Inr (i, s1)" and t: "took s dev blockno i s1"
    using bread_ok[OF assms] by blast
  note tb = took_buf[OF t] and ts = took_sets[OF t] and th = took_hold[OF t]
  have "is_dirty (b_flags (bufs s1 i)) \<or> b_data (bufs s1 i) = dread s1 (b_dev (bufs s1 i)) (b_blockno (bufs s1 i))"
    using took_clean[OF t] th(5) by auto
  then obtain s2 where s2: "brelse i s1 = Inr s2" and rel: "released s1 i s2"
    using brelse_ok[OF th(1,2,4)] by blast
  have "i \<notin> avail s \<Longrightarrow> is_dirty (b_flags (bufs s1 i))"
    using tb(1) bio_inv_ok[OF assms(1), of i]
    by (auto simp: taken_def avail_def holds_def locked_def buf_ok_def Let_def split: if_splits)
  moreover have "i \<in> avail s \<Longrightarrow> \<not> is_dirty (b_flags (bufs s1 i))"
    using tb(1) by (auto simp: taken_def avail_def)
  ultimately have "avail s2 = avail s"
    using rel ts(3) unfolding released_def by (cases "i \<in> avail s") auto
  moreover have "bufs s1 j = bufs s j \<and> j \<noteq> i" if "j \<in> locked s" for j
    using tb(4)[of j] that th(3) by auto
  ultimately have "quiet s s2"
    using rel took_view[OF t] tb(6) ts(1,2) th(3) bframe_trans[OF tb(5)]
    unfolding quiet_def released_def by auto
  then show ?thesis
    using r s2 tb(3) by blast
qed

text \<open>
  The contract of the cache for code that looks at a block and lets it go.
\<close>

locale block_cache =
  fixes read :: "uint \<Rightarrow> uint \<Rightarrow> 's \<Rightarrow> (nat \<times> 's) res" and rel :: "nat \<Rightarrow> 's \<Rightarrow> 's res"
    and data :: "'s \<Rightarrow> nat \<Rightarrow> block" and content :: "'s \<Rightarrow> uint \<Rightarrow> uint \<Rightarrow> block"
    and readable :: "'s \<Rightarrow> uint \<Rightarrow> uint \<Rightarrow> bool" and same :: "'s \<Rightarrow> 's \<Rightarrow> bool"
  assumes read_rel: "readable s d b \<Longrightarrow> \<exists>i s1 s2. read d b s = Inr (i, s1) \<and> data s1 i = content s d b \<and>
      rel i s1 = Inr s2 \<and> same s s2"
    and same_content: "same s s' \<Longrightarrow> content s' = content s"
    and same_trans: "same s t \<Longrightarrow> same t u \<Longrightarrow> same s u"
begin

text \<open>Code of this form computes with the content of the block.\<close>

lemma with_block:
  assumes "readable s d b"
  shows "\<exists>s'. same s s' \<and>
    bindr (read d b s) (\<lambda>(i, s1). bindr (rel i s1) (\<lambda>s2. f (data s1 i) s2)) = f (content s d b) s'"
  using read_rel[OF assms] by auto

end

interpretation bc: block_cache bread brelse "\<lambda>s i. b_data (bufs s i)" view
  "\<lambda>s d b. bio_inv s \<and> can_read s d b" quiet
  proof (unfold_locales, goal_cases)
  case (1 s d b)
  then show ?case using peek_ok by blast
next
  case (3 s t u)
  then show ?case by (rule quiet_trans)
qed (simp add: quiet_def)

end
