(* ===== verification/Log.thy ===== *)
theory Log
  imports Bio
begin

text \<open>
  The write-ahead log, \<^verbatim>\<open>log.c\<close>, with \<^verbatim>\<open>readsb\<close> of \<^verbatim>\<open>fs.c\<close>, which it calls.

  The header block is in the byte layout of \<^verbatim>\<open>struct logheader\<close>: the count at offset 0 and the
  block numbers from offset 4.  A crash leaves some suffix of the list of disk writes (the list
  is newest first), so atomicity of \<^verbatim>\<open>commit\<close> is a statement about every such suffix.
\<close>

section \<open>Operations\<close>

record superblock =
  sb_size :: uint
  sb_nblocks :: uint
  sb_ninodes :: uint
  sb_nlog :: uint
  sb_logstart :: uint
  sb_inodestart :: uint
  sb_bmapstart :: uint

definition superblock_of :: "block \<Rightarrow> superblock" where
  "superblock_of d = \<lparr>sb_size = get32 d 0, sb_nblocks = get32 d 4, sb_ninodes = get32 d 8,
     sb_nlog = get32 d 12, sb_logstart = get32 d 16, sb_inodestart = get32 d 20,
     sb_bmapstart = get32 d 24\<rparr>"

definition readsb :: "uint \<Rightarrow> 'a ide_scheme \<Rightarrow> (superblock \<times> 'a ide_scheme) res" where
  "readsb dev s = bindr (bread dev 1 s) (\<lambda>(b, s).
     let sb = superblock_of (b_data (bufs s b)) in
     bindr (brelse b s) (\<lambda>s. Inr (sb, s)))"

record log = ide +
  lh_n :: int
  lh_block :: "nat \<Rightarrow> uint"
  log_start :: uint
  log_size :: int
  log_dev :: uint
  outstanding :: int
  committing :: bool

definition log_block :: "'a log_scheme \<Rightarrow> nat \<Rightarrow> uint" where
  "log_block s tail = log_start s + of_nat tail + 1"

primrec install_trans_loop :: "nat \<Rightarrow> nat \<Rightarrow> 'a log_scheme \<Rightarrow> 'a log_scheme res" where
  "install_trans_loop 0 tail s = Inr s"
| "install_trans_loop (Suc k) tail s =
     bindr (bread (log_dev s) (log_block s tail) s) (\<lambda>(lbuf, s).
     bindr (bread (log_dev s) (lh_block s tail) s) (\<lambda>(dbuf, s).
     let s = upd_buf dbuf (\<lambda>b. b\<lparr>b_data := b_data (bufs s lbuf)\<rparr>) s in
     bindr (bwrite dbuf s) (\<lambda>s.
     bindr (brelse lbuf s) (\<lambda>s.
     bindr (brelse dbuf s) (\<lambda>s.
     install_trans_loop k (Suc tail) s)))))"

definition install_trans :: "'a log_scheme \<Rightarrow> 'a log_scheme res" where
  "install_trans s = install_trans_loop (nat (lh_n s)) 0 s"

text \<open>A header that claims more than \<^verbatim>\<open>LOGSIZE\<close> blocks would be copied past the end of the array.\<close>

definition read_head :: "'a log_scheme \<Rightarrow> 'a log_scheme res" where
  "read_head s = bindr (bread (log_dev s) (log_start s) s) (\<lambda>(b, s).
     let d = b_data (bufs s b);
         n = sint (get32 d 0)
     in if n > int LOGSIZE then Inl (Undefined ''read_head: log.lh.block'')
        else let s = s\<lparr>lh_n := n, lh_block := (\<lambda>i. if i < nat n then get32 d (4 + 4 * i) else lh_block s i)\<rparr>
             in brelse b s)"

primrec put_blocks :: "nat \<Rightarrow> (nat \<Rightarrow> uint) \<Rightarrow> block \<Rightarrow> block" where
  "put_blocks 0 bl d = d"
| "put_blocks (Suc i) bl d = put32 (put_blocks i bl d) (4 + 4 * i) (bl i)"

definition write_head :: "'a log_scheme \<Rightarrow> 'a log_scheme res" where
  "write_head s = bindr (bread (log_dev s) (log_start s) s) (\<lambda>(b, s).
     let s = upd_buf b (b_data_update (\<lambda>d. put_blocks (nat (lh_n s)) (lh_block s) (put32 d 0 (of_int (lh_n s))))) s in
     bindr (bwrite b s) (\<lambda>s.
     brelse b s))"

definition recover_from_log :: "'a log_scheme \<Rightarrow> 'a log_scheme res" where
  "recover_from_log s =
     bindr (read_head s) (\<lambda>s.
     bindr (install_trans s) (\<lambda>s.
     write_head (s\<lparr>lh_n := 0\<rparr>)))"

definition initlog :: "uint \<Rightarrow> 'a log_scheme \<Rightarrow> 'a log_scheme res" where
  "initlog dev s = bindr (readsb dev s) (\<lambda>(sb, s).
     recover_from_log (s\<lparr>log_start := sb_logstart sb, log_size := sint (sb_nlog sb), log_dev := dev\<rparr>))"

text \<open>\<^verbatim>\<open>begin_op\<close> sleeps while a commit is running or the log may be too small for one more call.\<close>

definition begin_op :: "'a log_scheme \<Rightarrow> 'a log_scheme res" where
  "begin_op s =
     (if committing s then Inl (Asleep ChanLog)
      else if lh_n s + (outstanding s + 1) * int MAXOPBLOCKS > int LOGSIZE then Inl (Asleep ChanLog)
      else Inr (s\<lparr>outstanding := outstanding s + 1\<rparr>))"

primrec write_log_loop :: "nat \<Rightarrow> nat \<Rightarrow> 'a log_scheme \<Rightarrow> 'a log_scheme res" where
  "write_log_loop 0 tail s = Inr s"
| "write_log_loop (Suc k) tail s =
     bindr (bread (log_dev s) (log_block s tail) s) (\<lambda>(to, s).
     bindr (bread (log_dev s) (lh_block s tail) s) (\<lambda>(from, s).
     let s = upd_buf to (\<lambda>b. b\<lparr>b_data := b_data (bufs s from)\<rparr>) s in
     bindr (bwrite to s) (\<lambda>s.
     bindr (brelse from s) (\<lambda>s.
     bindr (brelse to s) (\<lambda>s.
     write_log_loop k (Suc tail) s)))))"

definition write_log :: "'a log_scheme \<Rightarrow> 'a log_scheme res" where
  "write_log s = write_log_loop (nat (lh_n s)) 0 s"

definition commit :: "'a log_scheme \<Rightarrow> 'a log_scheme res" where
  "commit s =
     (if lh_n s > 0 then
        bindr (write_log s) (\<lambda>s.
        bindr (write_head s) (\<lambda>s.
        bindr (install_trans s) (\<lambda>s.
        write_head (s\<lparr>lh_n := 0\<rparr>))))
      else Inr s)"

definition end_op :: "'a log_scheme \<Rightarrow> 'a log_scheme res" where
  "end_op s =
     (let s = s\<lparr>outstanding := outstanding s - 1\<rparr> in
      if committing s then Inl (Panic ''log.committing'')
      else if outstanding s = 0 then
        bindr (commit (s\<lparr>committing := True\<rparr>)) (\<lambda>s. Inr (wakeup ChanLog (s\<lparr>committing := False\<rparr>)))
      else Inr (wakeup ChanLog s))"

text \<open>The loop of \<^verbatim>\<open>log_write\<close>: the slot of the block, or the first free one.\<close>

primrec log_slot :: "(nat \<Rightarrow> uint) \<Rightarrow> uint \<Rightarrow> nat \<Rightarrow> nat \<Rightarrow> nat" where
  "log_slot bl b 0 i = i"
| "log_slot bl b (Suc k) i = (if bl i = b then i else log_slot bl b k (Suc i))"

definition log_write :: "nat \<Rightarrow> 'a log_scheme \<Rightarrow> 'a log_scheme res" where
  "log_write b s =
     (if lh_n s \<ge> int LOGSIZE \<or> lh_n s \<ge> log_size s - 1 then Inl (Panic ''too big a transaction'')
      else if outstanding s < 1 then Inl (Panic ''log_write outside of trans'')
      else let i = log_slot (lh_block s) (b_blockno (bufs s b)) (nat (lh_n s)) 0;
               s = s\<lparr>lh_block := (lh_block s)(i := b_blockno (bufs s b))\<rparr>;
               s = (if int i = lh_n s then s\<lparr>lh_n := lh_n s + 1\<rparr> else s)
           in Inr (mark_dirty b s))"

section \<open>Copying one block\<close>

lemma bframe_log:
  fixes s :: "'a log_scheme"
  assumes "bframe s s'"
  shows "lh_n s' = lh_n s" "lh_block s' = lh_block s" "log_start s' = log_start s" "log_size s' = log_size s"
    "log_dev s' = log_dev s" "outstanding s' = outstanding s" "committing s' = committing s" "log.more s' = log.more s"
    "log_block s' = log_block s"
proof -
  obtain ps bs ws where "s' = s\<lparr>procs := ps, bufs := bs, dwrites := ws\<rparr>"
    using assms by (auto simp: bframe_def)
  then show "lh_n s' = lh_n s" "lh_block s' = lh_block s" "log_start s' = log_start s" "log_size s' = log_size s"
    "log_dev s' = log_dev s" "outstanding s' = outstanding s" "committing s' = committing s" "log.more s' = log.more s"
    "log_block s' = log_block s"
    by (simp_all add: log_block_def[abs_def])
qed

lemma bframe_lh_n:
  fixes s :: "'a log_scheme"
  assumes "bframe s s'"
  shows "bframe (s\<lparr>lh_n := n\<rparr>) (s'\<lparr>lh_n := n\<rparr>)"
proof -
  obtain ps bs ws where s': "s' = s\<lparr>procs := ps, bufs := bs, dwrites := ws\<rparr>" "same_procs (procs s) ps"
    using assms by (auto simp: bframe_def)
  have eq: "s'\<lparr>lh_n := n\<rparr> = s\<lparr>lh_n := n, procs := ps, bufs := bs, dwrites := ws\<rparr>"
    unfolding s'(1) by (rule log.equality) simp_all
  show ?thesis
    unfolding eq by (rule bframeI) (simp add: s'(2))
qed

lemma bframe_drive_ok:
  assumes "bframe s s'" shows "drive_ok s' = drive_ok s"
  by (intro ext) (simp add: drive_ok_def bframe_same[OF assms])

lemma key_unique:
  assumes "bio_inv s" "i < NBUF" "j < NBUF" "is_valid (b_flags (bufs s i))" "key s i = key s j"
  shows "i = j"
proof -
  let ?d = "b_dev (bufs s i)" and ?b = "b_blockno (bufs s i)"
  have i: "holds s i ?d ?b" and j: "holds s j ?d ?b"
    using assms(2,3,5) by (simp_all add: holds_def)
  show ?thesis
    by (rule holds_unique[OF assms(1) i j valid_key[OF assms(1) i assms(4)]])
qed

lemma card_avail:
  assumes "bio_inv s" "locked s = {}"
  shows "card (avail s) + card (dirtied s) = NBUF"
proof -
  let ?D = "{i. i < NBUF \<and> is_dirty (b_flags (bufs s i))}"
  have "avail s = {..<NBUF} - ?D"
    using assms(2) bio_inv_ok[OF assms(1)] by (auto simp: avail_def locked_def buf_ok_def Let_def)
  moreover have "inj_on (key s) ?D"
    using key_unique[OF assms(1)] bio_inv_ok[OF assms(1)] by (intro inj_onI) (auto simp: buf_ok_def Let_def)
  then have "card (dirtied s) = card ?D"
    unfolding dirtied_def by (rule card_image)
  moreover have D: "?D \<subseteq> {..<NBUF}" by auto
  note card_mono[OF finite_lessThan D]
  moreover note card_Diff_subset[OF finite_subset[OF D finite_lessThan] D]
  ultimately show ?thesis by simp
qed

lemma copy_ok:
  assumes inv: "bio_inv s" and l: "locked s = {k, l}" "k \<noteq> l"
    and h: "holdingsleep (b_lock (bufs s k)) s" "holdingsleep (b_lock (bufs s l)) s"
    and k: "key s k = (dev, dst)" "key s l = (dev, src)" "drive_ok s dev dst"
    and c: "is_dirty (b_flags (bufs s l)) \<or> b_data (bufs s l) = dread s dev src"
  shows "\<exists>s1 s2 s3. bwrite k (upd_buf k (\<lambda>b. b\<lparr>b_data := b_data (bufs s l)\<rparr>) s) = Inr s1 \<and>
    brelse l s1 = Inr s2 \<and> brelse k s2 = Inr s3 \<and> bio_inv s3 \<and> bframe s s3 \<and> locked s3 = {} \<and>
    (\<forall>b. view s3 dev b = (if b = dst then view s dev src else view s dev b)) \<and>
    dwrites s3 = (sector_of dev dst, view s dev src) # dwrites s \<and> dirtied s3 = dirtied s - {(dev, dst)}"
proof -
  let ?s = "upd_buf k (\<lambda>b. b\<lparr>b_data := b_data (bufs s l)\<rparr>) s"
  have lk: "k \<in> locked s" "l \<in> locked s" and kn: "k < NBUF" "l < NBUF"
    using l by (auto simp: locked_def)
  have dev: "dev \<le> 1"
    using k(3) by (simp add: drive_ok_def)
  have ne: "src \<noteq> dst"
    using key_unique[OF inv kn locked_valid[OF inv lk(1)]] k l by auto
  have src: "b_data (bufs s l) = view s dev src"
    using view_cached[OF inv, of l dev src] k kn locked_valid[OF inv lk(2)] by (simp add: holds_def)
  have e1: "edited s k ?s" "dirtied ?s = dirtied s" "dread ?s = dread s"
    using edited_data[OF inv lk(1)] by simp_all
  note ek1 = edited_keys[OF e1(1)]
  have inv1: "bio_inv ?s" "k \<in> locked ?s" "holdingsleep (b_lock (bufs ?s k)) ?s"
    "drive_ok ?s (b_dev (bufs ?s k)) (b_blockno (bufs ?s k))"
    using edited_inv[OF e1(1)] lk ek1(2,6) h(1) bframe_same(9)[OF ek1(4)] k(1,3) bframe_drive_ok[OF ek1(4)] ek1(7) by simp_all
  obtain s1 where w: "bwrite k ?s = Inr s1" and e2: "edited ?s k s1" "dirtied s1 = dirtied ?s - {key ?s k}"
    "b_data (bufs s1 k) = b_data (bufs ?s k)" "\<not> is_dirty (b_flags (bufs s1 k))"
    "dwrites s1 = (sector_of (b_dev (bufs ?s k)) (b_blockno (bufs ?s k)), b_data (bufs ?s k)) # dwrites ?s"
    using bwrite_ok[OF inv1] by blast
  note ek2 = edited_keys[OF e2(1)]
  have fr1: "bframe s s1" using bframe_trans[OF ek1(4) ek2(4)] .
  have bl: "bufs s1 l = bufs s l"
    using ek1(5)[of l] ek2(5)[of l] l(2) by simp
  have d1: "dread s1 dev src = dread s dev src"
    using edited_dread[OF e2(1) dev, of src] ek1(7) k(1) ne e1(3) by simp
  have "\<exists>s2. brelse l s1 = Inr s2 \<and> released s1 l s2"
    using edited_inv[OF e2(1)] lk(2) h(2) c k(2) d1 ek1(2) ek2(2) bframe_same(9)[OF fr1] by (intro brelse_ok) (auto simp: bl)
  then obtain s2 where r2: "brelse l s1 = Inr s2" "released s1 l s2" by blast
  have fr2: "bframe s1 s2" and s2: "bio_inv s2" "locked s2 = {k}" "dwrites s2 = dwrites s1" "view s2 = view s1"
      "dirtied s2 = dirtied s1" "key s2 k = key s1 k" "b_data (bufs s2 k) = b_data (bufs s1 k)" "b_lock (bufs s2 k) = b_lock (bufs s1 k)"
    using r2(2) l ek1(2) ek2(2) by (auto simp: released_def)
  have keyk: "key s2 k = (dev, dst)" "b_data (bufs s2 k) = view s dev src"
    using s2(6,7) ek1(7) ek2(7) k(1) e2(3) src by (simp_all add: upd_buf_def)
  have "b_data (bufs s2 k) = dread s2 dev dst"
    using keyk(2) s2(3) e2(5) ek1(7) k(1) src by (simp add: dread_def upd_buf_def)
  then have "\<exists>s3. brelse k s2 = Inr s3 \<and> released s2 k s3"
    using s2 h(1) keyk bframe_same(9)[OF bframe_trans[OF fr1 fr2]] ek1(6) ek2(6) by (intro brelse_ok) auto
  then obtain s3 where r3: "brelse k s2 = Inr s3" "released s2 k s3" by blast
  have v: "view s3 dev b = (if b = dst then view s dev src else view s dev b)" for b
    using r3(2) s2(4) edited_view[OF e2(1) dev, of b] edited_view[OF e1(1) dev, of b] e2(3) ek1(7) k(1) src
    by (simp add: released_def upd_buf_def split: if_splits)
  have "bio_inv s3 \<and> bframe s s3 \<and> locked s3 = {} \<and> dwrites s3 = (sector_of dev dst, view s dev src) # dwrites s \<and>
      dirtied s3 = dirtied s - {(dev, dst)}"
    using r3(2) s2 bframe_trans[OF bframe_trans[OF fr1 fr2]] e2 e1 ek1(7) k(1) src
    by (auto simp: released_def upd_buf_def)
  then show ?thesis
    using w r2(1) r3(1) v by blast
qed

lemma two_reads:
  assumes inv: "bio_inv s" and l: "locked s = {}" and a: "drive_ok s dev a" and b: "drive_ok s dev b" and ne: "a \<noteq> b"
    and room: "2 \<le> card (avail s) \<or> avail s \<noteq> {} \<and> (dev, b) \<in> dirtied s"
  shows "\<exists>i s1 j s2. bread dev a s = Inr (i, s1) \<and> bread dev b s1 = Inr (j, s2) \<and> bframe s s1 \<and>
    bio_inv s2 \<and> bframe s s2 \<and> locked s2 = {i, j} \<and> i \<noteq> j \<and>
    holdingsleep (b_lock (bufs s2 i)) s2 \<and> holdingsleep (b_lock (bufs s2 j)) s2 \<and>
    key s2 i = (dev, a) \<and> key s2 j = (dev, b) \<and> view s2 = view s \<and> dwrites s2 = dwrites s \<and> dirtied s2 = dirtied s \<and>
    (is_dirty (b_flags (bufs s2 i)) \<or> b_data (bufs s2 i) = dread s2 dev a) \<and>
    (is_dirty (b_flags (bufs s2 j)) \<or> b_data (bufs s2 j) = dread s2 dev b)"
proof -
  have "avail s \<noteq> {}" using room by auto
  then have "can_read s dev a"
    using a l by (simp add: can_read_def)
  then obtain i s1 where r1: "bread dev a s = Inr (i, s1)" and t1: "took s dev a i s1"
    using bread_ok[OF inv] by blast
  note b1 = took_buf[OF t1] and h1 = took_hold[OF t1] and x1 = took_sets[OF t1]
  have "k \<notin> locked s1" if "holds s1 k dev b" for k
    using that x1(1) l h1(5) ne by (auto simp: holds_def)
  moreover have "(\<exists>k. holds s1 k dev b) \<or> avail s1 \<noteq> {}"
  proof (cases "2 \<le> card (avail s)")
    case True
    then have "avail s - {i} \<noteq> {}"
      by (metis Diff_eq_empty_iff card.empty card_insert_if card_mono finite.emptyI finite_insert insert_absorb2
          not_less_eq_eq numeral_2_eq_2 One_nat_def empty_iff)
    then show ?thesis using x1(3) by simp
  next
    case False
    then have "(dev, b) \<in> dirtied s1"
      using room x1(2) by simp
    then show ?thesis
      by (auto simp: dirtied_def holds_def)
  qed
  ultimately have "can_read s1 dev b"
    using b bframe_drive_ok[OF b1(5)] by (simp add: can_read_def)
  then obtain j s2 where r2: "bread dev b s1 = Inr (j, s2)" and t2: "took s1 dev b j s2"
    using bread_ok[OF h1(1)] by blast
  note b2 = took_buf[OF t2] and h2 = took_hold[OF t2] and x2 = took_sets[OF t2]
  have ij: "i \<noteq> j" and bi: "bufs s2 i = bufs s1 i"
    using h2(3) h1(2) b2(4)[of i] by auto
  have fr: "bframe s s2" using bframe_trans[OF b1(5) b2(5)] .
  have "holdingsleep (b_lock (bufs s2 i)) s2"
    using h1(4) bi bframe_same(9)[OF b2(5)] by simp
  moreover have "is_dirty (b_flags (bufs s2 i)) \<or> b_data (bufs s2 i) = dread s2 dev a"
    using took_clean[OF t1] bi b2(7) by auto
  moreover have "is_dirty (b_flags (bufs s2 j)) \<or> b_data (bufs s2 j) = dread s2 dev b"
    using took_clean[OF t2] by auto
  moreover have "locked s2 = {i, j}" "key s2 i = (dev, a)" "view s2 = view s" "dwrites s2 = dwrites s" "dirtied s2 = dirtied s"
    using x1(1,2) x2(1,2) l bi h1(5) took_view[OF t1] took_view[OF t2] b1(6) b2(6) by (simp_all add: insert_commute)
  ultimately show ?thesis
    using r1 r2 h2(1,4,5) fr b1(5) ij
    by (intro exI[of _ i] exI[of _ s1] exI[of _ j] exI[of _ s2] conjI) assumption+
qed

text \<open>One iteration of \<^verbatim>\<open>install_trans\<close> or of \<^verbatim>\<open>write_log\<close>, and a sequence of them.\<close>

definition copied :: "'a ide_scheme \<Rightarrow> uint \<Rightarrow> uint \<Rightarrow> uint \<Rightarrow> 'a ide_scheme \<Rightarrow> bool" where
  "copied s dev src dst s' \<longleftrightarrow> bio_inv s' \<and> bframe s s' \<and> locked s' = {} \<and>
     (\<forall>b. view s' dev b = (if b = dst then view s dev src else view s dev b)) \<and>
     dwrites s' = (sector_of dev dst, view s dev src) # dwrites s \<and> dirtied s' = dirtied s - {(dev, dst)}"

primrec copies :: "'a ide_scheme \<Rightarrow> uint \<Rightarrow> (uint \<times> uint) list \<Rightarrow> 'a ide_scheme \<Rightarrow> bool" where
  "copies s dev [] s' \<longleftrightarrow> s' = s"
| "copies s dev (p # ps) s' \<longleftrightarrow> (\<exists>t. copied s dev (fst p) (snd p) t \<and> copies t dev ps s')"

lemma copies_end:
  "copies s dev ps s' \<Longrightarrow> bio_inv s \<Longrightarrow> locked s = {} \<Longrightarrow> bio_inv s' \<and> bframe s s' \<and> locked s' = {}"
  by (induction ps arbitrary: s) (auto simp: copied_def intro: bframe_trans)

lemma copies_effect:
  "\<lbrakk>copies s dev ps s'; fst ` set ps \<inter> snd ` set ps = {}; distinct (map snd ps)\<rbrakk> \<Longrightarrow>
    dwrites s' = rev (map (\<lambda>(a, b). (sector_of dev b, view s dev a)) ps) @ dwrites s \<and>
    dirtied s' = dirtied s - Pair dev ` snd ` set ps \<and>
    (\<forall>a b. (a, b) \<in> set ps \<longrightarrow> view s' dev b = view s dev a) \<and>
    (\<forall>b. b \<notin> snd ` set ps \<longrightarrow> view s' dev b = view s dev b)"
proof (induction ps arbitrary: s)
  case (Cons p ps)
  obtain src dst where p: "p = (src, dst)" by (cases p)
  obtain t where c: "copied s dev src dst t" and cs: "copies t dev ps s'"
    using Cons.prems(1) p by auto
  have "fst ` set ps \<inter> snd ` set ps = {}" "distinct (map snd ps)"
    using Cons.prems(2,3) by auto
  note IH = Cons.IH[OF cs this]
  have v: "view t dev b = (if b = dst then view s dev src else view s dev b)" for b
    using c by (simp add: copied_def)
  have v1: "view t dev a = view s dev a" if "(a, b) \<in> set ps" for a b
    using that Cons.prems(2) p v[of a] by force
  then have "map (\<lambda>(a, b). (sector_of dev b, view t dev a)) ps = map (\<lambda>(a, b). (sector_of dev b, view s dev a)) ps"
    by auto
  then have 1: "dwrites s' = rev (map (\<lambda>(a, b). (sector_of dev b, view s dev a)) (p # ps)) @ dwrites s"
    using IH c p by (simp add: copied_def)
  have 2: "dirtied s' = dirtied s - Pair dev ` snd ` set (p # ps)"
    using IH c p by (auto simp: copied_def)
  have 4: "view s' dev b = view s dev b" if "b \<notin> snd ` set (p # ps)" for b
    using IH that v[of b] p by auto
  have "view s' dev b = view s dev a" if "(a, b) \<in> set (p # ps)" for a b
  proof (cases "(a, b) \<in> set ps")
    case True
    then show ?thesis using IH v1 by simp
  next
    case False
    then have "a = src" "b = dst" "dst \<notin> snd ` set ps"
      using that p Cons.prems(3) by auto
    then show ?thesis using IH v[of dst] by simp
  qed
  with 1 2 4 show ?case by blast
qed auto

lemma install_step:
  fixes s :: "'a log_scheme"
  assumes "bio_inv s" "locked s = {}" "drive_ok s (log_dev s) (log_block s tail)" "drive_ok s (log_dev s) (lh_block s tail)"
    and "log_block s tail \<noteq> lh_block s tail"
    and "2 \<le> card (avail s) \<or> avail s \<noteq> {} \<and> (log_dev s, lh_block s tail) \<in> dirtied s"
  shows "\<exists>s'. install_trans_loop (Suc k) tail s = install_trans_loop k (Suc tail) s' \<and>
    copied s (log_dev s) (log_block s tail) (lh_block s tail) s'"
proof -
  obtain i s1 j s2 where r: "bread (log_dev s) (log_block s tail) s = Inr (i, s1)"
      "bread (log_dev s) (lh_block s tail) s1 = Inr (j, s2)"
    and f: "bframe s s1" "bframe s s2" and c: "bio_inv s2" "locked s2 = {j, i}" "j \<noteq> i"
    "holdingsleep (b_lock (bufs s2 j)) s2" "holdingsleep (b_lock (bufs s2 i)) s2"
    "key s2 j = (log_dev s, lh_block s tail)" "key s2 i = (log_dev s, log_block s tail)"
    and v: "view s2 = view s" "dwrites s2 = dwrites s" "dirtied s2 = dirtied s"
    and d: "is_dirty (b_flags (bufs s2 i)) \<or> b_data (bufs s2 i) = dread s2 (log_dev s) (log_block s tail)"
    using two_reads[OF assms] by (auto simp: insert_commute)
  have "drive_ok s2 (log_dev s) (lh_block s tail)"
    using assms(4) bframe_drive_ok[OF f(2)] by simp
  from copy_ok[OF c this d] obtain t1 t2 t3 where
    "bwrite j (upd_buf j (\<lambda>b. b\<lparr>b_data := b_data (bufs s2 i)\<rparr>) s2) = Inr t1" "brelse i t1 = Inr t2" "brelse j t2 = Inr t3"
    "copied s2 (log_dev s) (log_block s tail) (lh_block s tail) t3"
    unfolding copied_def by blast
  then show ?thesis
    using r v bframe_log[OF f(1)] bframe_trans[OF f(2)] by (auto simp: copied_def)
qed

lemma write_log_step:
  fixes s :: "'a log_scheme"
  assumes "bio_inv s" "locked s = {}" "drive_ok s (log_dev s) (log_block s tail)" "drive_ok s (log_dev s) (lh_block s tail)"
    and "log_block s tail \<noteq> lh_block s tail"
    and "2 \<le> card (avail s) \<or> avail s \<noteq> {} \<and> (log_dev s, lh_block s tail) \<in> dirtied s"
  shows "\<exists>s'. write_log_loop (Suc k) tail s = write_log_loop k (Suc tail) s' \<and>
    copied s (log_dev s) (lh_block s tail) (log_block s tail) s'"
proof -
  obtain i s1 j s2 where r: "bread (log_dev s) (log_block s tail) s = Inr (i, s1)"
      "bread (log_dev s) (lh_block s tail) s1 = Inr (j, s2)"
    and f: "bframe s s1" "bframe s s2" and c: "bio_inv s2" "locked s2 = {i, j}" "i \<noteq> j"
    "holdingsleep (b_lock (bufs s2 i)) s2" "holdingsleep (b_lock (bufs s2 j)) s2"
    "key s2 i = (log_dev s, log_block s tail)" "key s2 j = (log_dev s, lh_block s tail)"
    and v: "view s2 = view s" "dwrites s2 = dwrites s" "dirtied s2 = dirtied s"
    and d: "is_dirty (b_flags (bufs s2 j)) \<or> b_data (bufs s2 j) = dread s2 (log_dev s) (lh_block s tail)"
    using two_reads[OF assms] by auto
  have "drive_ok s2 (log_dev s) (log_block s tail)"
    using assms(3) bframe_drive_ok[OF f(2)] by simp
  from copy_ok[OF c this d] obtain t1 t2 t3 where
    "bwrite i (upd_buf i (\<lambda>b. b\<lparr>b_data := b_data (bufs s2 j)\<rparr>) s2) = Inr t1" "brelse j t1 = Inr t2" "brelse i t2 = Inr t3"
    "copied s2 (log_dev s) (lh_block s tail) (log_block s tail) t3"
    unfolding copied_def by blast
  then show ?thesis
    using r v bframe_log[OF f(1)] bframe_trans[OF f(2)] by (auto simp: copied_def)
qed

definition log_geom :: "'a log_scheme \<Rightarrow> nat \<Rightarrow> nat \<Rightarrow> bool" where
  "log_geom s k tail \<longleftrightarrow> inj_on (lh_block s) {tail..<tail + k} \<and>
     (\<forall>t\<in>{tail..<tail + k}. drive_ok s (log_dev s) (log_block s t) \<and> drive_ok s (log_dev s) (lh_block s t) \<and>
        (\<forall>u\<in>{tail..<tail + k}. log_block s t \<noteq> lh_block s u))"

definition log_room :: "'a log_scheme \<Rightarrow> nat \<Rightarrow> nat \<Rightarrow> bool" where
  "log_room s k tail \<longleftrightarrow> card (dirtied s) + 2 \<le> NBUF \<or>
     card (dirtied s) < NBUF \<and> (\<forall>t\<in>{tail..<tail + k}. (log_dev s, lh_block s t) \<in> dirtied s)"

lemma finite_dirtied [simp]: "finite (dirtied s)"
  by (simp add: dirtied_def)

lemma room_avail:
  assumes "bio_inv s" "locked s = {}" "log_room s k tail" "t \<in> {tail..<tail + k}"
  shows "2 \<le> card (avail s) \<or> avail s \<noteq> {} \<and> (log_dev s, lh_block s t) \<in> dirtied s"
  using assms(3,4) card_avail[OF assms(1,2)] by (auto simp: log_room_def)

lemma copied_geom:
  fixes s :: "'a log_scheme"
  assumes "bframe s s'" "log_geom s (Suc k) tail"
  shows "log_geom s' k (Suc tail)"
proof -
  have "inj_on (lh_block s) {Suc tail..<Suc tail + k}"
    using assms(2) by (auto simp: log_geom_def intro: inj_on_subset)
  then show ?thesis
    using assms(2) by (auto simp: log_geom_def bframe_log[OF assms(1)] bframe_drive_ok[OF assms(1)])
qed

lemma copied_room:
  fixes s :: "'a log_scheme"
  assumes "copied s (log_dev s) src dst s'" "log_room s (Suc k) tail"
    and "\<forall>t\<in>{Suc tail..<Suc tail + k}. lh_block s t \<noteq> dst"
  shows "log_room s' k (Suc tail)"
proof -
  have d: "dirtied s' = dirtied s - {(log_dev s, dst)}" and f: "bframe s s'"
    using assms(1) by (auto simp: copied_def)
  have "card (dirtied s') \<le> card (dirtied s)"
    unfolding d by (intro card_mono) auto
  then show ?thesis
    using assms(2,3) by (auto simp: log_room_def d bframe_log[OF f])
qed

lemma install_trans_loop_ok:
  "\<lbrakk>bio_inv s; locked s = {}; log_geom s k tail; log_room s k tail\<rbrakk> \<Longrightarrow>
   \<exists>s'. install_trans_loop k tail s = Inr s' \<and>
     copies s (log_dev s) (map (\<lambda>t. (log_block s t, lh_block s t)) [tail..<tail + k]) s'"
proof (induction k arbitrary: tail s)
  case (Suc k)
  have t: "tail \<in> {tail..<tail + Suc k}" by simp
  obtain s1 where s1: "install_trans_loop (Suc k) tail s = install_trans_loop k (Suc tail) s1"
    and c: "copied s (log_dev s) (log_block s tail) (lh_block s tail) s1"
    using install_step[OF Suc.prems(1,2), of tail] room_avail[OF Suc.prems(1,2,4) t] Suc.prems(3) t
    unfolding log_geom_def by blast
  have inv1: "bio_inv s1" "locked s1 = {}" and f: "bframe s s1"
    using c by (auto simp: copied_def)
  have "\<forall>t\<in>{Suc tail..<Suc tail + k}. lh_block s t \<noteq> lh_block s tail"
    using Suc.prems(3) inj_on_eq_iff[of "lh_block s" "{tail..<tail + Suc k}"] by (fastforce simp: log_geom_def)
  from Suc.IH[OF inv1 copied_geom[OF f Suc.prems(3)] copied_room[OF c Suc.prems(4) this]]
  show ?case
    using s1 c by (auto simp: bframe_log[OF f] upt_rec[of tail] intro!: exI simp del: install_trans_loop.simps)
qed simp

lemma write_log_loop_ok:
  "\<lbrakk>bio_inv s; locked s = {}; log_geom s k tail; log_room s k tail\<rbrakk> \<Longrightarrow>
   \<exists>s'. write_log_loop k tail s = Inr s' \<and>
     copies s (log_dev s) (map (\<lambda>t. (lh_block s t, log_block s t)) [tail..<tail + k]) s'"
proof (induction k arbitrary: tail s)
  case (Suc k)
  have t: "tail \<in> {tail..<tail + Suc k}" by simp
  obtain s1 where s1: "write_log_loop (Suc k) tail s = write_log_loop k (Suc tail) s1"
    and c: "copied s (log_dev s) (lh_block s tail) (log_block s tail) s1"
    using write_log_step[OF Suc.prems(1,2), of tail] room_avail[OF Suc.prems(1,2,4) t] Suc.prems(3) t
    unfolding log_geom_def by blast
  have inv1: "bio_inv s1" "locked s1 = {}" and f: "bframe s s1"
    using c by (auto simp: copied_def)
  have "\<forall>u\<in>{tail..<tail + Suc k}. log_block s tail \<noteq> lh_block s u"
    using Suc.prems(3) t unfolding log_geom_def by blast
  then have "\<forall>t\<in>{Suc tail..<Suc tail + k}. lh_block s t \<noteq> log_block s tail"
    by (auto dest: not_sym)
  from Suc.IH[OF inv1 copied_geom[OF f Suc.prems(3)] copied_room[OF c Suc.prems(4) this]]
  show ?case
    using s1 c by (auto simp: bframe_log[OF f] upt_rec[of tail] intro!: exI simp del: write_log_loop.simps)
qed simp

section \<open>The header\<close>

text \<open>The in-memory fields of the log do not matter to the cache.\<close>

lemma ide_cong:
  assumes "bufs s' = bufs s" "idequeue s' = idequeue s" "disk0 s' = disk0 s" "dwrites s' = dwrites s"
  shows "bio_inv s' = bio_inv s" "view s' = view s" "locked s' = locked s" "avail s' = avail s"
    "dirtied s' = dirtied s" "dread s' = dread s" "holds s' = holds s"
proof -
  show d: "dread s' = dread s" using assms by (intro dread_cong)
  show h: "holds s' = holds s" by (intro ext) (simp add: holds_def assms)
  have "buf_ok s' = buf_ok s" by (intro ext) (simp add: buf_ok_def assms d)
  then show "bio_inv s' = bio_inv s" by (simp add: bio_inv_def assms h)
  show "view s' = view s" by (intro ext) (simp add: view_def assms d h cong: option.case_cong)
  show "locked s' = locked s" "avail s' = avail s" "dirtied s' = dirtied s"
    by (simp_all add: locked_def avail_def dirtied_def assms)
qed

lemmas lh_n_cong [simp] = ide_cong [where s' = "lh_n_update f s" and s = s, simplified] for f s
lemmas lh_block_cong [simp] = ide_cong [where s' = "lh_block_update f s" and s = s, simplified] for f s
lemmas outstanding_cong [simp] = ide_cong [where s' = "outstanding_update f s" and s = s, simplified] for f s
lemmas committing_cong [simp] = ide_cong [where s' = "committing_update f s" and s = s, simplified] for f s
lemmas log_start_cong [simp] = ide_cong [where s' = "log_start_update f s" and s = s, simplified] for f s
lemmas log_size_cong [simp] = ide_cong [where s' = "log_size_update f s" and s = s, simplified] for f s
lemmas log_dev_cong [simp] = ide_cong [where s' = "log_dev_update f s" and s = s, simplified] for f s

lemma drive_ok_cong [simp]:
  "drive_ok (lh_n_update f s) = drive_ok s" "drive_ok (lh_block_update g s) = drive_ok s"
  "drive_ok (outstanding_update f s) = drive_ok s" "drive_ok (committing_update h s) = drive_ok s"
  "drive_ok (log_start_update u s) = drive_ok s" "drive_ok (log_size_update f s) = drive_ok s"
  "drive_ok (log_dev_update u s) = drive_ok s"
  by (auto simp: drive_ok_def fun_eq_iff)

lemma brelse_lh:
  "brelse b (s\<lparr>lh_n := n, lh_block := bl\<rparr>) = bindr (brelse b s) (\<lambda>s. Inr (s\<lparr>lh_n := n, lh_block := bl\<rparr>))"
  by (simp add: brelse_def releasesleep_def wakeup_eq upd_buf_def holdingsleep_def myproc_def Let_def)

definition head_n :: "block \<Rightarrow> int" where
  "head_n d = sint (get32 d 0)"

definition head_block :: "block \<Rightarrow> nat \<Rightarrow> uint" where
  "head_block d i = get32 d (4 + 4 * i)"

lemma read_head_ok:
  assumes "bio_inv s" "can_read s (log_dev s) (log_start s)" "head_n (view s (log_dev s) (log_start s)) \<le> int LOGSIZE"
  shows "\<exists>t. quiet s t \<and> read_head s = Inr (t\<lparr>lh_n := head_n (view s (log_dev s) (log_start s)),
    lh_block := (\<lambda>i. if int i < head_n (view s (log_dev s) (log_start s)) then head_block (view s (log_dev s) (log_start s)) i
                     else lh_block s i)\<rparr>)"
proof -
  obtain i s1 s2 where r: "bread (log_dev s) (log_start s) s = Inr (i, s1)"
      "b_data (bufs s1 i) = view s (log_dev s) (log_start s)" "brelse i s1 = Inr s2" "quiet s s2"
      and f: "bframe s s1"
    using peek_ok[OF assms(1,2)] bread_ok[OF assms(1,2)] took_buf(5) by (metis Pair_inject sum.inject(2))
  have "(i < nat n) = (int i < n)" for i n by auto
  then show ?thesis
    using assms(3) r
    by (intro exI[of _ s2]) (simp add: read_head_def head_n_def head_block_def Let_def brelse_lh bframe_log[OF f] cong: if_cong)
qed

lemma put_blocks_get:
  "i < n \<Longrightarrow> get32 (put_blocks n bl d) (4 + 4 * i) = bl i" "get32 (put_blocks n bl d) 0 = get32 d 0"
  by (induction n) (auto simp: less_Suc_eq)

definition head_of :: "int \<Rightarrow> (nat \<Rightarrow> uint) \<Rightarrow> block \<Rightarrow> block" where
  "head_of n bl d = put_blocks (nat n) bl (put32 d 0 (of_int n))"

lemma head_of_fields:
  assumes "0 \<le> n" "n \<le> int LOGSIZE"
  shows "head_n (head_of n bl d) = n" "int i < n \<Longrightarrow> head_block (head_of n bl d) i = bl i"
proof -
  have "sint (of_int n :: uint) = n"
    using assms by (simp add: signed_of_int signed_take_bit_int_eq_self)
  then show "head_n (head_of n bl d) = n"
    by (simp add: head_n_def head_of_def put_blocks_get)
  show "int i < n \<Longrightarrow> head_block (head_of n bl d) i = bl i"
    by (simp add: head_block_def head_of_def put_blocks_get)
qed

lemma write_head_ok:
  fixes s :: "'a log_scheme"
  assumes "bio_inv s" "locked s = {}" "drive_ok s (log_dev s) (log_start s)" "avail s \<noteq> {}"
  defines "h \<equiv> head_of (lh_n s) (lh_block s) (view s (log_dev s) (log_start s))"
  shows "\<exists>s'. write_head s = Inr s' \<and> bio_inv s' \<and> bframe s s' \<and> locked s' = {} \<and>
    (\<forall>b. view s' (log_dev s) b = (if b = log_start s then h else view s (log_dev s) b)) \<and>
    dwrites s' = (sector_of (log_dev s) (log_start s), h) # dwrites s \<and> dirtied s' = dirtied s - {(log_dev s, log_start s)}"
proof -
  let ?dev = "log_dev s" and ?st = "log_start s"
  have dev: "?dev \<le> 1" using assms(3) by (simp add: drive_ok_def)
  have "can_read s ?dev ?st" using assms by (simp add: can_read_def)
  then obtain i s1 where r: "bread ?dev ?st s = Inr (i, s1)" and t: "took s ?dev ?st i s1"
    using bread_ok[OF assms(1)] by blast
  note tb = took_buf[OF t] and th = took_hold[OF t] and ts = took_sets[OF t]
  let ?f = "\<lambda>d. put_blocks (nat (lh_n s)) (lh_block s) (put32 d 0 (of_int (lh_n s)))"
  let ?s = "upd_buf i (b_data_update ?f) s1"
  have data: "b_data (bufs ?s i) = h"
    by (simp add: upd_buf_def tb(3) h_def head_of_def)
  note e1 = edited_data[OF th(1,2), of ?f]
  note ek1 = edited_keys[OF e1(1)]
  have fr: "bframe s ?s" using bframe_trans[OF tb(5) ek1(4)] .
  have "\<exists>s'. bwrite i ?s = Inr s' \<and> edited ?s i s' \<and> dirtied s' = dirtied ?s - {key ?s i} \<and>
     b_data (bufs s' i) = b_data (bufs ?s i) \<and> \<not> is_dirty (b_flags (bufs s' i)) \<and>
     dwrites s' = (sector_of (b_dev (bufs ?s i)) (b_blockno (bufs ?s i)), b_data (bufs ?s i)) # dwrites ?s"
    using edited_inv[OF e1(1)] th(2,4,5) ek1(2,6,7) assms(3) bframe_drive_ok[OF fr] bframe_same(9)[OF ek1(4)]
    by (intro bwrite_ok) auto
  then obtain s2 where w: "bwrite i ?s = Inr s2" and e2: "edited ?s i s2" "dirtied s2 = dirtied ?s - {(?dev, ?st)}"
    "b_data (bufs s2 i) = h" "dwrites s2 = (sector_of ?dev ?st, h) # dwrites s"
    using ek1(7) th(5) data tb(6) by (auto simp: upd_buf_def)
  note ek2 = edited_keys[OF e2(1)]
  have fr2: "bframe s s2" using bframe_trans[OF fr ek2(4)] .
  have k2: "key s2 i = (?dev, ?st)" using ek1(7) ek2(7) th(5) by simp
  have "b_data (bufs s2 i) = dread s2 ?dev ?st"
    using e2(3,4) by (simp add: dread_def)
  then have "\<exists>s3. brelse i s2 = Inr s3 \<and> released s2 i s3"
    using edited_inv[OF e2(1)] th(2,4) ek1(2,6) ek2(2,6) bframe_same(9)[OF ek1(4)] bframe_same(9)[OF ek2(4)] k2
    by (intro brelse_ok) auto
  then obtain s3 where r3: "brelse i s2 = Inr s3" "released s2 i s3" by blast
  have "write_head s = Inr s3"
    using r w r3(1) by (simp add: write_head_def bframe_log[OF tb(5)])
  moreover have "view s3 ?dev b = (if b = ?st then h else view s ?dev b)" for b
    using r3(2) edited_view[OF e2(1) dev, of b] edited_view[OF e1(1) dev, of b] took_view[OF t] e2(3) data ek1(7) th(5)
    by (simp add: released_def)
  moreover have "bio_inv s3" "bframe s s3" "locked s3 = {}" "dirtied s3 = dirtied s - {(?dev, ?st)}" "dwrites s3 = dwrites s2"
    using r3(2) ek1(2) ek2(2) ts(1,2) assms(2) e2(2) e1(2) bframe_trans[OF fr2] by (auto simp: released_def)
  ultimately show ?thesis
    using e2(4) by (intro exI[of _ s3]) simp
qed

section \<open>The invariant of the log\<close>

text \<open>
  \<open>home s b\<close>: block \<open>b\<close> is outside the log and the boot block.  Between transactions and inside
  them the dirty buffers are exactly the blocks in the in-memory header, and the header on disk is
  empty.
\<close>

definition home :: "'a log_scheme \<Rightarrow> uint \<Rightarrow> bool" where
  "home s b \<longleftrightarrow> 0 < b \<and> b < of_nat FSSIZE \<and>
     \<not> (unat (log_start s) \<le> unat b \<and> unat b < unat (log_start s) + nat (log_size s))"

definition log_ready :: "'a log_scheme \<Rightarrow> bool" where
  "log_ready s \<longleftrightarrow> (\<forall>b. 0 < b \<longrightarrow> b < of_nat FSSIZE \<longrightarrow> drive_ok s (log_dev s) b) \<and> 0 < log_start s \<and>
     0 < log_size s \<and> log_size s \<le> int LOGSIZE \<and> unat (log_start s) + nat (log_size s) \<le> FSSIZE"

definition blocks_ok :: "'a log_scheme \<Rightarrow> int \<Rightarrow> (nat \<Rightarrow> uint) \<Rightarrow> bool" where
  "blocks_ok s n bl \<longleftrightarrow> 0 \<le> n \<and> n < log_size s \<and> inj_on bl {..<nat n} \<and> (\<forall>t<nat n. home s (bl t))"

definition log_inv :: "'a log_scheme \<Rightarrow> bool" where
  "log_inv s \<longleftrightarrow> bio_inv s \<and> log_ready s \<and> blocks_ok s (lh_n s) (lh_block s) \<and>
     dirtied s = Pair (log_dev s) ` lh_block s ` {..<nat (lh_n s)} \<and>
     head_n (dread s (log_dev s) (log_start s)) = 0"

lemma log_block_area:
  assumes "log_ready s" "int t + 1 < log_size s"
  shows "unat (log_block s t) = unat (log_start s) + t + 1"
proof -
  have "unat (log_start s) + t + 1 < 2 ^ 32"
    using assms by (simp add: log_ready_def)
  then have "unat (log_start s + of_nat (t + 1)) = unat (log_start s) + (t + 1)"
    by (intro unat_add_offset) simp
  then show ?thesis
    by (simp add: log_block_def add.assoc add.commute[of 1])
qed

lemma log_area:
  assumes "log_ready s"
  shows "int t + 1 < log_size s \<Longrightarrow> drive_ok s (log_dev s) (log_block s t)"
    "int t + 1 < log_size s \<Longrightarrow> \<not> home s (log_block s t)" "int t + 1 < log_size s \<Longrightarrow> log_block s t \<noteq> log_start s"
    "int t + 1 < log_size s \<Longrightarrow> int u + 1 < log_size s \<Longrightarrow> log_block s t = log_block s u \<longleftrightarrow> t = u"
    "drive_ok s (log_dev s) (log_start s)" "\<not> home s (log_start s)" "home s b \<Longrightarrow> drive_ok s (log_dev s) b"
    "log_dev s \<le> 1"
proof -
  note a = log_block_area[OF assms]
  show "int t + 1 < log_size s \<Longrightarrow> \<not> home s (log_block s t)" "int t + 1 < log_size s \<Longrightarrow> log_block s t \<noteq> log_start s"
    using a[of t] by (auto simp: home_def)
  show "int t + 1 < log_size s \<Longrightarrow> int u + 1 < log_size s \<Longrightarrow> log_block s t = log_block s u \<longleftrightarrow> t = u"
    using a[of t] a[of u] by (auto simp: word_unat_eq_iff)
  show 1: "drive_ok s (log_dev s) (log_start s)"
    using assms by (auto simp: log_ready_def word_less_nat_alt)
  then show "log_dev s \<le> 1" by (simp add: drive_ok_def)
  show "int t + 1 < log_size s \<Longrightarrow> drive_ok s (log_dev s) (log_block s t)"
    using assms a[of t] by (auto simp: log_ready_def word_less_nat_alt)
  show "\<not> home s (log_start s)" "home s b \<Longrightarrow> drive_ok s (log_dev s) b"
    using assms by (auto simp: home_def log_ready_def)
qed

lemma log_ready_geom:
  assumes "log_ready s" "blocks_ok s (lh_n s) (lh_block s)"
  shows "log_geom s (nat (lh_n s)) 0"
proof -
  have "int t + 1 < log_size s" if "t < nat (lh_n s)" for t
    using that assms(2) by (auto simp: blocks_ok_def)
  moreover from this have "log_block s t \<noteq> lh_block s u" if "t < nat (lh_n s)" "u < nat (lh_n s)" for t u
    using that assms(2) log_area(2)[OF assms(1)] unfolding blocks_ok_def by metis
  ultimately show ?thesis
    using assms(2) log_area(1,7)[OF assms(1)] by (auto simp: log_geom_def blocks_ok_def lessThan_atLeast0)
qed

lemma bframe_home:
  fixes s :: "'a log_scheme"
  assumes "bframe s s'"
  shows "home s' = home s" "log_ready s' = log_ready s" "blocks_ok s' = blocks_ok s"
proof -
  show h: "home s' = home s"
    by (intro ext) (simp add: home_def bframe_log[OF assms])
  show "log_ready s' = log_ready s"
    by (simp add: log_ready_def bframe_log[OF assms] bframe_drive_ok[OF assms])
  show "blocks_ok s' = blocks_ok s"
    by (intro ext) (simp add: blocks_ok_def bframe_log[OF assms] h)
qed

lemma home_upd [simp]:
  "home (lh_n_update f s) = home s" "home (lh_block_update g s) = home s"
  "home (outstanding_update f s) = home s" "home (committing_update h s) = home s"
  "log_ready (lh_n_update f s) = log_ready s" "log_ready (lh_block_update g s) = log_ready s"
  "log_ready (outstanding_update f s) = log_ready s" "log_ready (committing_update h s) = log_ready s"
  "blocks_ok (lh_n_update f s) = blocks_ok s" "blocks_ok (lh_block_update g s) = blocks_ok s"
  "blocks_ok (outstanding_update f s) = blocks_ok s" "blocks_ok (committing_update h s) = blocks_ok s"
  "log_block (lh_n_update f s) = log_block s" "log_block (lh_block_update g s) = log_block s"
  by (auto simp: home_def log_ready_def blocks_ok_def log_block_def fun_eq_iff)

text \<open>The writes of a loop, as a list.\<close>

definition writes :: "uint \<Rightarrow> (nat \<Rightarrow> uint) \<Rightarrow> (nat \<Rightarrow> block) \<Rightarrow> nat \<Rightarrow> (sector \<times> block) list" where
  "writes dev bl v n = rev (map (\<lambda>t. (sector_of dev (bl t), v t)) [0..<n])"

lemma writes_Suc: "writes dev bl v (Suc n) = (sector_of dev (bl n), v n) # writes dev bl v n"
  by (simp add: writes_def)

lemma writes_0 [simp]: "writes dev bl v 0 = []"
  by (simp add: writes_def)

lemma writes_cong: "(\<And>t. t < n \<Longrightarrow> v t = w t) \<Longrightarrow> writes dev bl v n = writes dev bl w n"
  by (simp add: writes_def)

lemma writes_cong_bl: "(\<And>t. t < n \<Longrightarrow> bl t = cl t) \<Longrightarrow> writes dev bl v n = writes dev cl v n"
  by (simp add: writes_def)

lemma platter_writes:
  "(\<forall>t<n. sector_of dev (bl t) \<noteq> x) \<Longrightarrow> platter d (writes dev bl v n @ ws) x = platter d ws x"
  "inj_on (\<lambda>t. sector_of dev (bl t)) {..<n} \<Longrightarrow> t < n \<Longrightarrow> platter d (writes dev bl v n @ ws) (sector_of dev (bl t)) = v t"
proof (induction n)
  case (Suc n)
  { case 1
    then show ?case using Suc.IH(1) by (auto simp: writes_Suc) }
  { case 2
    then have "inj_on (\<lambda>t. sector_of dev (bl t)) {..<n}"
      by (auto intro: inj_on_subset)
    moreover have "t \<noteq> n \<Longrightarrow> sector_of dev (bl t) \<noteq> sector_of dev (bl n)"
      using 2 by (auto dest!: inj_onD)
    ultimately show ?case
      using Suc.IH(2) 2 by (cases "t = n") (auto simp: writes_Suc less_Suc_eq) }
qed auto

lemma copies_writes:
  assumes "copies s dev (map (\<lambda>t. (f t, g t)) [0..<n]) s'" "\<forall>t<n. \<forall>u<n. f t \<noteq> g u" "inj_on g {..<n}"
  shows "dwrites s' = writes dev g (\<lambda>t. view s dev (f t)) n @ dwrites s" "dirtied s' = dirtied s - Pair dev ` g ` {..<n}"
    "t < n \<Longrightarrow> view s' dev (g t) = view s dev (f t)" "b \<notin> g ` {..<n} \<Longrightarrow> view s' dev b = view s dev b"
proof -
  let ?ps = "map (\<lambda>t. (f t, g t)) [0..<n]"
  have set: "fst ` set ?ps = f ` {..<n}" "snd ` set ?ps = g ` {..<n}"
    by (simp_all add: image_image atLeast0LessThan)
  have "fst ` set ?ps \<inter> snd ` set ?ps = {}"
    unfolding set using assms(2) by auto
  moreover have "distinct (map snd ?ps)"
    using assms(3) by (simp add: distinct_map comp_def lessThan_atLeast0)
  ultimately have e: "dwrites s' = rev (map (\<lambda>(a, b). (sector_of dev b, view s dev a)) ?ps) @ dwrites s"
    "dirtied s' = dirtied s - Pair dev ` snd ` set ?ps"
    "\<forall>a b. (a, b) \<in> set ?ps \<longrightarrow> view s' dev b = view s dev a" "\<forall>b. b \<notin> snd ` set ?ps \<longrightarrow> view s' dev b = view s dev b"
    using copies_effect[OF assms(1)] by blast+
  show "dwrites s' = writes dev g (\<lambda>t. view s dev (f t)) n @ dwrites s"
    using e(1) by (simp add: writes_def comp_def)
  show "dirtied s' = dirtied s - Pair dev ` g ` {..<n}" using e(2) set by simp
  show "t < n \<Longrightarrow> view s' dev (g t) = view s dev (f t)" using e(3) by auto
  show "b \<notin> g ` {..<n} \<Longrightarrow> view s' dev b = view s dev b" using e(4) set by simp
qed

section \<open>Commit\<close>

lemma log_room_inv:
  assumes "log_inv s"
  shows "log_room s (nat (lh_n s)) 0" "card (dirtied s) < NBUF"
proof -
  have "card (dirtied s) \<le> nat (lh_n s)"
    using assms card_image_le[of "{..<nat (lh_n s)}" "\<lambda>t. (log_dev s, lh_block s t)"]
    by (simp add: log_inv_def image_image)
  moreover have "lh_n s < 30"
    using assms by (simp add: log_inv_def blocks_ok_def log_ready_def)
  ultimately show "card (dirtied s) < NBUF" by simp
  then show "log_room s (nat (lh_n s)) 0"
    using assms by (auto simp: log_room_def log_inv_def)
qed

lemma avail_nonempty: "bio_inv s \<Longrightarrow> locked s = {} \<Longrightarrow> card (dirtied s) < NBUF \<Longrightarrow> avail s \<noteq> {}"
  using card_avail[of s] by auto

lemma blocks_ok_log:
  assumes "log_ready s" "blocks_ok s n bl"
  shows "t < nat n \<Longrightarrow> int t + 1 < log_size s" "t < nat n \<Longrightarrow> home s (bl t)" "inj_on bl {..<nat n}" "inj_on (log_block s) {..<nat n}"
    "\<forall>t<nat n. \<forall>u<nat n. bl t \<noteq> log_block s u" "\<forall>t<nat n. \<forall>u<nat n. log_block s t \<noteq> bl u"
    "log_start s \<notin> bl ` {..<nat n}" "log_start s \<notin> log_block s ` {..<nat n}" "n \<le> int LOGSIZE"
proof -
  note area = log_area[OF assms(1)]
  show 1: "t < nat n \<Longrightarrow> int t + 1 < log_size s" and 2: "t < nat n \<Longrightarrow> home s (bl t)" for t
    using assms(2) by (auto simp: blocks_ok_def)
  show "inj_on bl {..<nat n}" "inj_on (log_block s) {..<nat n}"
    using assms(2) area(4) 1 by (auto simp: blocks_ok_def inj_on_def)
  show "\<forall>t<nat n. \<forall>u<nat n. bl t \<noteq> log_block s u" "\<forall>t<nat n. \<forall>u<nat n. log_block s t \<noteq> bl u"
    using 1 2 area(2) by metis+
  show "log_start s \<notin> bl ` {..<nat n}" "log_start s \<notin> log_block s ` {..<nat n}" "n \<le> int LOGSIZE"
    using 1 2 area(3,6) assms by (force simp: blocks_ok_def log_ready_def)+
qed

text \<open>\<^verbatim>\<open>install_trans(); log.lh.n = 0; write_head();\<close> ends both \<^verbatim>\<open>commit\<close> and recovery.\<close>

lemma install_clear_ok:
  fixes s :: "'a log_scheme"
  assumes bio: "bio_inv s" and l: "locked s = {}" and rdy: "log_ready s" and bok: "blocks_ok s (lh_n s) (lh_block s)"
    and room: "log_room s (nat (lh_n s)) 0"
  shows "\<exists>s'. bindr (install_trans s) (\<lambda>s. write_head (s\<lparr>lh_n := 0\<rparr>)) = Inr s' \<and> bio_inv s' \<and> bframe (s\<lparr>lh_n := 0\<rparr>) s' \<and>
    locked s' = {} \<and> dirtied s' = dirtied s - Pair (log_dev s) ` lh_block s ` {..<nat (lh_n s)} - {(log_dev s, log_start s)} \<and>
    dwrites s' = (sector_of (log_dev s) (log_start s), head_of 0 (lh_block s) (view s (log_dev s) (log_start s))) #
      writes (log_dev s) (lh_block s) (\<lambda>t. view s (log_dev s) (log_block s t)) (nat (lh_n s)) @ dwrites s \<and>
    (\<forall>t<nat (lh_n s). view s' (log_dev s) (lh_block s t) = view s (log_dev s) (log_block s t)) \<and>
    (\<forall>b. b \<notin> lh_block s ` {..<nat (lh_n s)} \<longrightarrow> b \<noteq> log_start s \<longrightarrow> view s' (log_dev s) b = view s (log_dev s) b)"
proof -
  let ?dev = "log_dev s" and ?n = "nat (lh_n s)"
  note area = log_area[OF rdy] and bl = blocks_ok_log[OF rdy bok]
  obtain s1 where w1: "install_trans s = Inr s1"
    and c1: "copies s ?dev (map (\<lambda>t. (log_block s t, lh_block s t)) [0..<?n]) s1"
    using install_trans_loop_ok[OF bio l log_ready_geom[OF rdy bok] room] by (auto simp: install_trans_def)
  note e1 = copies_writes[OF c1 bl(6,3)]
  have s1: "bio_inv s1" "bframe s s1" "locked s1 = {}"
    using copies_end[OF c1 bio l] by auto
  have "card (dirtied s1) \<le> card (dirtied s)"
    unfolding e1(2) by (intro card_mono) auto
  then have av: "avail s1 \<noteq> {}"
    using room avail_nonempty[OF s1(1,3)] by (auto simp: log_room_def)
  have v1: "view s1 ?dev (log_start s) = view s ?dev (log_start s)"
    using bl(7) by (rule e1(4))
  let ?s1 = "s1\<lparr>lh_n := 0\<rparr>" and ?h = "head_of 0 (lh_block s) (view s ?dev (log_start s))"
  have "\<exists>s2. write_head ?s1 = Inr s2 \<and> bio_inv s2 \<and> bframe ?s1 s2 \<and> locked s2 = {} \<and>
    (\<forall>b. view s2 ?dev b = (if b = log_start s then ?h else view s1 ?dev b)) \<and>
    dwrites s2 = (sector_of ?dev (log_start s), ?h) # dwrites s1 \<and> dirtied s2 = dirtied s1 - {(?dev, log_start s)}"
    using write_head_ok[of ?s1] s1 area(5) av v1
    by (simp add: bframe_log[OF s1(2)] bframe_drive_ok[OF s1(2)] cong: if_cong)
  then obtain s2 where w2: "write_head ?s1 = Inr s2" and s2: "bio_inv s2" "bframe ?s1 s2" "locked s2 = {}"
    and v2: "\<forall>b. view s2 ?dev b = (if b = log_start s then ?h else view s1 ?dev b)"
    and dw2: "dwrites s2 = (sector_of ?dev (log_start s), ?h) # dwrites s1" and d2: "dirtied s2 = dirtied s1 - {(?dev, log_start s)}"
    by blast
  have "bframe (s\<lparr>lh_n := 0\<rparr>) ?s1"
    using s1(2) by (rule bframe_lh_n)
  then have f: "bframe (s\<lparr>lh_n := 0\<rparr>) s2"
    using bframe_trans s2(2) by blast
  have "view s2 ?dev (lh_block s t) = view s ?dev (log_block s t)" if "t < ?n" for t
  proof -
    have "lh_block s t \<noteq> log_start s" using that bl(7) by force
    then show ?thesis using that v2 e1(3) by simp
  qed
  moreover have "view s2 ?dev b = view s ?dev b" if "b \<notin> lh_block s ` {..<?n}" "b \<noteq> log_start s" for b
    using that v2 e1(4) by auto
  ultimately show ?thesis
    using w1 w2 s2 f d2 dw2 e1(1,2) by (intro exI[of _ s2]) simp
qed

text \<open>The disk writes of a commit, newest first.\<close>

definition commit_writes :: "'a log_scheme \<Rightarrow> (sector \<times> block) list" where
  "commit_writes s =
     (let dev = log_dev s; n = nat (lh_n s); v = (\<lambda>t. view s dev (lh_block s t));
          h = head_of (lh_n s) (lh_block s) (view s dev (log_start s))
      in (sector_of dev (log_start s), head_of 0 (lh_block s) h) # writes dev (lh_block s) v n
           @ (sector_of dev (log_start s), h) # writes dev (log_block s) v n)"

lemma write_log_head_ok:
  assumes inv: "log_inv s" and l: "locked s = {}"
  defines "h \<equiv> head_of (lh_n s) (lh_block s) (view s (log_dev s) (log_start s))"
  shows "\<exists>s'. bindr (write_log s) write_head = Inr s' \<and> bio_inv s' \<and> bframe s s' \<and> locked s' = {} \<and> dirtied s' = dirtied s \<and>
    dwrites s' = (sector_of (log_dev s) (log_start s), h) #
      writes (log_dev s) (log_block s) (\<lambda>t. view s (log_dev s) (lh_block s t)) (nat (lh_n s)) @ dwrites s \<and>
    (\<forall>t<nat (lh_n s). view s' (log_dev s) (log_block s t) = view s (log_dev s) (lh_block s t)) \<and>
    (\<forall>b. home s b \<longrightarrow> view s' (log_dev s) b = view s (log_dev s) b) \<and> view s' (log_dev s) (log_start s) = h"
proof -
  let ?dev = "log_dev s" and ?n = "nat (lh_n s)"
  have bio: "bio_inv s" and rdy: "log_ready s" and bok: "blocks_ok s (lh_n s) (lh_block s)"
    and dirt: "dirtied s = Pair ?dev ` lh_block s ` {..<?n}"
    using inv by (auto simp: log_inv_def)
  note area = log_area[OF rdy] and bl = blocks_ok_log[OF rdy bok] and room = log_room_inv[OF inv]
  obtain s1 where w1: "write_log s = Inr s1"
    and c1: "copies s ?dev (map (\<lambda>t. (lh_block s t, log_block s t)) [0..<?n]) s1"
    using write_log_loop_ok[OF bio l log_ready_geom[OF rdy bok] room(1)] by (auto simp: write_log_def)
  note e1 = copies_writes[OF c1 bl(5,4)]
  have s1: "bio_inv s1" "bframe s s1" "locked s1 = {}"
    using copies_end[OF c1 bio l] by auto
  have d1: "dirtied s1 = dirtied s"
    using e1(2) dirt bl(5) by auto
  have "view s1 ?dev (log_start s) = view s ?dev (log_start s)"
    using bl(8) by (rule e1(4))
  then have "\<exists>s2. write_head s1 = Inr s2 \<and> bio_inv s2 \<and> bframe s1 s2 \<and> locked s2 = {} \<and>
    (\<forall>b. view s2 ?dev b = (if b = log_start s then h else view s1 ?dev b)) \<and>
    dwrites s2 = (sector_of ?dev (log_start s), h) # dwrites s1 \<and> dirtied s2 = dirtied s1 - {(?dev, log_start s)}"
    using write_head_ok[of s1] s1 area(5) avail_nonempty[OF s1(1,3)] room(2) d1
    by (simp add: bframe_log[OF s1(2)] bframe_drive_ok[OF s1(2)] h_def cong: if_cong)
  then obtain s2 where w2: "write_head s1 = Inr s2" and s2: "bio_inv s2" "bframe s1 s2" "locked s2 = {}"
    and v2: "\<forall>b. view s2 ?dev b = (if b = log_start s then h else view s1 ?dev b)"
    and dw2: "dwrites s2 = (sector_of ?dev (log_start s), h) # dwrites s1" and d2: "dirtied s2 = dirtied s1 - {(?dev, log_start s)}"
    by blast
  have "dirtied s2 = dirtied s"
    using d2 d1 dirt bl(7) by force
  moreover have "view s2 ?dev (log_block s t) = view s ?dev (lh_block s t)" if "t < ?n" for t
    using that v2 e1(3) area(3) bl(1) by auto
  moreover have "view s2 ?dev b = view s ?dev b" if "home s b" for b
    using that v2 e1(4)[of b] area(2,6) bl(1) by force
  ultimately show ?thesis
    using w1 w2 s2 bframe_trans[OF s1(2) s2(2)] dw2 e1(1) v2 by (intro exI[of _ s2]) simp
qed

lemma commit_ok:
  assumes inv: "log_inv s" and l: "locked s = {}" and n: "lh_n s > 0"
  shows "\<exists>s'. commit s = Inr s' \<and> bio_inv s' \<and> bframe (s\<lparr>lh_n := 0\<rparr>) s' \<and> locked s' = {} \<and> dirtied s' = {} \<and>
    dwrites s' = commit_writes s @ dwrites s \<and> (\<forall>b. home s b \<longrightarrow> view s' (log_dev s) b = view s (log_dev s) b)"
proof -
  let ?dev = "log_dev s" and ?n = "nat (lh_n s)"
  define h where "h = head_of (lh_n s) (lh_block s) (view s ?dev (log_start s))"
  obtain s1 where w: "bindr (write_log s) write_head = Inr s1" and s1: "bio_inv s1" "locked s1 = {}" and f: "bframe s s1"
    and d: "dirtied s1 = dirtied s" and dw: "dwrites s1 = (sector_of ?dev (log_start s), h) #
      writes ?dev (log_block s) (\<lambda>t. view s ?dev (lh_block s t)) ?n @ dwrites s"
    and v: "\<forall>t<?n. view s1 ?dev (log_block s t) = view s ?dev (lh_block s t)"
      "\<forall>b. home s b \<longrightarrow> view s1 ?dev b = view s ?dev b" "view s1 ?dev (log_start s) = h"
    using write_log_head_ok[OF inv l] unfolding h_def by blast
  have rdy: "log_ready s" and bok: "blocks_ok s (lh_n s) (lh_block s)" and dirt: "dirtied s = Pair ?dev ` lh_block s ` {..<?n}"
    using inv by (auto simp: log_inv_def)
  note bl = blocks_ok_log[OF rdy bok]
  have room: "log_room s1 (nat (lh_n s1)) 0"
    using log_room_inv(1)[OF inv] by (simp add: log_room_def bframe_log[OF f] d)
  have "log_ready s1" "blocks_ok s1 (lh_n s1) (lh_block s1)"
    using rdy bok by (simp_all add: bframe_home[OF f] bframe_log[OF f])
  from install_clear_ok[OF s1 this room] obtain s2 where
    w2: "bindr (install_trans s1) (\<lambda>s. write_head (s\<lparr>lh_n := 0\<rparr>)) = Inr s2" and
    s2: "bio_inv s2" "bframe (s1\<lparr>lh_n := 0\<rparr>) s2" "locked s2 = {}"
      "dirtied s2 = dirtied s - Pair ?dev ` lh_block s ` {..<?n} - {(?dev, log_start s)}" and
    dw2: "dwrites s2 = (sector_of ?dev (log_start s), head_of 0 (lh_block s) h) #
      writes ?dev (lh_block s) (\<lambda>t. view s1 ?dev (log_block s t)) ?n @ dwrites s1" and
    v2: "\<forall>t<?n. view s2 ?dev (lh_block s t) = view s1 ?dev (log_block s t)"
      "\<forall>b. b \<notin> lh_block s ` {..<?n} \<longrightarrow> b \<noteq> log_start s \<longrightarrow> view s2 ?dev b = view s1 ?dev b"
    by (auto simp: bframe_log[OF f] d v(3))
  have "commit s = Inr s2"
    using n w w2 by (auto simp: commit_def bindr_assoc[symmetric])
  moreover have "dwrites s2 = commit_writes s @ dwrites s"
    using writes_cong[of ?n "\<lambda>t. view s1 ?dev (log_block s t)" "\<lambda>t. view s ?dev (lh_block s t)"] v(1) dw dw2
    by (simp add: commit_writes_def Let_def h_def)
  moreover have "view s2 ?dev b = view s ?dev b" if "home s b" for b
  proof (cases "b \<in> lh_block s ` {..<?n}")
    case True
    then show ?thesis using v2(1) v(1) by auto
  next
    case False
    moreover have "b \<noteq> log_start s" using that log_area(6)[OF rdy] by auto
    ultimately show ?thesis using v2(2) v(2) that by simp
  qed
  moreover have "bframe (s\<lparr>lh_n := 0\<rparr>) s2"
  proof -
    have "bframe (s\<lparr>lh_n := 0\<rparr>) (s1\<lparr>lh_n := 0\<rparr>)"
      using f by (rule bframe_lh_n)
    then show ?thesis using s2(2) bframe_trans by blast
  qed
  ultimately show ?thesis
    using s2 dirt by (intro exI[of _ s2]) auto
qed

end
