(* ===== verification/Crash.thy ===== *)
theory Crash
  imports Log
begin

text \<open>
  Crash safety of the log.  \<open>redo\<close> says what recovery makes of a disk; a commit, wherever it is cut off,
  leaves a disk that recovers to all of the transaction or to none of it, and recovery can itself be cut
  off and run again.  The last part is the transaction interface the file system uses: \<^verbatim>\<open>log_write\<close>
  and \<^verbatim>\<open>end_op\<close>.
\<close>

section \<open>Crashes\<close>

text \<open>
  \<open>redo start D\<close> is what recovery makes of a disk \<open>D\<close> whose log starts at block \<open>start\<close>: a block
  listed in the header has the contents of its log block.  \<open>crash_disk s s' D\<close>: a crash between \<open>s\<close>
  and \<open>s'\<close> can leave the disk \<open>D\<close>, that is, some number of the writes in between were made.
\<close>

definition redo :: "uint \<Rightarrow> (uint \<Rightarrow> block) \<Rightarrow> uint \<Rightarrow> block" where
  "redo start D b =
     (case List.find (\<lambda>t. head_block (D start) t = b) [0..<nat (head_n (D start))] of
        Some t \<Rightarrow> D (start + of_nat t + 1)
      | None \<Rightarrow> D b)"

definition disk_at :: "'a log_scheme \<Rightarrow> (sector \<times> block) list \<Rightarrow> uint \<Rightarrow> block" where
  "disk_at s ws b = platter (disk0 s) ws (sector_of (log_dev s) b)"

definition crash_disk :: "'a log_scheme \<Rightarrow> 'a log_scheme \<Rightarrow> (uint \<Rightarrow> block) \<Rightarrow> bool" where
  "crash_disk s s' D \<longleftrightarrow> (\<exists>us vs. dwrites s' = us @ vs @ dwrites s \<and> D = disk_at s (vs @ dwrites s))"

lemma writes_suffix: "writes dev bl v n = us @ vs \<Longrightarrow> \<exists>m\<le>n. vs = writes dev bl v m"
proof (induction n arbitrary: us)
  case (Suc n)
  show ?case
  proof (cases us)
    case Nil
    then show ?thesis using Suc.prems by (intro exI[of _ "Suc n"]) simp
  next
    case (Cons u us')
    then have "writes dev bl v n = us' @ vs"
      using Suc.prems by (simp add: writes_Suc)
    then show ?thesis using Suc.IH le_Suc_eq by blast
  qed
qed simp

lemma install_suffix:
  assumes "h # writes dev bl v n @ ws = us @ vs @ ws"
  shows "(\<exists>m\<le>n. vs = writes dev bl v m) \<or> vs = h # writes dev bl v n"
proof (cases us)
  case Nil
  then show ?thesis using assms by simp
next
  case (Cons u us')
  then have "writes dev bl v n = us' @ vs" using assms by simp
  then show ?thesis using writes_suffix by blast
qed

lemma redo_empty: "head_n (D start) = 0 \<Longrightarrow> redo start D b = D b"
  by (simp add: redo_def)

lemma redo_listed:
  assumes "inj_on (head_block (D start)) {..<nat (head_n (D start))}" "t < nat (head_n (D start))"
  shows "redo start D (head_block (D start) t) = D (start + of_nat t + 1)"
proof -
  have "List.find (\<lambda>u. head_block (D start) u = head_block (D start) t) [0..<nat (head_n (D start))] = Some t"
    using assms by (intro find_unique) (auto dest: inj_onD)
  then show ?thesis by (simp add: redo_def)
qed

lemma redo_unlisted: "\<forall>t<nat (head_n (D start)). head_block (D start) t \<noteq> b \<Longrightarrow> redo start D b = D b"
  by (auto simp: redo_def find_None_iff split: option.splits) (auto simp: find_Some_iff)

text \<open>Writing the listed blocks to their homes does not change what recovery would make of the disk.\<close>

lemma disk_writes:
  assumes "log_dev s \<le> 1"
  shows "\<forall>t<n. bl t \<noteq> b \<Longrightarrow> disk_at s (writes (log_dev s) bl v n @ ws) b = disk_at s ws b"
    "inj_on bl {..<n} \<Longrightarrow> t < n \<Longrightarrow> disk_at s (writes (log_dev s) bl v n @ ws) (bl t) = v t"
    "disk_at s ((sector_of (log_dev s) a, h) # ws) b = (if b = a then h else disk_at s ws b)"
proof -
  have eq: "sector_of (log_dev s) x = sector_of (log_dev s) y \<longleftrightarrow> x = y" for x y
    using sector_of_eq[OF assms assms] by simp
  show "\<forall>t<n. bl t \<noteq> b \<Longrightarrow> disk_at s (writes (log_dev s) bl v n @ ws) b = disk_at s ws b"
    "disk_at s ((sector_of (log_dev s) a, h) # ws) b = (if b = a then h else disk_at s ws b)"
    by (auto simp: disk_at_def platter_writes(1) eq)
  show "inj_on bl {..<n} \<Longrightarrow> t < n \<Longrightarrow> disk_at s (writes (log_dev s) bl v n @ ws) (bl t) = v t"
    unfolding disk_at_def by (rule platter_writes(2)) (auto simp: inj_on_def eq)
qed

lemma redo_install:
  assumes rdy: "log_ready s" and D: "D = disk_at s ws" and n: "n = head_n (D (log_start s))" and bl: "bl = head_block (D (log_start s))"
    and bok: "blocks_ok s n bl" and m: "m \<le> nat n" and b: "home s b" and v: "\<forall>t<nat n. v t = D (log_block s t)"
  shows "redo (log_start s) (disk_at s (writes (log_dev s) bl v m @ ws)) b = redo (log_start s) D b"
proof -
  note bo = blocks_ok_log[OF rdy bok] and dw = disk_writes[OF log_area(8)[OF rdy]]
  define E where "E = disk_at s (writes (log_dev s) bl v m @ ws)"
  have "\<forall>t<m. bl t \<noteq> log_start s"
    using bo(7) m by (metis image_eqI lessThan_iff order_less_le_trans)
  then have "E (log_start s) = D (log_start s)"
    unfolding D E_def by (rule dw(1))
  then have hd: "head_n (E (log_start s)) = n" "head_block (E (log_start s)) = bl"
    "head_n (D (log_start s)) = n" "head_block (D (log_start s)) = bl"
    by (simp_all add: n bl)
  have log: "E (log_block s t) = D (log_block s t)" if "t < nat n" for t
    using bo(5) m that unfolding D E_def by (intro dw(1)) (metis order_less_le_trans)
  have "redo (log_start s) E b = redo (log_start s) D b"
  proof (cases "\<exists>t<nat n. bl t = b")
    case True
    then obtain t where t: "t < nat n" "bl t = b" by blast
    show ?thesis
      using redo_listed[of E "log_start s" t] redo_listed[of D "log_start s" t] t bo(3) log[OF t(1)]
      unfolding hd by (simp add: log_block_def)
  next
    case False
    then have "E b = D b"
      using m unfolding D E_def by (intro dw(1)) auto
    then show ?thesis
      using False redo_unlisted[of E "log_start s" b] redo_unlisted[of D "log_start s" b] unfolding hd by simp
  qed
  then show ?thesis by (simp add: E_def)
qed

lemma view_unlogged:
  assumes "log_inv s" "locked s = {}" "b \<notin> lh_block s ` {..<nat (lh_n s)}"
  shows "view s (log_dev s) b = dread s (log_dev s) b"
proof (rule view_clean)
  show "bio_inv s" using assms(1) by (simp add: log_inv_def)
  have "(log_dev s, b) \<notin> dirtied s"
    using assms(1,3) by (auto simp: log_inv_def)
  then show "i \<notin> locked s \<and> \<not> is_dirty (b_flags (bufs s i))" if "holds s i (log_dev s) b" for i
    using that assms(2) unfolding dirtied_def holds_def by (force intro: rev_image_eqI[of i])
qed

lemma dread_disk_at: "dread s (log_dev s) = disk_at s (dwrites s)"
  by (intro ext) (simp add: dread_def disk_at_def)

text \<open>The disk after the header of the transaction is written.\<close>

definition committed :: "'a log_scheme \<Rightarrow> uint \<Rightarrow> block" where
  "committed s = disk_at s ((sector_of (log_dev s) (log_start s), head_of (lh_n s) (lh_block s) (view s (log_dev s) (log_start s))) #
     writes (log_dev s) (log_block s) (\<lambda>t. view s (log_dev s) (lh_block s t)) (nat (lh_n s)) @ dwrites s)"

lemma log_untouched:
  assumes "log_ready s" "blocks_ok s n bl" "home s b" "m \<le> nat n"
  shows "\<forall>t<m. log_block s t \<noteq> b"
  using log_area(2)[OF assms(1)] blocks_ok_log(1)[OF assms(1,2)] assms(3,4) by (metis order_less_le_trans)

lemma committed_blocks:
  assumes inv: "log_inv s"
  shows "head_n (committed s (log_start s)) = lh_n s"
    "t < nat (lh_n s) \<Longrightarrow> head_block (committed s (log_start s)) t = lh_block s t"
    "t < nat (lh_n s) \<Longrightarrow> committed s (log_block s t) = view s (log_dev s) (lh_block s t)"
    "home s b \<Longrightarrow> committed s b = dread s (log_dev s) b"
proof -
  have rdy: "log_ready s" and bok: "blocks_ok s (lh_n s) (lh_block s)"
    using inv by (auto simp: log_inv_def)
  note bo = blocks_ok_log[OF rdy bok] and area = log_area[OF rdy] and dw = disk_writes[OF area(8)]
  show "head_n (committed s (log_start s)) = lh_n s"
    "t < nat (lh_n s) \<Longrightarrow> head_block (committed s (log_start s)) t = lh_block s t"
    using head_of_fields[of "lh_n s"] bo(9) bok by (simp_all add: committed_def dw(3) blocks_ok_def)
  show "t < nat (lh_n s) \<Longrightarrow> committed s (log_block s t) = view s (log_dev s) (lh_block s t)"
    using bo(1,4) area(3) by (simp add: committed_def dw(2,3))
  show "home s b \<Longrightarrow> committed s b = dread s (log_dev s) b"
    using area(6) dw(1)[OF log_untouched[OF rdy bok, of b, OF _ order_refl]] by (auto simp: committed_def dw(3) dread_disk_at)
qed

lemma redo_committed:
  assumes inv: "log_inv s" and l: "locked s = {}" and b: "home s b"
  shows "redo (log_start s) (committed s) b = view s (log_dev s) b"
proof -
  note c = committed_blocks[OF inv]
  have inj: "inj_on (lh_block s) {..<nat (lh_n s)}"
    using inv by (auto simp: log_inv_def blocks_ok_def)
  show ?thesis
  proof (cases "b \<in> lh_block s ` {..<nat (lh_n s)}")
    case True
    then obtain t where t: "t < nat (lh_n s)" "b = lh_block s t" by auto
    have "inj_on (head_block (committed s (log_start s))) {..<nat (lh_n s)}"
      using inj c(2) by (simp add: inj_on_def)
    then show ?thesis
      using redo_listed[of "committed s" "log_start s" t] t c by (simp add: log_block_def[symmetric])
  next
    case False
    then show ?thesis
      using redo_unlisted[of "committed s" "log_start s" b] c view_unlogged[OF inv l False] b by force
  qed
qed

lemma commit_writes_suffix:
  assumes "commit_writes s = us @ vs"
  shows "(\<exists>m\<le>nat (lh_n s). vs = writes (log_dev s) (log_block s) (\<lambda>t. view s (log_dev s) (lh_block s t)) m) \<or>
    (\<exists>m\<le>nat (lh_n s). disk_at s (vs @ dwrites s) = disk_at s (writes (log_dev s) (lh_block s) (\<lambda>t. view s (log_dev s) (lh_block s t)) m @
       (sector_of (log_dev s) (log_start s), head_of (lh_n s) (lh_block s) (view s (log_dev s) (log_start s))) #
       writes (log_dev s) (log_block s) (\<lambda>t. view s (log_dev s) (lh_block s t)) (nat (lh_n s)) @ dwrites s)) \<or>
    vs = commit_writes s"
proof (cases us)
  case Nil
  then show ?thesis using assms by simp
next
  case (Cons u us')
  define W1 where "W1 = writes (log_dev s) (log_block s) (\<lambda>t. view s (log_dev s) (lh_block s t)) (nat (lh_n s))"
  define W3 where "W3 = writes (log_dev s) (lh_block s) (\<lambda>t. view s (log_dev s) (lh_block s t)) (nat (lh_n s))"
  define H where "H = (sector_of (log_dev s) (log_start s), head_of (lh_n s) (lh_block s) (view s (log_dev s) (log_start s)))"
  have "W3 @ H # W1 = us' @ vs"
    using assms Cons by (simp add: commit_writes_def Let_def W1_def W3_def H_def)
  then consider w where "W3 = us' @ w" "vs = w @ H # W1" | w where "W1 = w @ vs"
    by (auto simp: append_eq_append_conv2 Cons_eq_append_conv)
  then show ?thesis
  proof cases
    case 1
    obtain m where "m \<le> nat (lh_n s)" "w = writes (log_dev s) (lh_block s) (\<lambda>t. view s (log_dev s) (lh_block s t)) m"
      using writes_suffix[OF 1(1)[unfolded W3_def]] by blast
    then show ?thesis
      using 1(2) by (intro disjI2 disjI1 exI[of _ m]) (simp add: H_def W1_def)
  next
    case 2
    then show ?thesis
      using writes_suffix[of _ _ _ _ w vs] unfolding W1_def by blast
  qed
qed

lemma blocks_ok_cong:
  assumes "\<And>t. t < nat n \<Longrightarrow> bl t = cl t"
  shows "blocks_ok s n bl = blocks_ok s n cl"
  using assms by (auto simp: blocks_ok_def inj_on_def)

lemma commit_crash:
  assumes inv: "log_inv s" and l: "locked s = {}" and cw: "commit_writes s = us @ vs" and D: "D = disk_at s (vs @ dwrites s)"
  shows "((\<forall>b. home s b \<longrightarrow> redo (log_start s) D b = dread s (log_dev s) b) \<or>
          (\<forall>b. home s b \<longrightarrow> redo (log_start s) D b = view s (log_dev s) b)) \<and>
         blocks_ok s (head_n (D (log_start s))) (head_block (D (log_start s)))"
proof -
  let ?dev = "log_dev s" and ?n = "nat (lh_n s)" and ?bl = "lh_block s" and ?st = "log_start s"
  let ?v = "\<lambda>t. view s ?dev (?bl t)"
  have rdy: "log_ready s" and bok: "blocks_ok s (lh_n s) ?bl" and clean: "head_n (dread s ?dev ?st) = 0"
    using inv by (auto simp: log_inv_def)
  note bo = blocks_ok_log[OF rdy bok] and area = log_area[OF rdy] and dw = disk_writes[OF area(8)] and cb = committed_blocks[OF inv]
  have none: "blocks_ok s 0 bl" for bl
    using rdy by (simp add: blocks_ok_def log_ready_def)
  from commit_writes_suffix[OF cw] show ?thesis
  proof (elim disjE exE conjE)
    fix m assume m: "m \<le> ?n" and vs: "vs = writes ?dev (log_block s) ?v m"
    have "\<forall>t<m. log_block s t \<noteq> ?st"
      using bo(8) m by (metis image_eqI lessThan_iff order_less_le_trans)
    then have "head_n (D ?st) = 0"
      using clean dw(1)[of m "log_block s" ?st] by (simp add: D vs dread_disk_at)
    moreover have "D b = dread s ?dev b" if "home s b" for b
      using dw(1)[OF log_untouched[OF rdy bok that m]] by (simp add: D vs dread_disk_at)
    ultimately show ?thesis
      using none by (simp add: redo_empty)
  next
    fix m assume m: "m \<le> ?n" and vs: "disk_at s (vs @ dwrites s) = disk_at s (writes ?dev ?bl ?v m @
       (sector_of ?dev ?st, head_of (lh_n s) ?bl (view s ?dev ?st)) # writes ?dev (log_block s) ?v ?n @ dwrites s)"
    let ?cl = "head_block (committed s ?st)"
    have w: "writes ?dev ?bl ?v m = writes ?dev ?cl ?v m"
      using m cb(2) by (intro writes_cong_bl) simp
    have cok: "blocks_ok s (lh_n s) ?cl"
      using bok blocks_ok_cong[of "lh_n s" ?cl ?bl s] cb(2) by simp
    have "\<forall>t<m. ?bl t \<noteq> ?st"
      using bo(7) m by (metis image_eqI lessThan_iff order_less_le_trans)
    from dw(1)[OF this] have "D ?st = committed s ?st"
      by (simp add: D vs committed_def)
    moreover have "redo ?st D b = view s ?dev b" if "home s b" for b
      using redo_install[OF rdy committed_def cb(1)[symmetric] refl cok m that] cb(3) redo_committed[OF inv l that]
      unfolding D vs w by simp
    ultimately show ?thesis
      using cok cb(1) by simp
  next
    assume vs: "vs = commit_writes s"
    define h where "h = head_of (lh_n s) ?bl (view s ?dev ?st)"
    have D': "D = disk_at s ((sector_of ?dev ?st, head_of 0 ?bl h) # writes ?dev ?bl ?v ?n @
         (sector_of ?dev ?st, h) # writes ?dev (log_block s) ?v ?n @ dwrites s)"
      by (simp add: D vs commit_writes_def Let_def h_def)
    then have h0: "head_n (D ?st) = 0"
      by (simp add: dw(3) head_of_fields)
    moreover have "D b = view s ?dev b" if "home s b" for b
    proof (cases "b \<in> ?bl ` {..<?n}")
      case True
      then show ?thesis using dw(2)[OF bo(3)] that area(6) by (auto simp: D' dw(3))
    next
      case False
      then have "\<forall>t<?n. ?bl t \<noteq> b" by auto
      from dw(1)[OF this] have "D b = committed s b"
        using that area(6) by (auto simp: D' dw(3) committed_def h_def)
      then show ?thesis
        using cb(4)[OF that] view_unlogged[OF inv l False] by simp
    qed
    ultimately show ?thesis
      using none by (simp add: redo_empty)
  qed
qed

section \<open>Recovery\<close>

lemma quiet_log_upd:
  assumes "quiet s t"
  shows "bio_inv t" "locked t = locked s" "dirtied t = dirtied s" "dwrites t = dwrites s" "view t = view s" "bframe s t"
  using assms by (auto simp: quiet_def)

lemma recover_ok:
  fixes r :: "'a log_scheme"
  assumes bio: "bio_inv r" and l: "locked r = {}" and d: "dirtied r = {}" and rdy: "log_ready r"
    and D: "D = dread r (log_dev r)" and bok: "blocks_ok r (head_n (D (log_start r))) (head_block (D (log_start r)))"
  shows "\<exists>r'. recover_from_log r = Inr r' \<and> bio_inv r' \<and> locked r' = {} \<and> dirtied r' = {} \<and> lh_n r' = 0 \<and>
    log_dev r' = log_dev r \<and> log_start r' = log_start r \<and> log_size r' = log_size r \<and> disk0 r' = disk0 r \<and> log_ready r' \<and>
    dwrites r' = (sector_of (log_dev r) (log_start r), head_of 0 (lh_block r') (D (log_start r))) #
      writes (log_dev r) (head_block (D (log_start r))) (\<lambda>t. D (log_block r t)) (nat (head_n (D (log_start r)))) @ dwrites r"
proof -
  let ?dev = "log_dev r" and ?st = "log_start r"
  define n where "n = head_n (D ?st)"
  define bl where "bl = (\<lambda>i. if int i < n then head_block (D ?st) i else lh_block r i)"
  have v: "view r ?dev b = D b" for b
    unfolding D by (rule view_clean[OF bio]) (use l d in \<open>auto simp: dirtied_def holds_def\<close>)
  note area = log_area[OF rdy]
  have n: "0 \<le> n" "n < log_size r" "n \<le> int LOGSIZE"
    using bok rdy by (auto simp: n_def blocks_ok_def log_ready_def)
  have bok': "blocks_ok r n bl"
    using bok by (subst blocks_ok_cong[of n bl "head_block (D ?st)" r]) (auto simp: n_def bl_def)
  have "avail r \<noteq> {}"
    using avail_nonempty[OF bio l] d by simp
  then have "can_read r ?dev ?st"
    using area(5) l by (simp add: can_read_def)
  then obtain t where q: "quiet r t" and rh: "read_head r = Inr (t\<lparr>lh_n := n, lh_block := bl\<rparr>)"
    using read_head_ok[OF bio, unfolded v] n(3) by (auto simp: n_def bl_def)
  note qt = quiet_log_upd[OF q]
  let ?t = "t\<lparr>lh_n := n, lh_block := bl\<rparr>"
  have f: "log_dev ?t = ?dev" "log_start ?t = ?st" "log_block ?t = log_block r"
    by (simp_all add: bframe_log[OF qt(6)])
  have "\<exists>s'. bindr (install_trans ?t) (\<lambda>s. write_head (s\<lparr>lh_n := 0\<rparr>)) = Inr s' \<and> bio_inv s' \<and> bframe (?t\<lparr>lh_n := 0\<rparr>) s' \<and>
    locked s' = {} \<and> dirtied s' = dirtied ?t - Pair ?dev ` lh_block ?t ` {..<nat (lh_n ?t)} - {(?dev, ?st)} \<and>
    dwrites s' = (sector_of ?dev ?st, head_of 0 (lh_block ?t) (view ?t ?dev ?st)) #
      writes ?dev (lh_block ?t) (\<lambda>u. view ?t ?dev (log_block ?t u)) (nat (lh_n ?t)) @ dwrites ?t"
    using install_clear_ok[of ?t] qt l d rdy bok'
    by (simp add: bframe_home[OF qt(6)] f log_room_def) blast
  then obtain r' where w: "bindr (install_trans ?t) (\<lambda>s. write_head (s\<lparr>lh_n := 0\<rparr>)) = Inr r'" and r': "bio_inv r'" "locked r' = {}"
    and fr: "bframe (?t\<lparr>lh_n := 0\<rparr>) r'" and dr: "dirtied r' = {}"
    and dw: "dwrites r' = (sector_of ?dev ?st, head_of 0 bl (D ?st)) # writes ?dev bl (\<lambda>t. D (log_block r t)) (nat n) @ dwrites r"
    using qt d by (auto simp: v f bframe_log(9)[OF qt(6)])
  have "writes ?dev bl (\<lambda>t. D (log_block r t)) (nat n) = writes ?dev (head_block (D ?st)) (\<lambda>t. D (log_block r t)) (nat n)"
    by (rule writes_cong_bl) (auto simp: bl_def)
  moreover have "recover_from_log r = Inr r'"
    using w rh by (simp add: recover_from_log_def)
  moreover have "lh_block r' = bl" "lh_n r' = 0" "log_dev r' = ?dev" "log_start r' = ?st" "log_size r' = log_size r" "disk0 r' = disk0 r" "log_ready r'"
    using rdy by (simp_all add: bframe_log[OF fr] bframe_log[OF qt(6)] bframe_same[OF fr] bframe_same[OF qt(6)] bframe_home[OF fr] bframe_home[OF qt(6)])
  ultimately show ?thesis
    using r' dr dw unfolding n_def by (intro exI[of _ r']) simp
qed

lemma recover_result:
  fixes r :: "'a log_scheme"
  assumes bio: "bio_inv r" and l: "locked r = {}" and d: "dirtied r = {}" and rdy: "log_ready r"
    and D: "D = dread r (log_dev r)" and bok: "blocks_ok r (head_n (D (log_start r))) (head_block (D (log_start r)))"
    and rec: "recover_from_log r = Inr r'"
  shows "log_inv r'" "locked r' = {}" "lh_n r' = 0" "home r b \<Longrightarrow> dread r' (log_dev r) b = redo (log_start r) D b"
    "crash_disk r r' E \<Longrightarrow> blocks_ok r (head_n (E (log_start r))) (head_block (E (log_start r)))"
    "crash_disk r r' E \<Longrightarrow> home r b \<Longrightarrow> redo (log_start r) E b = redo (log_start r) D b"
proof -
  let ?dev = "log_dev r" and ?st = "log_start r" and ?n = "nat (head_n (D (log_start r)))" and ?bl = "head_block (D (log_start r))"
  let ?v = "\<lambda>t. D (log_block r t)"
  note ok = recover_ok[OF bio l d rdy D bok]
  define h where "h = head_of 0 (lh_block r') (D ?st)"
  have r': "bio_inv r'" "locked r' = {}" "dirtied r' = {}" "lh_n r' = 0" "log_dev r' = ?dev" "log_start r' = ?st" "log_size r' = log_size r"
    "disk0 r' = disk0 r" "log_ready r'" and dw: "dwrites r' = (sector_of ?dev ?st, h) # writes ?dev ?bl ?v ?n @ dwrites r"
    using ok rec by (auto simp: h_def)
  note area = log_area[OF rdy] and bo = blocks_ok_log[OF rdy bok] and dk = disk_writes[OF log_area(8)[OF rdy]]
  have D': "D = disk_at r (dwrites r)" by (simp add: D dread_disk_at)
  have disk: "dread r' ?dev = disk_at r (dwrites r')"
    using r'(8) by (intro ext) (simp add: dread_def disk_at_def)
  have h0: "head_n h = 0" by (simp add: h_def head_of_fields)
  have none: "blocks_ok r 0 bl" for bl
    using rdy by (simp add: blocks_ok_def log_ready_def)
  show "locked r' = {}" "lh_n r' = 0" by (rule r'(2), rule r'(4))
  have "head_n (dread r' (log_dev r') (log_start r')) = 0"
    unfolding r'(5,6) disk dw by (simp add: dk(3) h0)
  then show "log_inv r'"
    using r' by (simp add: log_inv_def blocks_ok_def log_ready_def)
  have full: "disk_at r ((sector_of ?dev ?st, h) # writes ?dev ?bl ?v ?n @ dwrites r) b = redo ?st D b" if "home r b" for b
  proof (cases "b \<in> ?bl ` {..<?n}")
    case True
    then obtain t where t: "t < ?n" "b = ?bl t" by auto
    then show ?thesis
      using dk(2)[OF bo(3)] that area(6) redo_listed[of D ?st t] bo(3) by (auto simp: dk(3) log_block_def)
  next
    case False
    then have *: "\<forall>t<?n. ?bl t \<noteq> b" by auto
    then show ?thesis
      using dk(1)[OF *] redo_unlisted[of D ?st b] * that area(6) by (auto simp: dk(3) D'[symmetric])
  qed
  then show "home r b \<Longrightarrow> dread r' ?dev b = redo ?st D b"
    unfolding disk dw by simp
  assume "crash_disk r r' E"
  then obtain us vs where "(sector_of ?dev ?st, h) # writes ?dev ?bl ?v ?n @ dwrites r = us @ vs @ dwrites r" and E: "E = disk_at r (vs @ dwrites r)"
    by (auto simp: crash_disk_def dw)
  from install_suffix[OF this(1)]
  have "(\<forall>b. home r b \<longrightarrow> redo ?st E b = redo ?st D b) \<and> blocks_ok r (head_n (E ?st)) (head_block (E ?st))"
  proof (elim disjE exE conjE)
    fix m assume m: "m \<le> ?n" and vs: "vs = writes ?dev ?bl ?v m"
    have "\<forall>t<m. ?bl t \<noteq> ?st"
      using bo(7) m by (metis image_eqI lessThan_iff order_less_le_trans)
    from dk(1)[OF this] have "E ?st = D ?st"
      by (simp add: E vs D')
    then show ?thesis
      using redo_install[OF rdy D' refl refl bok m, of _ ?v] bok by (simp add: E vs)
  next
    assume vs: "vs = (sector_of ?dev ?st, h) # writes ?dev ?bl ?v ?n"
    then have "head_n (E ?st) = 0" by (simp add: E dk(3) h0)
    then show ?thesis
      using full none redo_empty[of E ?st] by (simp add: E vs)
  qed
  then show "blocks_ok r (head_n (E ?st)) (head_block (E ?st))" "home r b \<Longrightarrow> redo ?st E b = redo ?st D b"
    by auto
qed

section \<open>Transactions\<close>

lemma log_slot_spec:
  "i \<le> log_slot bl b k i \<and> log_slot bl b k i \<le> i + k \<and> (log_slot bl b k i < i + k \<longrightarrow> bl (log_slot bl b k i) = b) \<and>
   (\<forall>u. i \<le> u \<and> u < log_slot bl b k i \<longrightarrow> bl u \<noteq> b)"
proof (induction k arbitrary: i)
  case (Suc k)
  show ?case
  proof (cases "bl i = b")
    case False
    have "bl u \<noteq> b" if "i \<le> u" "u < log_slot bl b k (Suc i)" for u
      using that False Suc.IH[of "Suc i"] by (cases "u = i") auto
    then show ?thesis using False Suc.IH[of "Suc i"] by auto
  qed auto
qed auto

lemma log_inv_bframe:
  fixes s :: "'a log_scheme"
  assumes "log_inv s" "bio_inv s'" "bframe s s'" "dirtied s' = dirtied s" "dread s' = dread s"
  shows "log_inv s'"
  using assms unfolding log_inv_def by (simp add: bframe_log[OF assms(3)] bframe_home[OF assms(3)])

text \<open>
  \<^verbatim>\<open>log_write\<close> of a locked buffer records its block once, marks the buffer dirty and changes no
  contents.
\<close>

lemma log_write_ok:
  assumes inv: "log_inv s" and i: "i \<in> locked s" and k: "key s i = (log_dev s, b)" and h: "home s b"
    and o: "outstanding s \<ge> 1" and n: "lh_n s < log_size s - 1"
  shows "\<exists>s'. log_write i s = Inr s' \<and> log_inv s' \<and> view s' = view s \<and> dread s' = dread s \<and> locked s' = locked s \<and>
    avail s' = avail s \<and> dwrites s' = dwrites s \<and> outstanding s' = outstanding s \<and> committing s' = committing s \<and>
    log_dev s' = log_dev s \<and> log_start s' = log_start s \<and> log_size s' = log_size s \<and> disk0 s' = disk0 s \<and>
    lh_block s' ` {..<nat (lh_n s')} = insert b (lh_block s ` {..<nat (lh_n s)}) \<and>
    lh_n s' = (if b \<in> lh_block s ` {..<nat (lh_n s)} then lh_n s else lh_n s + 1) \<and> bufs s' = bufs (mark_dirty i s)"
proof -
  have bio: "bio_inv s" and rdy: "log_ready s" and bok: "blocks_ok s (lh_n s) (lh_block s)"
    and dirt: "dirtied s = Pair (log_dev s) ` lh_block s ` {..<nat (lh_n s)}" and cl: "head_n (dread s (log_dev s) (log_start s)) = 0"
    using inv by (auto simp: log_inv_def)
  have n0: "0 \<le> lh_n s" "lh_n s < int LOGSIZE"
    using bok rdy n by (auto simp: blocks_ok_def log_ready_def)
  define j where "j = log_slot (lh_block s) b (nat (lh_n s)) 0"
  have j: "j \<le> nat (lh_n s)" "j < nat (lh_n s) \<Longrightarrow> lh_block s j = b" "u < j \<Longrightarrow> lh_block s u \<noteq> b" for u
    using log_slot_spec[of 0 "lh_block s" b "nat (lh_n s)"] by (auto simp: j_def)
  define m where "m = (if int j = lh_n s then lh_n s + 1 else lh_n s)"
  define bl where "bl = (lh_block s)(j := b)"
  define s' where "s' = mark_dirty i (s\<lparr>lh_block := bl, lh_n := m\<rparr>)"
  have "s\<lparr>lh_block := bl\<rparr> = s\<lparr>lh_block := bl, lh_n := lh_n s\<rparr>" by simp
  then have ret: "log_write i s = Inr s'"
    using n n0 o k by (auto simp: log_write_def Let_def s'_def bl_def m_def j_def)
  have img: "bl ` {..<nat m} = insert b (lh_block s ` {..<nat (lh_n s)})"
  proof (cases "j < nat (lh_n s)")
    case True
    then have "bl = lh_block s" "m = lh_n s" "b \<in> lh_block s ` {..<nat (lh_n s)}"
      using j by (auto simp: bl_def m_def)
    then show ?thesis by auto
  next
    case False
    then have "j = nat (lh_n s)" "nat m = Suc (nat (lh_n s))"
      using j(1) n0 by (auto simp: m_def)
    then show ?thesis by (auto simp: bl_def lessThan_Suc)
  qed
  have m: "m = (if b \<in> lh_block s ` {..<nat (lh_n s)} then lh_n s else lh_n s + 1)"
  proof (cases "j < nat (lh_n s)")
    case True
    then have "b \<in> lh_block s ` {..<nat (lh_n s)}" using j(2) by (intro rev_image_eqI[of j]) auto
    then show ?thesis using True by (auto simp: m_def)
  next
    case False
    then have "int j = lh_n s" "b \<notin> lh_block s ` {..<nat (lh_n s)}" using j(1,3) n0 by auto
    then show ?thesis by (simp add: m_def)
  qed
  have inj: "inj_on bl {..<nat m}"
  proof (cases "j < nat (lh_n s)")
    case True
    then have "bl = lh_block s" "m = lh_n s" using j by (auto simp: bl_def m_def)
    then show ?thesis using bok by (simp add: blocks_ok_def)
  next
    case False
    then have j': "j = nat (lh_n s)" "nat m = Suc j" using j(1) n0 by (auto simp: m_def)
    have "inj_on (lh_block s) {..<j}" using bok j'(1) by (simp add: blocks_ok_def)
    moreover have "b \<notin> lh_block s ` {..<j}" using j(3) by auto
    ultimately show ?thesis
      unfolding bl_def j'(2) lessThan_Suc by (simp add: inj_on_fun_updI)
  qed
  have "blocks_ok s m bl"
    using bok h n n0 inj img by (auto simp: blocks_ok_def m_def bl_def)
  moreover have e: "edited s i (mark_dirty i s)" "dirtied (mark_dirty i s) = insert (key s i) (dirtied s)" "dread (mark_dirty i s) = dread s"
    using edited_dirty[OF bio i] by simp_all
  have "bufs s' = bufs (mark_dirty i s)" "disk0 s' = disk0 (mark_dirty i s)" "dwrites s' = dwrites (mark_dirty i s)"
    "idequeue s' = idequeue (mark_dirty i s)" by (simp_all add: s'_def upd_buf_def)
  note c = ide_cong[OF this(1,4,2,3)]
  have "view (mark_dirty i s) = view s"
    by (rule view_cong[OF _ e(3)]) (auto simp: upd_buf_def)
  note ek = edited_keys[OF e(1)]
  have f: "lh_n s' = m" "lh_block s' = bl" "log_dev s' = log_dev s" "log_start s' = log_start s" "log_size s' = log_size s"
    "outstanding s' = outstanding s" "committing s' = committing s" "dwrites s' = dwrites s" "disk0 s' = disk0 s"
    "home s' = home s" "log_ready s' = log_ready s" "blocks_ok s' = blocks_ok s"
    by (simp_all add: s'_def upd_buf_def home_def log_ready_def blocks_ok_def drive_ok_def fun_eq_iff)
  ultimately have "log_inv s'"
    unfolding log_inv_def c(1) c(5) c(6) f using edited_inv[OF e(1)] rdy e(2,3) k dirt img cl by auto
  then show ?thesis
    using ret c f img m \<open>view (mark_dirty i s) = view s\<close> e(3) ek(2,3) \<open>bufs s' = _\<close> by (intro exI[of _ s']) simp
qed

lemma commit_result:
  assumes inv: "log_inv s" and l: "locked s = {}"
  shows "\<exists>s'. commit s = Inr s' \<and> log_inv s' \<and> locked s' = {} \<and> lh_n s' = 0 \<and> bframe (s\<lparr>lh_n := 0\<rparr>) s' \<and>
    (\<forall>b. home s b \<longrightarrow> view s' (log_dev s) b = view s (log_dev s) b \<and> dread s' (log_dev s) b = view s (log_dev s) b)"
proof (cases "lh_n s > 0")
  case True
  obtain s' where c: "commit s = Inr s'" "bio_inv s'" and f: "bframe (s\<lparr>lh_n := 0\<rparr>) s'" and s': "locked s' = {}" "dirtied s' = {}"
    and dw: "dwrites s' = commit_writes s @ dwrites s" and v: "\<forall>b. home s b \<longrightarrow> view s' (log_dev s) b = view s (log_dev s) b"
    using commit_ok[OF inv l True] by blast
  have rdy: "log_ready s" using inv by (simp add: log_inv_def)
  note area = log_area[OF rdy] and dk = disk_writes[OF log_area(8)[OF rdy]]
  have eq: "log_dev s' = log_dev s" "log_start s' = log_start s" "lh_n s' = 0" "log_ready s'" "log_size s' = log_size s" "disk0 s' = disk0 s"
    using rdy by (simp_all add: bframe_log[OF f] bframe_home[OF f] bframe_same[OF f])
  have disk: "dread s' (log_dev s) = disk_at s (commit_writes s @ dwrites s)"
    by (intro ext) (simp add: dread_def disk_at_def dw eq)
  have "dread s' (log_dev s) (log_start s) = head_of 0 (lh_block s) (head_of (lh_n s) (lh_block s) (view s (log_dev s) (log_start s)))"
    unfolding disk by (simp add: commit_writes_def Let_def dk(3))
  then have "head_n (dread s' (log_dev s') (log_start s')) = 0"
    by (simp add: eq head_of_fields)
  then have "log_inv s'"
    using c(2) s'(2) rdy eq by (simp add: log_inv_def blocks_ok_def log_ready_def)
  moreover have "dread s' (log_dev s) b = view s' (log_dev s) b" if "home s b" for b
    using view_unlogged[of s' b] \<open>log_inv s'\<close> s'(1) eq by simp
  ultimately show ?thesis
    using c f s' eq v by (intro exI[of _ s']) simp
next
  case False
  then have n: "lh_n s = 0" using inv by (simp add: log_inv_def blocks_ok_def)
  then have "s\<lparr>lh_n := 0\<rparr> = s" by simp
  then have "bframe (s\<lparr>lh_n := 0\<rparr>) s" using bframe_refl[of s] by metis
  then show ?thesis
    using inv l n view_unlogged[OF inv l] by (intro exI[of _ s]) (simp add: commit_def)
qed

lemma log_inv_flags [simp]: "log_inv (outstanding_update f s) = log_inv s" "log_inv (committing_update g s) = log_inv s"
  by (simp_all add: log_inv_def)

lemma bframe_wakeup: "bframe s (wakeup ch s)"
  using bframeI[where s = s and ps = "woken ch (procs s)" and bs = "bufs s" and ws = "dwrites s"] by (simp add: wakeup_eq)

lemma wakeup_log [simp]:
  fixes s :: "'a log_scheme"
  shows "bio_inv (wakeup ch s) = bio_inv s" "view (wakeup ch s) = view s" "locked (wakeup ch s) = locked s"
    "dirtied (wakeup ch s) = dirtied s" "dread (wakeup ch s) = dread s" "avail (wakeup ch s) = avail s" "log_inv (wakeup ch s) = log_inv s"
proof -
  have "bufs (wakeup ch s) = bufs s" "idequeue (wakeup ch s) = idequeue s" "disk0 (wakeup ch s) = disk0 s" "dwrites (wakeup ch s) = dwrites s"
    by (simp_all add: wakeup_eq)
  note c = ide_cong[OF this]
  show *: "bio_inv (wakeup ch s) = bio_inv s" "view (wakeup ch s) = view s" "locked (wakeup ch s) = locked s"
    "dirtied (wakeup ch s) = dirtied s" "dread (wakeup ch s) = dread s" "avail (wakeup ch s) = avail s"
    by (rule c)+
  show "log_inv (wakeup ch s) = log_inv s"
    using * bframe_log[OF bframe_wakeup[of s ch]] bframe_home[OF bframe_wakeup[of s ch]] by (simp add: log_inv_def)
qed

lemma end_op_last:
  assumes inv: "log_inv s" and l: "locked s = {}" and o: "outstanding s = 1" "\<not> committing s"
  shows "\<exists>s'. end_op s = Inr s' \<and> log_inv s' \<and> locked s' = {} \<and> lh_n s' = 0 \<and> outstanding s' = 0 \<and> \<not> committing s' \<and>
    log_dev s' = log_dev s \<and> home s' = home s \<and>
    (\<forall>b. home s b \<longrightarrow> view s' (log_dev s) b = view s (log_dev s) b \<and> dread s' (log_dev s) b = view s (log_dev s) b)"
proof -
  let ?s = "s\<lparr>outstanding := 0, committing := True\<rparr>"
  have "log_inv ?s" "locked ?s = {}" using inv l by simp_all
  from commit_result[OF this] obtain t where t: "commit ?s = Inr t" "log_inv t" "locked t = {}" "lh_n t = 0" "bframe (?s\<lparr>lh_n := 0\<rparr>) t"
    and v: "\<forall>b. home s b \<longrightarrow> view t (log_dev s) b = view s (log_dev s) b \<and> dread t (log_dev s) b = view s (log_dev s) b"
    by auto
  let ?t = "wakeup ChanLog (t\<lparr>committing := False\<rparr>)"
  have "end_op s = Inr ?t"
    using t(1) o by (simp add: end_op_def)
  moreover have "log_inv ?t" "locked ?t = {}" "view ?t = view t" "dread ?t = dread t"
    using t by simp_all
  moreover have "lh_n ?t = 0" "outstanding ?t = 0" "\<not> committing ?t" "log_dev ?t = log_dev s" "home ?t = home s"
    using t(4) bframe_log[OF t(5)] bframe_home[OF t(5)] bframe_log[OF bframe_wakeup[of "t\<lparr>committing := False\<rparr>" ChanLog]]
      bframe_home[OF bframe_wakeup[of "t\<lparr>committing := False\<rparr>" ChanLog]] by simp_all
  ultimately show ?thesis using v by (intro exI[of _ ?t]) simp
qed

section \<open>Updating a block in a transaction\<close>

text \<open>
  \<open>lframe s s'\<close>: only buffers, the in-memory header and who is runnable have changed.  \<open>logged s\<close> is
  the set of blocks of the current transaction.
\<close>

definition lframe :: "'a log_scheme \<Rightarrow> 'a log_scheme \<Rightarrow> bool" where
  "lframe s s' \<longleftrightarrow> (\<exists>ps bs n bl. same_procs (procs s) ps \<and> s' = s\<lparr>procs := ps, bufs := bs, lh_n := n, lh_block := bl\<rparr>)"

definition logged :: "'a log_scheme \<Rightarrow> uint set" where
  "logged s = lh_block s ` {..<nat (lh_n s)}"

lemma lframeI: "same_procs (procs s) ps \<Longrightarrow> lframe s (s\<lparr>procs := ps, bufs := bs, lh_n := n, lh_block := bl\<rparr>)"
  by (auto simp: lframe_def)

lemma lframe_trans [trans]: "lframe s t \<Longrightarrow> lframe t u \<Longrightarrow> lframe s u"
  by (auto simp: lframe_def[of s t] lframe_def[of t u] intro!: lframeI intro: same_procs_trans)

lemma lframe_refl [simp, intro]: "lframe s s"
  using lframeI[where s = s and ps = "procs s" and bs = "bufs s" and n = "lh_n s" and bl = "lh_block s"] by simp

lemma lframe_same:
  assumes "lframe s s'"
  shows "cur s' = cur s" "disk0 s' = disk0 s" "havedisk1 s' = havedisk1 s" "ideerr s' = ideerr s" "dwrites s' = dwrites s"
    "idequeue s' = idequeue s" "log.more s' = log.more s" "mem s' = mem s" "freelist s' = freelist s" "kend s' = kend s"
    "log_dev s' = log_dev s" "log_start s' = log_start s" "log_size s' = log_size s" "outstanding s' = outstanding s"
    "committing s' = committing s" "holdingsleep lk s' = holdingsleep lk s" "p_pid (myproc s') = p_pid (myproc s)"
    "home s' = home s" "drive_ok s' = drive_ok s" "dread s' = dread s" "log_ready s' = log_ready s"
proof -
  obtain ps bs n bl where eq: "s' = s\<lparr>procs := ps, bufs := bs, lh_n := n, lh_block := bl\<rparr>" and sp: "same_procs (procs s) ps"
    using assms by (auto simp: lframe_def)
  show "cur s' = cur s" "disk0 s' = disk0 s" "havedisk1 s' = havedisk1 s" "ideerr s' = ideerr s" "dwrites s' = dwrites s"
    "idequeue s' = idequeue s" "log.more s' = log.more s" "mem s' = mem s" "freelist s' = freelist s" "kend s' = kend s"
    "log_dev s' = log_dev s" "log_start s' = log_start s" "log_size s' = log_size s" "outstanding s' = outstanding s"
    "committing s' = committing s"
    by (simp_all add: eq)
  show pid: "p_pid (myproc s') = p_pid (myproc s)"
    by (simp add: myproc_def eq same_procs_pid[OF sp])
  show "holdingsleep lk s' = holdingsleep lk s"
    by (simp add: holdingsleep_def pid)
  show "home s' = home s" "drive_ok s' = drive_ok s" "log_ready s' = log_ready s" "dread s' = dread s"
    by (simp_all add: eq home_def[abs_def] drive_ok_def[abs_def] log_ready_def dread_def[abs_def])
qed

lemma bframe_lframe:
  fixes s :: "'a log_scheme"
  assumes "bframe s s'" "dwrites s' = dwrites s"
  shows "lframe s s'"
proof -
  obtain ps bs ws where "s' = s\<lparr>procs := ps, bufs := bs, dwrites := ws\<rparr>" "same_procs (procs s) ps"
    using assms(1) by (auto simp: bframe_def)
  moreover from this assms(2) have "s' = s\<lparr>procs := ps, bufs := bs, lh_n := lh_n s, lh_block := lh_block s\<rparr>"
    by simp
  ultimately show ?thesis
    using lframeI[where s = s and ps = ps and bs = bs and n = "lh_n s" and bl = "lh_block s"] by simp
qed

lemma card_logged: "log_inv s \<Longrightarrow> int (card (logged s)) = lh_n s"
  by (simp add: logged_def log_inv_def blocks_ok_def card_image)

lemma lframe_mark_dirty: "lframe s (mark_dirty i (s\<lparr>lh_block := bl, lh_n := n\<rparr>))"
proof -
  have "mark_dirty i (s\<lparr>lh_block := bl, lh_n := n\<rparr>) = s\<lparr>procs := procs s, bufs := bufs (mark_dirty i s), lh_n := n, lh_block := bl\<rparr>"
    by (simp add: upd_buf_def)
  also have "lframe s \<dots>" by (rule lframeI) simp
  finally show ?thesis .
qed

lemma log_write_lframe:
  assumes "log_write i s = Inr s'"
  shows "lframe s s'"
proof -
  define j where "j = log_slot (lh_block s) (b_blockno (bufs s i)) (nat (lh_n s)) 0"
  define bl where "bl = (lh_block s)(j := b_blockno (bufs s i))"
  have "s\<lparr>lh_block := bl\<rparr> = s\<lparr>lh_block := bl, lh_n := lh_n s\<rparr>" by simp
  then have "s' = mark_dirty i (s\<lparr>lh_block := bl, lh_n := if int j = lh_n s then lh_n s + 1 else lh_n s\<rparr>)"
    using assms by (auto simp: log_write_def Let_def bl_def j_def split: if_splits)
  then show ?thesis by (simp only: lframe_mark_dirty)
qed

text \<open>
  The pattern \<^verbatim>\<open>bp = bread(...); modify bp->data; log_write(bp); brelse(bp)\<close>: the block has its new
  contents, nothing else is different, and the log has the block.
\<close>

definition wrote :: "'a log_scheme \<Rightarrow> uint \<Rightarrow> block \<Rightarrow> 'a log_scheme \<Rightarrow> bool" where
  "wrote s b v s' \<longleftrightarrow> log_inv s' \<and> lframe s s' \<and> locked s' = locked s \<and> logged s' = insert b (logged s) \<and>
     view s' (log_dev s) = (view s (log_dev s))(b := v) \<and>
     (\<forall>j\<in>locked s. key s' j = key s j \<and> b_flags (bufs s' j) = b_flags (bufs s j) \<and> b_data (bufs s' j) = b_data (bufs s j) \<and>
        b_lock (bufs s' j) = b_lock (bufs s j)) \<and>
     avail s' \<subseteq> avail s \<and> card (avail s) \<le> card (avail s') + (if b \<in> logged s then 0 else 1)"

lemma txn_update:
  assumes inv: "log_inv s" and can: "can_read s (log_dev s) b" and h: "home s b" and o: "outstanding s \<ge> 1"
    and n: "lh_n s < log_size s - 1"
  shows "\<exists>i s1 s2 s3. bread (log_dev s) b s = Inr (i, s1) \<and> b_data (bufs s1 i) = view s (log_dev s) b \<and> i \<notin> locked s \<and>
    log_write i (upd_buf i (b_data_update f) s1) = Inr s2 \<and> brelse i s2 = Inr s3 \<and> wrote s b (f (view s (log_dev s) b)) s3"
proof -
  let ?dev = "log_dev s"
  have bio: "bio_inv s" and dev: "?dev \<le> 1"
    using inv log_area(8)[of s] by (auto simp: log_inv_def)
  obtain i s1 where r: "bread ?dev b s = Inr (i, s1)" and t: "took s ?dev b i s1"
    using bread_ok[OF bio can] by blast
  note tb = took_buf[OF t] and th = took_hold[OF t] and ts = took_sets[OF t]
  note f1 = bframe_log[OF tb(5)]
  let ?s = "upd_buf i (b_data_update f) s1"
  note e = edited_data[OF th(1,2), of f]
  note ek = edited_keys[OF e(1)] and fe = bframe_log[OF edited_keys(4)[OF e(1)]]
  have inv1: "log_inv ?s"
    by (rule log_inv_bframe[OF log_inv_bframe[OF inv th(1) tb(5) ts(2) tb(7)] edited_inv[OF e(1)] ek(4) e(2) e(3)])
  have pre: "i \<in> locked ?s" "key ?s i = (log_dev ?s, b)" "home ?s b" "outstanding ?s \<ge> 1" "lh_n ?s < log_size ?s - 1"
    using th(2,5) ek(2,7) h o n f1 fe bframe_home[OF ek(4)] bframe_home[OF tb(5)] by simp_all
  obtain s2 where w: "log_write i ?s = Inr s2" and s2: "log_inv s2" "view s2 = view ?s" "dread s2 = dread ?s" "locked s2 = locked ?s"
    "avail s2 = avail ?s" "lh_block s2 ` {..<nat (lh_n s2)} = insert b (lh_block ?s ` {..<nat (lh_n ?s)})" "bufs s2 = bufs (mark_dirty i ?s)"
    using log_write_ok[OF inv1 pre] by blast
  have lf: "lframe s s2"
    using lframe_trans[OF bframe_lframe[OF tb(5,6)] lframe_trans[OF bframe_lframe[OF ek(4)] log_write_lframe[OF w]]]
    by (simp add: upd_buf_def)
  have bi: "is_dirty (b_flags (bufs s2 i))" "b_lock (bufs s2 i) = b_lock (bufs s1 i)" "j \<noteq> i \<Longrightarrow> bufs s2 j = bufs s j" for j
    using tb(4)[of j] by (simp_all add: s2(7) upd_buf_def)
  have "\<exists>s3. brelse i s2 = Inr s3 \<and> released s2 i s3"
    using s2(1,4) ek(2) th(2,4) bi lframe_same(16)[OF lf] bframe_same(9)[OF tb(5)]
    by (intro brelse_ok) (auto simp: log_inv_def)
  then obtain s3 where r3: "brelse i s2 = Inr s3" and rel: "released s2 i s3" by blast
  have f3: "bframe s2 s3" "dwrites s3 = dwrites s2" and s3: "bio_inv s3" "view s3 = view s2" "locked s3 = locked s2 - {i}"
    "dirtied s3 = dirtied s2" "avail s3 = avail s2" "j \<noteq> i \<Longrightarrow> b_lock (bufs s3 j) = b_lock (bufs s2 j)"
    "key s3 j = key s2 j \<and> b_flags (bufs s3 j) = b_flags (bufs s2 j) \<and> b_data (bufs s3 j) = b_data (bufs s2 j)" for j
    using rel bi(1) by (auto simp: released_def)
  have "dread s3 = dread s2"
    using f3 bframe_same(2)[OF f3(1)] by (intro dread_cong) simp_all
  then have inv3: "log_inv s3" using log_inv_bframe[OF s2(1) s3(1) f3(1) s3(4)] by simp
  have lk: "locked s3 = locked s" using s3(3) s2(4) ek(2) ts(1) th(3) by auto
  have lg: "logged s3 = insert b (logged s)"
    using s2(6) f1 fe bframe_log[OF f3(1)] by (simp add: logged_def)
  have "view s3 ?dev x = ((view s ?dev)(b := f (view s ?dev b))) x" for x
    using edited_view[OF e(1) dev, of x] th(5) tb(3) took_view[OF t] by (simp add: s3(2) s2(2) upd_buf_def)
  then have vw: "view s3 ?dev = (view s ?dev)(b := f (view s ?dev b))" by blast
  have av: "avail s3 = avail s - {i}" using s3(5) s2(5) ek(3) ts(3) by simp
  have "i \<in> avail s \<Longrightarrow> b \<notin> logged s"
  proof
    assume "i \<in> avail s" "b \<in> logged s"
    then have "(?dev, b) \<in> dirtied s" using inv by (auto simp: log_inv_def logged_def)
    then obtain j where j: "j < NBUF" "is_dirty (b_flags (bufs s j))" "key s j = (?dev, b)" by (auto simp: dirtied_def)
    have "holds s i ?dev b"
      using tb(1) j by (auto simp: taken_def holds_def)
    then have "j = i" using j bio_inv_ok[OF bio j(1)] key_unique[OF bio j(1), of i]
      by (auto simp: holds_def buf_ok_def Let_def)
    then show False using j(2) \<open>i \<in> avail s\<close> by (simp add: avail_def)
  qed
  then have cd: "card (avail s) \<le> card (avail s3) + (if b \<in> logged s then 0 else 1)"
    unfolding av by (auto simp: card_Diff_singleton_if avail_def)
  have "wrote s b (f (view s ?dev b)) s3"
    unfolding wrote_def using inv3 lframe_trans[OF lf bframe_lframe[OF f3]] lk lg vw cd av bi(3) s3(6,7) th(3)
    by (auto simp del: split_paired_All) metis+
  then show ?thesis using r tb(3) th(3) w r3 by blast
qed

section \<open>A machine that has just started\<close>

lemma bio_inv_binit:
  assumes "\<And>i. i < NBUF \<Longrightarrow> b_flags (bufs s i) = 0 \<and> b_dev (bufs s i) = 0 \<and> b_blockno (bufs s i) = 0 \<and> b_refcnt (bufs s i) = 0"
    and "idequeue s = []"
  shows "bio_inv (binit s)" "locked (binit s) = {}" "dirtied (binit s) = {}" "dwrites (binit s) = dwrites s" "disk0 (binit s) = disk0 s"
proof -
  have f: "b_flags (bufs (binit s) i) = 0" "b_dev (bufs (binit s) i) = 0" "b_blockno (bufs (binit s) i) = 0"
    "b_refcnt (bufs (binit s) i) = 0" "b_lock (bufs (binit s) i) = initsleeplock" if "i < NBUF" for i
    using assms(1)[OF that] that binit_loop_fields[OF order_refl that] by (simp_all add: binit_def)
  show "bio_inv (binit s)"
  proof (rule bio_invI[OF mru_binit])
    show "idequeue (binit s) = []" using assms(2) by (simp add: binit_def)
    show "buf_ok (binit s) i" if "i < NBUF" for i
      using f[OF that] by (simp add: buf_ok_def Let_def initsleeplock_def)
    show "i = j" if "holds (binit s) i d b" "holds (binit s) j d b" "(d, b) \<noteq> (0, 0)" for i j d b
      using that f[of i] by (auto simp: holds_def)
  qed
  show "locked (binit s) = {}" "dirtied (binit s) = {}"
    using f by (auto simp: locked_def dirtied_def initsleeplock_def)
qed (simp_all add: binit_def)

definition proc0 :: proc where
  "proc0 = \<lparr>p_sz = 0, p_pgdir = 0, p_kstack = 0, p_state = UNUSED, p_pid = 0, p_parent = None,
     p_tf = tf0, p_context = 0, p_chan = None, p_killed = False, p_ofile = (\<lambda>_. None), p_cwd = None, p_name = (\<lambda>_. 0),
     p_alarmticks = 0, p_alarmhandler = 0, p_tick_counts = 0\<rparr>"

definition buf0 :: buf where
  "buf0 = \<lparr>b_flags = 0, b_dev = 0, b_blockno = 0, b_lock = initsleeplock, b_refcnt = 0, b_prev = 0, b_next = 0, b_data = (\<lambda>_. 0)\<rparr>"

definition cold_x :: "(sector \<Rightarrow> block) \<Rightarrow> 'a \<Rightarrow> 'a log_scheme" where
  "cold_x d e = binit \<lparr>mem = (\<lambda>_. 0), freelist = 0, use_lock = True, kend = 0x80115600, kdata = 0x80108000, ksym = (\<lambda>_. 0x80100000), procs = (\<lambda>_. proc0), cur = 0,
     nextpid = 1, initproc = None, kpgdir = 0, mycpu = cpu0, bufs = (\<lambda>_. buf0), idequeue = [], havedisk1 = True, ideerr = (\<lambda>_. False), disk0 = d,
     dwrites = [], lh_n = 0, lh_block = (\<lambda>_. 0), log_start = 2, log_size = 30, log_dev = 1, outstanding = 0, committing = False, \<dots> = e\<rparr>"

abbreviation cold :: "(sector \<Rightarrow> block) \<Rightarrow> log" where
  "cold d \<equiv> cold_x d ()"

lemma cold_fields:
  "bio_inv (cold_x d e)" "locked (cold_x d e) = {}" "dirtied (cold_x d e) = {}" "log_ready (cold_x d e)" "lh_n (cold_x d e) = 0"
  "log_dev (cold_x d e) = 1" "log_start (cold_x d e) = 2" "log_size (cold_x d e) = 30" "dwrites (cold_x d e) = []" "disk0 (cold_x d e) = d"
  "dread (cold_x d e) 1 = (\<lambda>b. d (1, b))" "outstanding (cold_x d e) = 0" "\<not> committing (cold_x d e)" "log.more (cold_x d e) = e"
proof -
  show "bio_inv (cold_x d e)" "locked (cold_x d e) = {}" "dirtied (cold_x d e) = {}"
    unfolding cold_x_def by (rule bio_inv_binit; simp add: buf0_def)+
  show "log_ready (cold_x d e)"
    by (auto simp: log_ready_def drive_ok_def cold_x_def binit_def)
qed (simp_all add: cold_x_def binit_def dread_def sector_of_def fun_eq_iff)

lemma cold_inv: "head_n (d (1, 2)) = 0 \<Longrightarrow> log_inv (cold_x d e)"
  by (simp add: log_inv_def cold_fields blocks_ok_def)

text \<open>A transaction that has set the first byte of block 100 to 7.\<close>

lemma zero_head [simp]: "head_n (\<lambda>_. 0) = 0"
  by (simp add: head_n_def get32_def join32_def)

lemma cold_txn:
  "\<exists>s :: log. log_inv s \<and> locked s = {} \<and> lh_n s = 1 \<and> outstanding s = 1 \<and> \<not> committing s \<and> home s 100 \<and>
     log_dev s = 1 \<and> log_start s = 2 \<and> log_size s = 30 \<and> view s 1 100 0 = 7 \<and> dread s 1 100 0 = 0 \<and> dwrites s = [] \<and> logged s = {100}"
proof -
  let ?s = "cold (\<lambda>_ _. 0)\<lparr>outstanding := 1\<rparr>"
  have inv: "log_inv ?s" using cold_inv[of "\<lambda>_ _. 0" "()"] by simp
  have home: "home ?s 100" by (simp add: home_def cold_fields)
  have "avail ?s \<noteq> {}"
    using avail_nonempty[of ?s] by (simp add: cold_fields)
  moreover have "drive_ok ?s 1 100"
    using cold_fields(4)[of "\<lambda>_ _. 0" "()"] by (simp add: log_ready_def cold_fields)
  ultimately have can: "can_read ?s (log_dev ?s) 100"
    by (simp add: can_read_def cold_fields)
  obtain s where w: "wrote ?s 100 ((\<lambda>d. d(0 := 7)) (view ?s (log_dev ?s) 100)) s"
    using txn_update[OF inv can home, of "\<lambda>d. d(0 := 7)"] by (auto simp: cold_fields)
  then have f: "lframe ?s s" "log_inv s" "logged s = insert 100 (logged ?s)" "locked s = {}" "view s 1 100 0 = 7"
    by (auto simp: wrote_def cold_fields)
  have "logged s = {100}" using f(3) by (simp add: logged_def cold_fields)
  then have "lh_n s = 1" using card_logged[OF f(2)] by simp
  then show ?thesis
    using f home \<open>logged s = {100}\<close> lframe_same[OF f(1)] by (intro exI[of _ s]) (simp add: cold_fields)
qed

section \<open>Properties\<close>

text \<open>C1: crash atomicity.  Let a transaction be committed, let the machine crash after any number of the
  disk writes of \<^verbatim>\<open>commit\<close>, and let \<^verbatim>\<open>recover_from_log\<close> run on the disk that is left, with an
  empty cache.  Recovery returns, the log is empty, and either every block outside the log is as it was
  on disk before the commit or every block is as the transaction made it.\<close>

theorem commit_crash_recovery:
  fixes r :: "'b log_scheme"
  assumes "log_inv s" "locked s = {}" "commit s = Inr s'" "crash_disk s s' D"
    and "bio_inv r" "locked r = {}" "dirtied r = {}" "log_ready r"
    and "log_dev r = log_dev s" "log_start r = log_start s" "log_size r = log_size s" "dread r (log_dev s) = D"
  shows "\<exists>r'. recover_from_log r = Inr r' \<and> log_inv r' \<and> lh_n r' = 0 \<and>
    ((\<forall>b. home s b \<longrightarrow> dread r' (log_dev s) b = dread s (log_dev s) b) \<or>
     (\<forall>b. home s b \<longrightarrow> dread r' (log_dev s) b = view s (log_dev s) b))"
proof -
  obtain us vs where uv: "commit_writes s = us @ vs \<or> vs = [] \<and> lh_n s = 0" and D: "D = disk_at s (vs @ dwrites s)"
  proof (cases "lh_n s > 0")
    case True
    then have "dwrites s' = commit_writes s @ dwrites s"
      using commit_ok[OF assms(1,2) True] assms(3) by auto
    then show ?thesis using assms(4) that by (auto simp: crash_disk_def)
  next
    case False
    then have "s' = s" "lh_n s = 0" using assms(1,3) by (auto simp: commit_def log_inv_def blocks_ok_def)
    then show ?thesis using assms(4) that[of "[]" "[]"] by (auto simp: crash_disk_def)
  qed
  have "((\<forall>b. home s b \<longrightarrow> redo (log_start s) D b = dread s (log_dev s) b) \<or>
          (\<forall>b. home s b \<longrightarrow> redo (log_start s) D b = view s (log_dev s) b)) \<and>
         blocks_ok s (head_n (D (log_start s))) (head_block (D (log_start s)))"
  proof (cases "vs = [] \<and> lh_n s = 0")
    case True
    then have "D = dread s (log_dev s)" "head_n (D (log_start s)) = 0"
      using assms(1) by (auto simp: D dread_disk_at log_inv_def)
    then show ?thesis
      using assms(1) by (simp add: redo_empty blocks_ok_def log_inv_def log_ready_def)
  next
    case False
    then show ?thesis using commit_crash[OF assms(1,2) _ D] uv by blast
  qed
  then have redo: "(\<forall>b. home s b \<longrightarrow> redo (log_start s) D b = dread s (log_dev s) b) \<or>
          (\<forall>b. home s b \<longrightarrow> redo (log_start s) D b = view s (log_dev s) b)"
    and bok: "blocks_ok s (head_n (D (log_start s))) (head_block (D (log_start s)))" by auto
  have home: "home r = home s"
    by (intro ext) (simp add: home_def assms)
  then have "blocks_ok r (head_n (D (log_start r))) (head_block (D (log_start r)))"
    using bok by (simp add: blocks_ok_def assms)
  note rr = assms(5-8) assms(12)[symmetric, folded assms(9)] this
  obtain r' where r': "recover_from_log r = Inr r'"
    using recover_ok[OF rr] by blast
  have "dread r' (log_dev s) b = redo (log_start s) D b" if "home s b" for b
    using recover_result(4)[OF rr r', of b] that by (simp add: home assms)
  then show ?thesis
    using redo r' recover_result(1,3)[OF rr r'] by (intro exI[of _ r']) auto
qed

text \<open>The witness crashes at the very end of the commit of the one-block transaction above.\<close>

theorem commit_crash_recovery_witness:
  "\<exists>(s :: log) s' (r :: log) r'. log_inv s \<and> lh_n s = 1 \<and> commit s = Inr s' \<and> crash_disk s s' (dread r 1) \<and>
     recover_from_log r = Inr r' \<and> (dread r' 1 100 0 = 0 \<or> dread r' 1 100 0 = 7)"
proof -
  obtain s :: log where s: "log_inv s" "locked s = {}" "lh_n s = 1" "home s 100"
    "log_dev s = 1" "log_start s = 2" "log_size s = 30" "view s 1 100 0 = 7" "dread s 1 100 0 = 0" "dwrites s = []"
    using cold_txn by blast
  obtain s' where s': "commit s = Inr s'"
    using commit_result[OF s(1,2)] by blast
  define D where "D = disk_at s (dwrites s')"
  have cr: "crash_disk s s' D"
    unfolding crash_disk_def D_def by (intro exI[of _ "[]"] exI[of _ "dwrites s'"]) (simp add: s(10))
  let ?r = "cold (\<lambda>(d, b). D b)"
  note ccr = commit_crash_recovery[OF s(1,2) s' cr, of ?r]
  have "dread ?r (log_dev s) = D" by (simp add: cold_fields s(5))
  then obtain r' where r': "recover_from_log ?r = Inr r'"
    "(\<forall>b. home s b \<longrightarrow> dread r' 1 b = dread s 1 b) \<or> (\<forall>b. home s b \<longrightarrow> dread r' 1 b = view s 1 b)"
    using ccr by (auto simp: cold_fields s)
  have "dread r' 1 100 0 = 0 \<or> dread r' 1 100 0 = 7" using r'(2) s(4,8,9) by auto
  then show ?thesis
    using s(1,3) s' cr r'(1) by (intro exI[of _ s] exI[of _ s'] exI[of _ ?r] exI[of _ r']) (simp add: cold_fields)
qed

text \<open>C2: recovery can be cut off and repeated.  Every disk a crash inside \<^verbatim>\<open>recover_from_log\<close> can
  leave is again one that recovery accepts, and recovering it gives the same blocks.\<close>

theorem recovery_idempotent:
  assumes "bio_inv r" "locked r = {}" "dirtied r = {}" "log_ready r" "D = dread r (log_dev r)"
    and "blocks_ok r (head_n (D (log_start r))) (head_block (D (log_start r)))"
    and "recover_from_log r = Inr r'" "crash_disk r r' E"
    and "bio_inv t" "locked t = {}" "dirtied t = {}" "log_ready t" "log_dev t = log_dev r" "log_start t = log_start r"
      "log_size t = log_size r" "dread t (log_dev r) = E"
  shows "\<exists>t'. recover_from_log t = Inr t' \<and> (\<forall>b. home r b \<longrightarrow> dread t' (log_dev r) b = dread r' (log_dev r) b)"
proof -
  note rr = recover_result[OF assms(1-7)]
  have home: "home t = home r" by (intro ext) (simp add: home_def assms)
  have "blocks_ok t (head_n (E (log_start t))) (head_block (E (log_start t)))"
    using rr(5)[OF assms(8)] by (simp add: blocks_ok_def assms home)
  note tt = assms(9-12) assms(16)[symmetric, folded assms(13)] this
  obtain t' where t': "recover_from_log t = Inr t'" using recover_ok[OF tt] by blast
  have "dread t' (log_dev r) b = dread r' (log_dev r) b" if "home r b" for b
    using recover_result(4)[OF tt t', of b] rr(4)[of b] rr(6)[OF assms(8) that] that by (simp add: home assms)
  then show ?thesis using t' by blast
qed

theorem recovery_idempotent_witness:
  "\<exists>(r :: log) r' (t :: log) t'. recover_from_log r = Inr r' \<and> crash_disk r r' (dread t 1) \<and> recover_from_log t = Inr t' \<and>
     dread t' 1 100 = dread r' 1 100"
proof -
  let ?r = "cold (\<lambda>_ _. 0)"
  note c = cold_fields[of "\<lambda>_ _. 0"]
  have bok: "blocks_ok ?r (head_n (dread ?r (log_dev ?r) (log_start ?r))) (head_block (dread ?r (log_dev ?r) (log_start ?r)))"
    by (simp add: cold_fields blocks_ok_def)
  obtain r' where r': "recover_from_log ?r = Inr r'"
    using recover_ok[OF c(1-4) refl bok] by blast
  have "crash_disk ?r r' (disk_at ?r [])"
    using recover_ok[OF c(1-4) refl bok] r' unfolding crash_disk_def
    by (intro exI[of _ "dwrites r'"] exI[of _ "[]"]) (simp add: cold_fields)
  then have cr: "crash_disk ?r r' (dread ?r (log_dev ?r))" unfolding dread_disk_at cold_fields(9) .
  obtain t' where "recover_from_log ?r = Inr t'" "\<forall>b. home ?r b \<longrightarrow> dread t' (log_dev ?r) b = dread r' (log_dev ?r) b"
    using recovery_idempotent[OF c(1-4) refl bok r' cr c(1-4) refl refl refl refl] by blast
  moreover have "home ?r 100" by (simp add: home_def cold_fields)
  ultimately show ?thesis
    using r' cr by (intro exI[of _ ?r] exI[of _ r'] exI[of _ ?r] exI[of _ t']) (simp add: cold_fields)
qed

text \<open>C3: the \<^verbatim>\<open>end_op\<close> of the last call in a transaction returns; then every block outside the log is on
  disk as the transaction left it, and the log is empty and open for new calls.\<close>

theorem end_op_durable:
  assumes "log_inv s" "locked s = {}" "outstanding s = 1" "\<not> committing s"
  shows "\<exists>s'. end_op s = Inr s' \<and> log_inv s' \<and> lh_n s' = 0 \<and> outstanding s' = 0 \<and> \<not> committing s' \<and>
    (\<forall>b. home s b \<longrightarrow> dread s' (log_dev s) b = view s (log_dev s) b \<and> view s' (log_dev s) b = view s (log_dev s) b)"
  using end_op_last[OF assms] by blast

theorem end_op_durable_witness:
  "\<exists>(s :: log) s'. lh_n s = 1 \<and> dread s 1 100 0 = 0 \<and> end_op s = Inr s' \<and> dread s' 1 100 0 = 7 \<and> lh_n s' = 0"
proof -
  obtain s :: log where s: "log_inv s" "locked s = {}" "lh_n s = 1" "outstanding s = 1" "\<not> committing s" "home s 100"
    "log_dev s = 1" "view s 1 100 0 = 7" "dread s 1 100 0 = 0"
    using cold_txn by blast
  obtain s' where "end_op s = Inr s'" "lh_n s' = 0" "\<forall>b. home s b \<longrightarrow> dread s' (log_dev s) b = view s (log_dev s) b"
    using end_op_durable[OF s(1,2,4,5)] by blast
  then show ?thesis
    using s by (intro exI[of _ s] exI[of _ s']) simp
qed

text \<open>C4: read, modify, \<^verbatim>\<open>log_write\<close>, release inside a transaction with room in the log: the call
  sequence returns, the block has its new contents, no other block and nothing on disk has changed, and the
  block is recorded in the log exactly once.\<close>

theorem transaction_update:
  assumes "log_inv s" "can_read s (log_dev s) b" "home s b" "outstanding s \<ge> 1" "lh_n s < log_size s - 1"
  shows "\<exists>i s1 s2 s3. bread (log_dev s) b s = Inr (i, s1) \<and> log_write i (upd_buf i (b_data_update f) s1) = Inr s2 \<and>
    brelse i s2 = Inr s3 \<and> log_inv s3 \<and> view s3 (log_dev s) = (view s (log_dev s))(b := f (view s (log_dev s) b)) \<and>
    dread s3 = dread s \<and> locked s3 = locked s \<and> logged s3 = insert b (logged s) \<and>
    lh_n s3 = lh_n s + (if b \<in> logged s then 0 else 1)"
proof -
  obtain i s1 s2 s3 where *: "bread (log_dev s) b s = Inr (i, s1)" "log_write i (upd_buf i (b_data_update f) s1) = Inr s2"
    "brelse i s2 = Inr s3" and w: "wrote s b (f (view s (log_dev s) b)) s3"
    using txn_update[OF assms] by blast
  have "finite (logged s)" by (simp add: logged_def)
  then have "lh_n s3 = lh_n s + (if b \<in> logged s then 0 else 1)"
    using w card_logged[OF assms(1)] card_logged[of s3] by (auto simp: wrote_def insert_absorb)
  then show ?thesis
    using * w lframe_same(20)[of s s3] by (intro exI[of _ i] exI[of _ s1] exI[of _ s2] exI[of _ s3]) (auto simp: wrote_def)
qed

theorem transaction_update_witness:
  "\<exists>i s1 s2 (s3 :: log). bread 1 100 (cold (\<lambda>_ _. 0)\<lparr>outstanding := 1\<rparr>) = Inr (i, s1) \<and>
     log_write i (upd_buf i (b_data_update (\<lambda>d. d(5 := 9))) s1) = Inr s2 \<and> brelse i s2 = Inr s3 \<and> view s3 1 100 5 = 9 \<and> lh_n s3 = 1"
proof -
  let ?s = "cold (\<lambda>_ _. 0)\<lparr>outstanding := 1\<rparr>"
  have "log_inv ?s" "home ?s 100" "can_read ?s (log_dev ?s) 100"
    using cold_inv[of "\<lambda>_ _. 0" "()"] avail_nonempty[of ?s] cold_fields(4)[of "\<lambda>_ _. 0" "()"]
    by (simp_all add: home_def can_read_def log_ready_def cold_fields)
  from transaction_update[OF this(1,3,2), of "\<lambda>d. d(5 := 9)"] show ?thesis
    by (auto simp: cold_fields logged_def)
qed

end
