(* ===== verification/Fs.thy ===== *)
theory Fs
  imports Crash
begin

text \<open>
  The file system proper, \<^verbatim>\<open>fs.c\<close>: the block allocator, the inodes on disk and in memory, the
  contents of files, directories and path names.

  A pointer to an in-memory inode is an index into \<^verbatim>\<open>icache.inode\<close>.  A C string that is only read
  is the list of its bytes before the NUL.  \<^verbatim>\<open>readi\<close> returns the bytes it stores at \<^verbatim>\<open>dst\<close> and
  \<^verbatim>\<open>writei\<close> takes the bytes at \<^verbatim>\<open>src\<close>, so that the caller's buffer, kernel or user, is the
  caller's business.  The table of device functions, \<^verbatim>\<open>devsw\<close>, is an argument of the functions that
  reach it.
\<close>

section \<open>Data\<close>

definition ROOTINO :: uint where [simp]: "ROOTINO = 1"
definition NDIRECT :: nat where [simp]: "NDIRECT = 12"
definition NINDIRECT :: nat where [simp]: "NINDIRECT = 128"
definition MAXFILE :: nat where [simp]: "MAXFILE = NDIRECT + NINDIRECT"
definition IPB :: nat where [simp]: "IPB = 8"
definition BPB :: nat where [simp]: "BPB = 4096"
definition DIRSIZ :: nat where [simp]: "DIRSIZ = 14"
definition T_DIR :: "16 word" where [simp]: "T_DIR = 1"
definition T_FILE :: "16 word" where [simp]: "T_FILE = 2"
definition T_DEV :: "16 word" where [simp]: "T_DEV = 3"

record inode =
  i_dev :: uint
  i_inum :: uint
  i_ref :: int
  i_lock :: sleeplock
  i_valid :: bool
  i_type :: "16 word"
  i_major :: "16 word"
  i_minor :: "16 word"
  i_nlink :: "16 word"
  i_size :: uint
  i_addrs :: "nat \<Rightarrow> uint"

record fs = log +
  sb :: superblock
  icache :: "nat \<Rightarrow> inode"

type_synonym 's dev_read = "nat \<Rightarrow> int \<Rightarrow> 's \<Rightarrow> (int \<times> uchar list \<times> 's) res"
type_synonym 's dev_write = "nat \<Rightarrow> uchar list \<Rightarrow> 's \<Rightarrow> (int \<times> 's) res"
type_synonym 's devsw = "nat \<Rightarrow> 's dev_read option \<times> 's dev_write option"

definition upd_inode :: "nat \<Rightarrow> (inode \<Rightarrow> inode) \<Rightarrow> 'a fs_scheme \<Rightarrow> 'a fs_scheme" where
  "upd_inode ip f s = s\<lparr>icache := (icache s)(ip := f (icache s ip))\<rparr>"

definition IBLOCK :: "uint \<Rightarrow> superblock \<Rightarrow> uint" where
  "IBLOCK i sp = i div of_nat IPB + sb_inodestart sp"

definition BBLOCK :: "uint \<Rightarrow> superblock \<Rightarrow> uint" where
  "BBLOCK b sp = b div of_nat BPB + sb_bmapstart sp"

section \<open>Blocks\<close>

definition bzero :: "uint \<Rightarrow> uint \<Rightarrow> 'a log_scheme \<Rightarrow> 'a log_scheme res" where
  "bzero dev bno s =
     bindr (bread dev bno s) (\<lambda>(bp, s).
     bindr (log_write bp (upd_buf bp (b_data_update (\<lambda>_ _. 0)) s)) (\<lambda>s.
     brelse bp s))"

text \<open>The inner loop of \<^verbatim>\<open>balloc\<close>: the first clear bit of a bitmap block that stands for a block of the disk.\<close>

primrec balloc_scan :: "nat \<Rightarrow> nat \<Rightarrow> nat \<Rightarrow> nat \<Rightarrow> block \<Rightarrow> nat option" where
  "balloc_scan 0 bi b sz d = None"
| "balloc_scan (Suc k) bi b sz d =
     (if b + bi < sz
      then if d (bi div 8) AND push_bit (bi mod 8) 1 = 0 then Some bi else balloc_scan k (Suc bi) b sz d
      else None)"

primrec balloc_loop :: "nat \<Rightarrow> nat \<Rightarrow> uint \<Rightarrow> 'a fs_scheme \<Rightarrow> (uint \<times> 'a fs_scheme) res" where
  "balloc_loop 0 b dev s = Inl (Panic ''balloc: out of blocks'')"
| "balloc_loop (Suc k) b dev s =
     bindr (bread dev (BBLOCK (of_nat b) (sb s)) s) (\<lambda>(bp, s).
       case balloc_scan BPB 0 b (unat (sb_size (sb s))) (b_data (bufs s bp)) of
         Some bi \<Rightarrow>
           let s = upd_buf bp (b_data_update (\<lambda>d. d(bi div 8 := d (bi div 8) OR push_bit (bi mod 8) 1))) s in
           bindr (log_write bp s) (\<lambda>s.
           bindr (brelse bp s) (\<lambda>s.
           bindr (bzero dev (of_nat (b + bi)) s) (\<lambda>s.
           Inr (of_nat (b + bi), s))))
       | None \<Rightarrow> bindr (brelse bp s) (\<lambda>s. balloc_loop k (b + BPB) dev s))"

definition balloc :: "uint \<Rightarrow> 'a fs_scheme \<Rightarrow> (uint \<times> 'a fs_scheme) res" where
  "balloc dev s = balloc_loop ((unat (sb_size (sb s)) + BPB - 1) div BPB) 0 dev s"

definition bfree :: "uint \<Rightarrow> uint \<Rightarrow> 'a fs_scheme \<Rightarrow> 'a fs_scheme res" where
  "bfree dev b s =
     bindr (readsb dev s) (\<lambda>(sb', s).
     let s = s\<lparr>sb := sb'\<rparr> in
     bindr (bread dev (BBLOCK b (sb s)) s) (\<lambda>(bp, s).
     let bi = unat b mod BPB; m = push_bit (bi mod 8) 1 in
     if b_data (bufs s bp) (bi div 8) AND m = 0 then Inl (Panic ''freeing free block'')
     else
       let s = upd_buf bp (b_data_update (\<lambda>d. d(bi div 8 := d (bi div 8) AND NOT m))) s in
       bindr (log_write bp s) (\<lambda>s.
       brelse bp s)))"

section \<open>Inodes\<close>

text \<open>The on-disk inode: 64 bytes at \<open>(inum % IPB) * 64\<close> of its block.\<close>

definition dinode_off :: "uint \<Rightarrow> nat" where
  "dinode_off inum = unat inum mod IPB * 64"

primrec put_addrs :: "nat \<Rightarrow> (nat \<Rightarrow> uint) \<Rightarrow> nat \<Rightarrow> block \<Rightarrow> block" where
  "put_addrs 0 a k d = d"
| "put_addrs (Suc i) a k d = put32 (put_addrs i a k d) (k + 4 * i) (a i)"

definition put_dinode :: "inode \<Rightarrow> nat \<Rightarrow> block \<Rightarrow> block" where
  "put_dinode ip k d =
     put_addrs (NDIRECT + 1) (i_addrs ip) (k + 12)
       (put32 (put16 (put16 (put16 (put16 d k (i_type ip)) (k + 2) (i_major ip)) (k + 4) (i_minor ip)) (k + 6) (i_nlink ip))
         (k + 8) (i_size ip))"

definition get_dinode :: "block \<Rightarrow> nat \<Rightarrow> inode \<Rightarrow> inode" where
  "get_dinode d k ip = ip\<lparr>i_type := get16 d k, i_major := get16 d (k + 2), i_minor := get16 d (k + 4),
     i_nlink := get16 d (k + 6), i_size := get32 d (k + 8),
     i_addrs := (\<lambda>i. if i < NDIRECT + 1 then get32 d (k + 12 + 4 * i) else i_addrs ip i)\<rparr>"

definition iinit :: "uint \<Rightarrow> 'a fs_scheme \<Rightarrow> 'a fs_scheme res" where
  "iinit dev s =
     (let s = s\<lparr>icache := (\<lambda>i. if i < NINODE then (icache s i)\<lparr>i_lock := initsleeplock\<rparr> else icache s i)\<rparr> in
      bindr (readsb dev s) (\<lambda>(sb', s). Inr (s\<lparr>sb := sb'\<rparr>)))"

text \<open>
  The scan of \<^verbatim>\<open>iget\<close>: the entry for the inode (\<open>Inl\<close>), or the first entry that was free (\<open>Inr\<close>).
\<close>

primrec iget_scan :: "nat \<Rightarrow> nat \<Rightarrow> nat option \<Rightarrow> uint \<Rightarrow> uint \<Rightarrow> (nat \<Rightarrow> inode) \<Rightarrow> nat + nat option" where
  "iget_scan 0 ip emp dev inum ic = Inr emp"
| "iget_scan (Suc k) ip emp dev inum ic =
     (if i_ref (ic ip) > 0 \<and> i_dev (ic ip) = dev \<and> i_inum (ic ip) = inum then Inl ip
      else iget_scan k (Suc ip) (if emp = None \<and> i_ref (ic ip) = 0 then Some ip else emp) dev inum ic)"

definition iget :: "uint \<Rightarrow> uint \<Rightarrow> 'a fs_scheme \<Rightarrow> (nat \<times> 'a fs_scheme) res" where
  "iget dev inum s =
     (case iget_scan NINODE 0 None dev inum (icache s) of
        Inl ip \<Rightarrow> Inr (ip, upd_inode ip (\<lambda>i. i\<lparr>i_ref := i_ref i + 1\<rparr>) s)
      | Inr None \<Rightarrow> Inl (Panic ''iget: no inodes'')
      | Inr (Some ip) \<Rightarrow> Inr (ip, upd_inode ip (\<lambda>i. i\<lparr>i_dev := dev, i_inum := inum, i_ref := 1, i_valid := False\<rparr>) s))"

primrec ialloc_loop :: "nat \<Rightarrow> uint \<Rightarrow> uint \<Rightarrow> 16 word \<Rightarrow> 'a fs_scheme \<Rightarrow> (nat \<times> 'a fs_scheme) res" where
  "ialloc_loop 0 inum dev type s = Inl (Panic ''ialloc: no inodes'')"
| "ialloc_loop (Suc k) inum dev type s =
     bindr (bread dev (IBLOCK inum (sb s)) s) (\<lambda>(bp, s).
     let k0 = dinode_off inum in
     if get16 (b_data (bufs s bp)) k0 = 0 then
       let s = upd_buf bp (b_data_update (\<lambda>d. \<lambda>i. if k0 \<le> i \<and> i < k0 + 64 then 0 else d i)) s;
           s = upd_buf bp (b_data_update (\<lambda>d. put16 d k0 type)) s in
       bindr (log_write bp s) (\<lambda>s.
       bindr (brelse bp s) (\<lambda>s.
       iget dev inum s))
     else bindr (brelse bp s) (\<lambda>s. ialloc_loop k (inum + 1) dev type s))"

definition ialloc :: "uint \<Rightarrow> 16 word \<Rightarrow> 'a fs_scheme \<Rightarrow> (nat \<times> 'a fs_scheme) res" where
  "ialloc dev type s = ialloc_loop (unat (sb_ninodes (sb s)) - 1) 1 dev type s"

definition iupdate :: "nat \<Rightarrow> 'a fs_scheme \<Rightarrow> 'a fs_scheme res" where
  "iupdate ip s =
     bindr (bread (i_dev (icache s ip)) (IBLOCK (i_inum (icache s ip)) (sb s)) s) (\<lambda>(bp, s).
     let s = upd_buf bp (b_data_update (put_dinode (icache s ip) (dinode_off (i_inum (icache s ip))))) s in
     bindr (log_write bp s) (\<lambda>s.
     brelse bp s))"

definition idup :: "nat \<Rightarrow> 'a fs_scheme \<Rightarrow> nat \<times> 'a fs_scheme" where
  "idup ip s = (ip, upd_inode ip (\<lambda>i. i\<lparr>i_ref := i_ref i + 1\<rparr>) s)"

definition ilock :: "nat \<Rightarrow> 'a fs_scheme \<Rightarrow> 'a fs_scheme res" where
  "ilock ip s =
     (if i_ref (icache s ip) < 1 then Inl (Panic ''ilock'')
      else bindr (acquiresleep (ChanInodeLock ip) (i_lock (icache s ip)) s) (\<lambda>lk.
        let s = upd_inode ip (\<lambda>i. i\<lparr>i_lock := lk\<rparr>) s in
        if \<not> i_valid (icache s ip) then
          bindr (bread (i_dev (icache s ip)) (IBLOCK (i_inum (icache s ip)) (sb s)) s) (\<lambda>(bp, s).
          let s = upd_inode ip (get_dinode (b_data (bufs s bp)) (dinode_off (i_inum (icache s ip)))) s in
          bindr (brelse bp s) (\<lambda>s.
          let s = upd_inode ip (\<lambda>i. i\<lparr>i_valid := True\<rparr>) s in
          if i_type (icache s ip) = 0 then Inl (Panic ''ilock: no type'') else Inr s))
        else Inr s))"

definition iunlock :: "nat \<Rightarrow> 'a fs_scheme \<Rightarrow> 'a fs_scheme res" where
  "iunlock ip s =
     (if \<not> holdingsleep (i_lock (icache s ip)) s \<or> i_ref (icache s ip) < 1 then Inl (Panic ''iunlock'')
      else let (lk, s) = releasesleep (ChanInodeLock ip) (i_lock (icache s ip)) s
           in Inr (upd_inode ip (\<lambda>i. i\<lparr>i_lock := lk\<rparr>) s))"

text \<open>Truncation frees the blocks the inode names, the direct ones first.\<close>

primrec itrunc_direct :: "nat \<Rightarrow> nat \<Rightarrow> nat \<Rightarrow> 'a fs_scheme \<Rightarrow> 'a fs_scheme res" where
  "itrunc_direct 0 i ip s = Inr s"
| "itrunc_direct (Suc k) i ip s =
     (if i_addrs (icache s ip) i \<noteq> 0
      then bindr (bfree (i_dev (icache s ip)) (i_addrs (icache s ip) i) s) (\<lambda>s.
           itrunc_direct k (Suc i) ip (upd_inode ip (\<lambda>n. n\<lparr>i_addrs := (i_addrs n)(i := 0)\<rparr>) s))
      else itrunc_direct k (Suc i) ip s)"

primrec itrunc_indirect :: "nat \<Rightarrow> nat \<Rightarrow> nat \<Rightarrow> nat \<Rightarrow> 'a fs_scheme \<Rightarrow> 'a fs_scheme res" where
  "itrunc_indirect 0 j ip bp s = Inr s"
| "itrunc_indirect (Suc k) j ip bp s =
     (let a = get32 (b_data (bufs s bp)) (4 * j) in
      bindr (if a \<noteq> 0 then bfree (i_dev (icache s ip)) a s else Inr s) (\<lambda>s.
      itrunc_indirect k (Suc j) ip bp s))"

definition itrunc :: "nat \<Rightarrow> 'a fs_scheme \<Rightarrow> 'a fs_scheme res" where
  "itrunc ip s =
     bindr (itrunc_direct NDIRECT 0 ip s) (\<lambda>s.
     bindr (if i_addrs (icache s ip) NDIRECT \<noteq> 0
       then bindr (bread (i_dev (icache s ip)) (i_addrs (icache s ip) NDIRECT) s) (\<lambda>(bp, s).
            bindr (itrunc_indirect NINDIRECT 0 ip bp s) (\<lambda>s.
            bindr (brelse bp s) (\<lambda>s.
            bindr (bfree (i_dev (icache s ip)) (i_addrs (icache s ip) NDIRECT) s) (\<lambda>s.
            Inr (upd_inode ip (\<lambda>n. n\<lparr>i_addrs := (i_addrs n)(NDIRECT := 0)\<rparr>) s)))))
       else Inr s) (\<lambda>s.
     iupdate ip (upd_inode ip (\<lambda>n. n\<lparr>i_size := 0\<rparr>) s)))"

definition iput :: "nat \<Rightarrow> 'a fs_scheme \<Rightarrow> 'a fs_scheme res" where
  "iput ip s =
     bindr (acquiresleep (ChanInodeLock ip) (i_lock (icache s ip)) s) (\<lambda>lk.
     let s = upd_inode ip (\<lambda>n. n\<lparr>i_lock := lk\<rparr>) s in
     bindr (if i_valid (icache s ip) \<and> i_nlink (icache s ip) = 0 \<and> i_ref (icache s ip) = 1
       then bindr (itrunc ip s) (\<lambda>s.
            bindr (iupdate ip (upd_inode ip (\<lambda>n. n\<lparr>i_type := 0\<rparr>) s)) (\<lambda>s.
            Inr (upd_inode ip (\<lambda>n. n\<lparr>i_valid := False\<rparr>) s)))
       else Inr s) (\<lambda>s.
     let (lk, s) = releasesleep (ChanInodeLock ip) (i_lock (icache s ip)) s;
         s = upd_inode ip (\<lambda>n. n\<lparr>i_lock := lk\<rparr>) s in
     Inr (upd_inode ip (\<lambda>n. n\<lparr>i_ref := i_ref n - 1\<rparr>) s)))"

definition iunlockput :: "nat \<Rightarrow> 'a fs_scheme \<Rightarrow> 'a fs_scheme res" where
  "iunlockput ip s = bindr (iunlock ip s) (iput ip)"

section \<open>File contents\<close>

definition bmap :: "nat \<Rightarrow> uint \<Rightarrow> 'a fs_scheme \<Rightarrow> (uint \<times> 'a fs_scheme) res" where
  "bmap ip bn s =
     (let dev = i_dev (icache s ip) in
      if bn < of_nat NDIRECT then
        let addr = i_addrs (icache s ip) (unat bn) in
        if addr = 0
        then bindr (balloc dev s) (\<lambda>(addr, s).
             Inr (addr, upd_inode ip (\<lambda>n. n\<lparr>i_addrs := (i_addrs n)(unat bn := addr)\<rparr>) s))
        else Inr (addr, s)
      else let bn = bn - of_nat NDIRECT in
      if bn < of_nat NINDIRECT then
        bindr (let addr = i_addrs (icache s ip) NDIRECT in
          if addr = 0
          then bindr (balloc dev s) (\<lambda>(addr, s).
               Inr (addr, upd_inode ip (\<lambda>n. n\<lparr>i_addrs := (i_addrs n)(NDIRECT := addr)\<rparr>) s))
          else Inr (addr, s)) (\<lambda>(addr, s).
        bindr (bread dev addr s) (\<lambda>(bp, s).
        bindr (let addr = get32 (b_data (bufs s bp)) (4 * unat bn) in
          if addr = 0
          then bindr (balloc dev s) (\<lambda>(addr, s).
               let s = upd_buf bp (b_data_update (\<lambda>d. put32 d (4 * unat bn) addr)) s in
               bindr (log_write bp s) (\<lambda>s. Inr (addr, s)))
          else Inr (addr, s)) (\<lambda>(addr, s).
        bindr (brelse bp s) (\<lambda>s.
        Inr (addr, s)))))
      else Inl (Panic ''bmap: out of range''))"

record stat =
  st_type :: "16 word"
  st_dev :: uint
  st_ino :: uint
  st_nlink :: "16 word"
  st_size :: uint

definition stati :: "nat \<Rightarrow> 'a fs_scheme \<Rightarrow> stat" where
  "stati ip s = (let n = icache s ip in
     \<lparr>st_type = i_type n, st_dev = i_dev n, st_ino = i_inum n, st_nlink = i_nlink n, st_size = i_size n\<rparr>)"

text \<open>The bytes of one block that one round of the copying loops moves.\<close>

abbreviation chunk :: "uint \<Rightarrow> nat \<Rightarrow> nat" where
  "chunk off n \<equiv> min n (BSIZE - unat off mod BSIZE)"

function readi_loop :: "nat \<Rightarrow> uint \<Rightarrow> nat \<Rightarrow> 'a fs_scheme \<Rightarrow> (uchar list \<times> 'a fs_scheme) res" where
  "readi_loop ip off n s =
     (if n = 0 then Inr ([], s)
      else bindr (bmap ip (off div of_nat BSIZE) s) (\<lambda>(addr, s).
           bindr (bread (i_dev (icache s ip)) addr s) (\<lambda>(bp, s).
           let m = chunk off n; xs = get_bytes (b_data (bufs s bp)) (unat off mod BSIZE) m in
           bindr (brelse bp s) (\<lambda>s.
           bindr (readi_loop ip (off + of_nat m) (n - m) s) (\<lambda>(ys, s).
           Inr (xs @ ys, s))))))"
  by pat_completeness auto
termination by (relation "measure (\<lambda>(ip, off, n, s). n)") auto

definition dev_of :: "(nat \<Rightarrow> 'f option \<times> 'g option) \<Rightarrow> inode \<Rightarrow> 'f option \<times> 'g option" where
  "dev_of devsw n = (if sint (i_major n) < 0 \<or> sint (i_major n) \<ge> NDEV then (None, None)
     else devsw (unat (i_major n)))"

definition readi :: "'a fs_scheme devsw \<Rightarrow> nat \<Rightarrow> uint \<Rightarrow> uint \<Rightarrow> 'a fs_scheme
    \<Rightarrow> (int \<times> uchar list \<times> 'a fs_scheme) res" where
  "readi devsw ip off n s =
     (if i_type (icache s ip) = T_DEV then
        case fst (dev_of devsw (icache s ip)) of
          None \<Rightarrow> Inr (-1, [], s)
        | Some read \<Rightarrow> read ip (sint n) s
      else let sz = i_size (icache s ip) in
      if off > sz \<or> off + n < off then Inr (-1, [], s)
      else let n = (if off + n > sz then sz - off else n) in
        bindr (readi_loop ip off (unat n) s) (\<lambda>(xs, s). Inr (sint n, xs, s)))"

function writei_loop :: "nat \<Rightarrow> uint \<Rightarrow> uchar list \<Rightarrow> 'a fs_scheme \<Rightarrow> (uint \<times> 'a fs_scheme) res" where
  "writei_loop ip off xs s =
     (if xs = [] then Inr (off, s)
      else bindr (bmap ip (off div of_nat BSIZE) s) (\<lambda>(addr, s).
           bindr (bread (i_dev (icache s ip)) addr s) (\<lambda>(bp, s).
           let m = chunk off (length xs);
               s = upd_buf bp (b_data_update (\<lambda>d. put_bytes d (unat off mod BSIZE) (take m xs))) s in
           bindr (log_write bp s) (\<lambda>s.
           bindr (brelse bp s) (\<lambda>s.
           writei_loop ip (off + of_nat m) (drop m xs) s)))))"
  by pat_completeness auto
termination by (relation "measure (\<lambda>(ip, off, xs, s). length xs)") auto

definition writei :: "'a fs_scheme devsw \<Rightarrow> nat \<Rightarrow> uchar list \<Rightarrow> uint \<Rightarrow> 'a fs_scheme
    \<Rightarrow> (int \<times> 'a fs_scheme) res" where
  "writei devsw ip src off s =
     (let n = of_nat (length src) :: uint in
      if i_type (icache s ip) = T_DEV then
        case snd (dev_of devsw (icache s ip)) of
          None \<Rightarrow> Inr (-1, s)
        | Some write \<Rightarrow> write ip src s
      else if off > i_size (icache s ip) \<or> off + n < off then Inr (-1, s)
      else if off + n > of_nat (MAXFILE * BSIZE) then Inr (-1, s)
      else bindr (writei_loop ip off src s) (\<lambda>(off, s).
        if n > 0 \<and> off > i_size (icache s ip)
        then bindr (iupdate ip (upd_inode ip (\<lambda>k. k\<lparr>i_size := off\<rparr>) s)) (\<lambda>s. Inr (sint n, s))
        else Inr (sint n, s)))"

section \<open>Directories\<close>

text \<open>A directory entry is 16 bytes: the inode number, then \<^verbatim>\<open>DIRSIZ\<close> bytes of name.\<close>

definition dirent_size :: nat where [simp]: "dirent_size = 16"

definition de_inum :: "uchar list \<Rightarrow> ushort" where
  "de_inum de = join16 (de ! 0) (de ! 1)"

definition de_name :: "uchar list \<Rightarrow> nat \<Rightarrow> uchar" where
  "de_name de i = de ! (i + 2)"

definition dirent :: "ushort \<Rightarrow> (nat \<Rightarrow> uchar) \<Rightarrow> uchar list" where
  "dirent inum name = [ucast inum, ucast (drop_bit 8 inum)] @ map name [0..<DIRSIZ]"

definition namecmp :: "(nat \<Rightarrow> uchar) \<Rightarrow> (nat \<Rightarrow> uchar) \<Rightarrow> int" where
  "namecmp s t = strncmp s t DIRSIZ"

text \<open>
  The loops over the entries of a directory.  The fuel is the number of entries that start below
  the size of the directory, which reading does not change.
\<close>

definition dir_entries :: "uint \<Rightarrow> nat" where
  "dir_entries sz = (unat sz + dirent_size - 1) div dirent_size"

primrec dirlookup_loop :: "nat \<Rightarrow> uint \<Rightarrow> 'a fs_scheme devsw \<Rightarrow> nat \<Rightarrow> (nat \<Rightarrow> uchar) \<Rightarrow> 'a fs_scheme
    \<Rightarrow> ((nat \<times> uint) option \<times> 'a fs_scheme) res" where
  "dirlookup_loop 0 off devsw dp name s = Inr (None, s)"
| "dirlookup_loop (Suc k) off devsw dp name s =
     bindr (readi devsw dp off (of_nat dirent_size) s) (\<lambda>(r, de, s).
     if r \<noteq> int dirent_size then Inl (Panic ''dirlookup read'')
     else if de_inum de = 0 then dirlookup_loop k (off + of_nat dirent_size) devsw dp name s
     else if namecmp name (de_name de) = 0
     then bindr (iget (i_dev (icache s dp)) (ucast (de_inum de)) s) (\<lambda>(ip, s). Inr (Some (ip, off), s))
     else dirlookup_loop k (off + of_nat dirent_size) devsw dp name s)"

definition dirlookup :: "'a fs_scheme devsw \<Rightarrow> nat \<Rightarrow> (nat \<Rightarrow> uchar) \<Rightarrow> 'a fs_scheme
    \<Rightarrow> ((nat \<times> uint) option \<times> 'a fs_scheme) res" where
  "dirlookup devsw dp name s =
     (if i_type (icache s dp) \<noteq> T_DIR then Inl (Panic ''dirlookup not DIR'')
      else dirlookup_loop (dir_entries (i_size (icache s dp))) 0 devsw dp name s)"

text \<open>The search for an empty entry yields the offset where the loop stopped.\<close>

primrec dirlink_loop :: "nat \<Rightarrow> uint \<Rightarrow> 'a fs_scheme devsw \<Rightarrow> nat \<Rightarrow> 'a fs_scheme \<Rightarrow> (uint \<times> 'a fs_scheme) res" where
  "dirlink_loop 0 off devsw dp s = Inr (off, s)"
| "dirlink_loop (Suc k) off devsw dp s =
     bindr (readi devsw dp off (of_nat dirent_size) s) (\<lambda>(r, de, s).
     if r \<noteq> int dirent_size then Inl (Panic ''dirlink read'')
     else if de_inum de = 0 then Inr (off, s)
     else dirlink_loop k (off + of_nat dirent_size) devsw dp s)"

definition dirlink :: "'a fs_scheme devsw \<Rightarrow> nat \<Rightarrow> (nat \<Rightarrow> uchar) \<Rightarrow> uint \<Rightarrow> 'a fs_scheme
    \<Rightarrow> (int \<times> 'a fs_scheme) res" where
  "dirlink devsw dp name inum s =
     bindr (dirlookup devsw dp name s) (\<lambda>(r, s).
     case r of
       Some (ip, _) \<Rightarrow> bindr (iput ip s) (\<lambda>s. Inr (-1, s))
     | None \<Rightarrow>
         bindr (dirlink_loop (dir_entries (i_size (icache s dp))) 0 devsw dp s) (\<lambda>(off, s).
         bindr (writei devsw dp (dirent (ucast inum) (strncpy (\<lambda>_. 0) name (int DIRSIZ))) off s) (\<lambda>(r, s).
         if r \<noteq> int dirent_size then Inl (Panic ''dirlink'') else Inr (0, s))))"

section \<open>Paths\<close>

abbreviation slash :: uchar where "slash \<equiv> 47"

definition skipelem :: "uchar list \<Rightarrow> block \<Rightarrow> (uchar list \<times> block) option" where
  "skipelem path name =
     (let path = dropWhile (\<lambda>c. c = slash) path in
      if path = [] then None
      else
        let s = takeWhile (\<lambda>c. c \<noteq> slash) path;
            path = dropWhile (\<lambda>c. c \<noteq> slash) path;
            len = length s;
            name = (if len \<ge> DIRSIZ then put_bytes name 0 (take DIRSIZ s)
                    else (put_bytes name 0 s)(len := 0)) in
        Some (dropWhile (\<lambda>c. c = slash) path, name))"

lemma skipelem_shorter: "skipelem path name = Some (path', name') \<Longrightarrow> length path' < length path"
proof -
  assume a: "skipelem path name = Some (path', name')"
  define p where "p = dropWhile (\<lambda>c. c = slash) path"
  have p: "p \<noteq> []" and p': "path' = dropWhile (\<lambda>c. c = slash) (dropWhile (\<lambda>c. c \<noteq> slash) p)"
    using a by (auto simp: skipelem_def p_def Let_def split: if_splits)
  obtain c q where q: "p = c # q" "c \<noteq> slash"
    using p hd_dropWhile [of "\<lambda>c. c = slash" path] by (cases p) (auto simp: p_def)
  have "length path' \<le> length q"
    using p' q by (simp add: order_trans [OF length_dropWhile_le] length_dropWhile_le)
  moreover have "length p \<le> length path"
    by (simp add: p_def length_dropWhile_le)
  ultimately show ?thesis using q by simp
qed

function namex_loop :: "'a fs_scheme devsw \<Rightarrow> nat \<Rightarrow> uchar list \<Rightarrow> bool \<Rightarrow> block \<Rightarrow> 'a fs_scheme
    \<Rightarrow> (nat option \<times> block \<times> 'a fs_scheme) res" where
  "namex_loop devsw ip path parent name s =
     (case skipelem path name of
        None \<Rightarrow> if parent then bindr (iput ip s) (\<lambda>s. Inr (None, name, s)) else Inr (Some ip, name, s)
      | Some (path, name) \<Rightarrow>
          bindr (ilock ip s) (\<lambda>s.
          if i_type (icache s ip) \<noteq> T_DIR then bindr (iunlockput ip s) (\<lambda>s. Inr (None, name, s))
          else if parent \<and> path = [] then bindr (iunlock ip s) (\<lambda>s. Inr (Some ip, name, s))
          else bindr (dirlookup devsw ip name s) (\<lambda>(next, s).
            case next of
              None \<Rightarrow> bindr (iunlockput ip s) (\<lambda>s. Inr (None, name, s))
            | Some (next, _) \<Rightarrow> bindr (iunlockput ip s) (\<lambda>s. namex_loop devsw next path parent name s))))"
  by pat_completeness auto
termination by (relation "measure (\<lambda>(devsw, ip, path, parent, name, s). length path)")
  (auto dest: skipelem_shorter)

definition namex :: "'a fs_scheme devsw \<Rightarrow> uchar list \<Rightarrow> bool \<Rightarrow> block \<Rightarrow> 'a fs_scheme
    \<Rightarrow> (nat option \<times> block \<times> 'a fs_scheme) res" where
  "namex devsw path parent name s =
     bindr (if path \<noteq> [] \<and> hd path = slash then iget ROOTDEV ROOTINO s
       else case p_cwd (myproc s) of
         Some cwd \<Rightarrow> Inr (idup cwd s)
       | None \<Rightarrow> Inl (Undefined ''null pointer'')) (\<lambda>(ip, s).
     namex_loop devsw ip path parent name s)"

definition namei :: "'a fs_scheme devsw \<Rightarrow> uchar list \<Rightarrow> 'a fs_scheme \<Rightarrow> (nat option \<times> 'a fs_scheme) res" where
  "namei devsw path s = bindr (namex devsw path False (\<lambda>_. 0) s) (\<lambda>(r, _, s). Inr (r, s))"

definition nameiparent :: "'a fs_scheme devsw \<Rightarrow> uchar list \<Rightarrow> block \<Rightarrow> 'a fs_scheme
    \<Rightarrow> (nat option \<times> block \<times> 'a fs_scheme) res" where
  "nameiparent devsw path name s = namex devsw path True name s"

section \<open>The inode cache\<close>

text \<open>Reference counts are not negative and at most one entry in use stands for an inode.\<close>

definition icache_ok :: "(nat \<Rightarrow> inode) \<Rightarrow> bool" where
  "icache_ok ic \<longleftrightarrow> (\<forall>i<NINODE. 0 \<le> i_ref (ic i)) \<and>
     (\<forall>i<NINODE. \<forall>j<NINODE. 0 < i_ref (ic i) \<longrightarrow> 0 < i_ref (ic j) \<longrightarrow>
        i_dev (ic i) = i_dev (ic j) \<longrightarrow> i_inum (ic i) = i_inum (ic j) \<longrightarrow> i = j)"

definition caches :: "inode \<Rightarrow> uint \<Rightarrow> uint \<Rightarrow> bool" where
  "caches n dev inum \<longleftrightarrow> 0 < i_ref n \<and> i_dev n = dev \<and> i_inum n = inum"

text \<open>The references to an inode: the count of the entry that stands for it, if there is one.\<close>

definition irefs :: "(nat \<Rightarrow> inode) \<Rightarrow> uint \<Rightarrow> uint \<Rightarrow> int" where
  "irefs ic dev inum = (\<Sum>i<NINODE. if caches (ic i) dev inum then i_ref (ic i) else 0)"

lemma iget_scan_eq:
  "iget_scan k ip emp dev inum ic =
     (case List.find (\<lambda>i. caches (ic i) dev inum) [ip..<ip + k] of
        Some i \<Rightarrow> Inl i
      | None \<Rightarrow> Inr (if emp \<noteq> None then emp else List.find (\<lambda>i. i_ref (ic i) = 0) [ip..<ip + k]))"
proof (induction k arbitrary: ip emp)
  case (Suc k)
  have "[ip..<ip + Suc k] = ip # [Suc ip..<Suc ip + k]"
    by (simp add: upt_conv_Cons del: upt_Suc)
  then show ?case
    unfolding iget_scan.simps caches_def[symmetric] Suc by (auto split: option.splits simp del: upt_Suc)
qed auto

lemma irefs_cached:
  assumes ok: "icache_ok ic" and i: "i < NINODE" "caches (ic i) dev inum"
  shows "irefs ic dev inum = i_ref (ic i)"
proof -
  have "caches (ic j) dev inum \<longleftrightarrow> j = i" if "j < NINODE" for j
    using ok i that unfolding icache_ok_def caches_def by metis
  then have "irefs ic dev inum = (\<Sum>j<NINODE. if j = i then i_ref (ic j) else 0)"
    unfolding irefs_def by (intro sum.cong) simp_all
  also have "\<dots> = i_ref (ic i)" using i by (simp add: sum.delta)
  finally show ?thesis .
qed

lemma irefs_uncached: "(\<And>i. i < NINODE \<Longrightarrow> \<not> caches (ic i) dev inum) \<Longrightarrow> irefs ic dev inum = 0"
  by (simp add: irefs_def)

lemma irefs_other:
  assumes "\<And>j. j \<noteq> i \<Longrightarrow> ic' j = ic j" "\<not> caches (ic i) dev inum" "\<not> caches (ic' i) dev inum"
  shows "irefs ic' dev inum = irefs ic dev inum"
proof -
  have "(if caches (ic' j) dev inum then i_ref (ic' j) else 0) = (if caches (ic j) dev inum then i_ref (ic j) else 0)" for j
    using assms by (cases "j = i") simp_all
  then show ?thesis by (simp add: irefs_def)
qed

lemma find_SomeD: "List.find P xs = Some x \<Longrightarrow> x \<in> set xs \<and> P x"
  by (induction xs) (auto split: if_splits)

lemma icache_ok_ref:
  assumes "icache_ok ic" "0 < i_ref (ic i)"
  shows "icache_ok (ic(i := (ic i)\<lparr>i_ref := i_ref (ic i) + 1\<rparr>))"
  using assms unfolding icache_ok_def by auto

lemma icache_ok_new:
  assumes "icache_ok ic" "\<forall>j<NINODE. \<not> caches (ic j) dev inum"
  shows "icache_ok (ic(i := (ic i)\<lparr>i_dev := dev, i_inum := inum, i_ref := 1, i_valid := v\<rparr>))"
  using assms unfolding icache_ok_def caches_def by auto

lemma iget_cases:
  fixes s :: "'a fs_scheme"
  obtains (hit) ip where "ip < NINODE" "caches (icache s ip) dev inum"
      "iget dev inum s = Inr (ip, upd_inode ip (\<lambda>i. i\<lparr>i_ref := i_ref i + 1\<rparr>) s)"
  | (full) "\<forall>i<NINODE. \<not> caches (icache s i) dev inum \<and> i_ref (icache s i) \<noteq> 0" "iget dev inum s = Inl (Panic ''iget: no inodes'')"
  | (new) ip where "ip < NINODE" "\<forall>i<NINODE. \<not> caches (icache s i) dev inum" "i_ref (icache s ip) = 0"
      "iget dev inum s = Inr (ip, upd_inode ip (\<lambda>i. i\<lparr>i_dev := dev, i_inum := inum, i_ref := 1, i_valid := False\<rparr>) s)"
proof (cases "List.find (\<lambda>i. caches (icache s i) dev inum) [0..<NINODE]")
  case (Some ip)
  then show ?thesis
    using hit[of ip] find_SomeD[OF Some] by (simp add: iget_def iget_scan_eq)
next
  case None
  then have n: "\<forall>i<NINODE. \<not> caches (icache s i) dev inum"
    by (auto simp: find_None_iff)
  show ?thesis
  proof (cases "List.find (\<lambda>i. i_ref (icache s i) = 0) [0..<NINODE]")
    case None': None
    then have "\<forall>i<NINODE. i_ref (icache s i) \<noteq> 0" by (auto simp: find_None_iff)
    then show ?thesis using full n None None' by (simp add: iget_def iget_scan_eq)
  next
    case (Some ip)
    then show ?thesis using new[of ip] n None find_SomeD[OF Some] by (simp add: iget_def iget_scan_eq)
  qed
qed

text \<open>C20: \<^verbatim>\<open>iget\<close> keeps the cache unambiguous.  It returns the only entry for the inode, with one more
  reference than there were and every other inode's count unchanged; the other entries are as they
  were.  It panics only when every entry is in use by another inode.\<close>

theorem iget_unique:
  assumes "icache_ok (icache s)"
  shows "case iget dev inum s of
      Inr (ip, s') \<Rightarrow> ip < NINODE \<and> icache_ok (icache s') \<and> caches (icache s' ip) dev inum \<and>
        (\<forall>d n. irefs (icache s') d n = irefs (icache s) d n + (if (d, n) = (dev, inum) then 1 else 0)) \<and>
        (\<forall>j. j \<noteq> ip \<longrightarrow> icache s' j = icache s j)
    | Inl e \<Rightarrow> e = Panic ''iget: no inodes'' \<and> (\<forall>i<NINODE. 0 < i_ref (icache s i) \<and> \<not> caches (icache s i) dev inum)"
proof (cases rule: iget_cases[of s dev inum])
  case (hit ip)
  let ?ic = "(icache s)(ip := (icache s ip)\<lparr>i_ref := i_ref (icache s ip) + 1\<rparr>)"
  have ok: "icache_ok ?ic" using icache_ok_ref[OF assms, of ip] hit(2) by (simp add: caches_def)
  have c: "caches (?ic ip) dev inum" using hit(2) by (simp add: caches_def)
  have "irefs ?ic d n = irefs (icache s) d n + (if (d, n) = (dev, inum) then 1 else 0)" for d n
  proof (cases "(d, n) = (dev, inum)")
    case True
    have "irefs ?ic dev inum = i_ref (icache s ip) + 1"
      using irefs_cached[OF ok hit(1) c] by (simp del: fun_upd_apply add: fun_upd_same)
    then show ?thesis using True irefs_cached[OF assms hit(1,2)] by (simp del: fun_upd_apply)
  next
    case False
    then have "irefs ?ic d n = irefs (icache s) d n"
      by (intro irefs_other[of ip]) (use hit(2) in \<open>auto simp: caches_def\<close>)
    then show ?thesis using False by (simp del: fun_upd_apply)
  qed
  then show ?thesis using hit ok c by (simp add: upd_inode_def)
next
  case full
  then show ?thesis using assms by (auto simp: icache_ok_def order.strict_iff_order)
next
  case (new ip)
  let ?ic = "(icache s)(ip := (icache s ip)\<lparr>i_dev := dev, i_inum := inum, i_ref := 1, i_valid := False\<rparr>)"
  have ok: "icache_ok ?ic" by (rule icache_ok_new[OF assms new(2)])
  have c: "caches (?ic ip) dev inum" by (simp add: caches_def)
  have "irefs ?ic d n = irefs (icache s) d n + (if (d, n) = (dev, inum) then 1 else 0)" for d n
  proof (cases "(d, n) = (dev, inum)")
    case True
    have "irefs ?ic dev inum = 1"
      using irefs_cached[OF ok new(1) c] by (simp del: fun_upd_apply add: fun_upd_same)
    then show ?thesis using True irefs_uncached[of "icache s" dev inum] new(2) by (simp del: fun_upd_apply)
  next
    case False
    then have "irefs ?ic d n = irefs (icache s) d n"
      by (intro irefs_other[of ip]) (use new(3) in \<open>auto simp: caches_def\<close>)
    then show ?thesis using False by (simp del: fun_upd_apply)
  qed
  then show ?thesis using new ok c by (simp add: upd_inode_def)
qed

text \<open>An empty cache and a disk of zeroes, for examples.\<close>

definition inode0 :: inode where
  "inode0 = \<lparr>i_dev = 0, i_inum = 0, i_ref = 0, i_lock = initsleeplock, i_valid = False, i_type = 0, i_major = 0,
     i_minor = 0, i_nlink = 0, i_size = 0, i_addrs = (\<lambda>_. 0)\<rparr>"

definition sb0 :: superblock where
  "sb0 = \<lparr>sb_size = 1000, sb_nblocks = 941, sb_ninodes = 200, sb_nlog = 30, sb_logstart = 2, sb_inodestart = 32, sb_bmapstart = 58\<rparr>"

definition cold_fs :: "(sector \<Rightarrow> block) \<Rightarrow> (nat \<Rightarrow> inode) \<Rightarrow> fs" where
  "cold_fs d ic = cold_x d (fs.fields sb0 ic)\<lparr>outstanding := 1\<rparr>"

lemma more_fields:
  fixes s :: fs
  assumes "log.more s = fs.fields b ic"
  shows "sb s = b" "icache s = ic"
  using assms by (cases s; simp add: fs.defs)+

lemma cold_fs_fields [simp]: "icache (cold_fs d ic) = ic" "sb (cold_fs d ic) = sb0" "log_dev (cold_fs d ic) = 1"
proof -
  have "log.more (cold_fs d ic) = fs.fields sb0 ic" by (simp add: cold_fs_def cold_fields)
  then show "icache (cold_fs d ic) = ic" "sb (cold_fs d ic) = sb0" by (rule more_fields)+
qed (simp add: cold_fs_def cold_fields)

theorem iget_unique_witness:
  "icache_ok (icache (cold_fs (\<lambda>_ _. 0) (\<lambda>_. inode0))) \<and>
   (\<exists>ip s'. iget 1 5 (cold_fs (\<lambda>_ _. 0) (\<lambda>_. inode0)) = Inr (ip, s') \<and> irefs (icache s') 1 5 = 1 \<and> irefs (icache s') 1 6 = 0)"
proof -
  let ?s = "cold_fs (\<lambda>_ _. 0) (\<lambda>_. inode0)"
  have ok: "icache_ok (icache ?s)" by (simp add: icache_ok_def inode0_def)
  have "irefs (icache ?s) d n = 0" for d n by (simp add: irefs_def caches_def inode0_def)
  then show ?thesis
    using iget_unique[OF ok, of 1 5] ok by (auto simp: inode0_def split: sum.splits dest: spec[of _ 0])
qed

section \<open>Path elements\<close>

text \<open>The names of a path: the non-empty pieces between slashes.\<close>

fun pieces :: "uchar list \<Rightarrow> uchar list list" where
  "pieces [] = [[]]"
| "pieces (c # cs) = (if c = slash then [] # pieces cs else (c # hd (pieces cs)) # tl (pieces cs))"

definition elems :: "uchar list \<Rightarrow> uchar list list" where
  "elems path = filter (\<lambda>e. e \<noteq> []) (pieces path)"

lemma pieces_nonempty [simp]: "pieces p \<noteq> []"
  by (induction p) auto

lemma elems_slash [simp]: "elems (slash # p) = elems p"
  by (simp add: elems_def)

lemma elems_Nil [simp]: "elems [] = []"
  by (simp add: elems_def)

lemma elems_dropWhile: "elems (dropWhile (\<lambda>c. c = slash) p) = elems p"
  by (induction p) auto

lemma pieces_append: "slash \<notin> set e \<Longrightarrow> pieces (e @ p) = (e @ hd (pieces p)) # tl (pieces p)"
  by (induction e) auto

lemma elems_append:
  assumes "slash \<notin> set e" "e \<noteq> []" "p = [] \<or> hd p = slash"
  shows "elems (e @ p) = e # elems p"
proof (cases p)
  case (Cons c q)
  then have "p = slash # q" using assms(3) by simp
  then show ?thesis using assms by (simp add: elems_def pieces_append)
qed (use assms pieces_append[of e "[]"] in \<open>simp add: elems_def\<close>)

lemma elems_empty_iff: "elems p = [] \<longleftrightarrow> dropWhile (\<lambda>c. c = slash) p = []"
proof (induction p)
  case (Cons c p)
  then show ?case by (cases "c = slash") (auto simp: elems_def)
qed simp

lemma takeWhile_NUL:
  fixes e :: "uchar list"
  assumes "0 \<notin> set e"
  shows "takeWhile (\<lambda>c. c \<noteq> 0) e = e" "takeWhile (\<lambda>c. c \<noteq> 0) (e @ 0 # xs) = e"
  using assms by (induction e) auto

lemma cname_put_bytes:
  assumes "0 \<notin> set e" "length e \<le> n"
  shows "cname n (if length e = n then put_bytes d 0 e else (put_bytes d 0 e)(length e := 0)) = e"
proof -
  have *: "map (put_bytes d 0 e) [0..<length e] = e"
    by (rule nth_equalityI) (auto simp: put_bytes_def)
  show ?thesis
  proof (cases "length e = n")
    case True
    then show ?thesis using * takeWhile_NUL(1)[OF assms(1)] by (simp add: cname_def)
  next
    case False
    then obtain k where k: "n = length e + Suc k"
      using assms(2) by (metis add_Suc_right le_Suc_ex less_imp_Suc_add order_le_imp_less_or_eq)
    have "map ((put_bytes d 0 e)(length e := 0)) [0..<n]
        = map (put_bytes d 0 e) [0..<length e] @ 0 # map (put_bytes d 0 e) [Suc (length e)..<n]"
      unfolding k by (subst upt_add_eq_append) (auto simp: upt_conv_Cons simp del: upt_Suc)
    then show ?thesis using False unfolding * by (simp add: cname_def takeWhile_NUL(2)[OF assms(1)])
  qed
qed

text \<open>C21: \<^verbatim>\<open>skipelem\<close> splits off the first name of a path: it fails exactly when the path has no
  name; otherwise \<open>name\<close> holds the name, cut to \<^verbatim>\<open>DIRSIZ\<close> bytes, the returned path has the remaining
  names, and is empty exactly when the name was the last one.  Nothing beyond the \<^verbatim>\<open>DIRSIZ\<close> bytes of
  \<open>name\<close> is written.\<close>

theorem skipelem_correct:
  assumes "0 \<notin> set path"
  shows "case elems path of
      [] \<Rightarrow> skipelem path name = None
    | e # es \<Rightarrow> \<exists>path' name'. skipelem path name = Some (path', name') \<and> cname DIRSIZ name' = take DIRSIZ e \<and>
        elems path' = es \<and> (path' = [] \<longleftrightarrow> es = []) \<and> (\<forall>i\<ge>DIRSIZ. name' i = name i)"
proof -
  define p where "p = dropWhile (\<lambda>c. c = slash) path"
  have ep: "elems path = elems p" by (simp add: p_def elems_dropWhile)
  show ?thesis
  proof (cases "p = []")
    case True
    then show ?thesis unfolding ep by (simp add: skipelem_def p_def[symmetric])
  next
    case False
    define e q where "e = takeWhile (\<lambda>c. c \<noteq> slash) p" and "q = dropWhile (\<lambda>c. c \<noteq> slash) p"
    have pq: "p = e @ q" by (simp add: e_def q_def)
    have e: "slash \<notin> set e" by (auto simp: e_def dest: set_takeWhileD)
    have "hd p \<noteq> slash" using False hd_dropWhile [of "\<lambda>c. c = slash" path] by (auto simp: p_def)
    then have e': "e \<noteq> []" using False by (cases p) (auto simp: e_def)
    have "q = [] \<or> hd q = slash" using hd_dropWhile[of "\<lambda>c. c \<noteq> slash" p] by (auto simp: q_def)
    then have el: "elems path = e # elems q" unfolding ep pq by (rule elems_append[OF e e'])
    have "0 \<notin> set e" using assms set_dropWhileD[of _ "\<lambda>c. c = slash" path] by (auto simp: e_def p_def dest: set_takeWhileD)
    then have z: "0 \<notin> set (take DIRSIZ e)" by (meson in_set_takeD)
    define name' where "name' = (if length (take DIRSIZ e) = DIRSIZ then put_bytes name 0 (take DIRSIZ e)
        else (put_bytes name 0 (take DIRSIZ e))(length (take DIRSIZ e) := 0))"
    have "skipelem path name = Some (dropWhile (\<lambda>c. c = slash) q, name')"
      using False by (simp add: skipelem_def p_def[symmetric] e_def[symmetric] q_def[symmetric] name'_def Let_def)
    moreover have "cname DIRSIZ name' = take DIRSIZ e"
      unfolding name'_def by (rule cname_put_bytes[OF z]) simp
    moreover have "\<forall>i\<ge>DIRSIZ. name' i = name i"
      by (auto simp: name'_def put_bytes_def)
    ultimately show ?thesis
      unfolding el by (simp add: elems_dropWhile elems_empty_iff[of q])
  qed
qed

theorem skipelem_correct_witness:
  "(0 :: uchar) \<notin> set [47, 47, 97, 47, 98] \<and>
   (\<exists>path' name'. skipelem [47, 47, 97, 47, 98] (\<lambda>_. 0) = Some (path', name') \<and> cname DIRSIZ name' = [97] \<and> elems path' = [[98]])"
  using skipelem_correct[of "[47, 47, 97, 47, 98]" "\<lambda>_. 0"] by (simp add: elems_def) blast

section \<open>Inodes on disk\<close>

lemma put_addrs_outside: "j < k \<or> k + 4 * m \<le> j \<Longrightarrow> put_addrs m a k d j = d j"
  by (induction m) auto

lemma get32_put_addrs:
  "get32 (put_addrs m a k d) (k + 4 * i) = (if i < m then a i else get32 d (k + 4 * i))"
proof (induction m)
  case (Suc m)
  show ?case
  proof (cases "i = m")
    case False
    then have "k + 4 * m + 4 \<le> k + 4 * i \<or> k + 4 * i + 4 \<le> k + 4 * m" by auto
    then show ?thesis using Suc False by simp
  qed simp
qed simp

lemma get_outside:
  "(\<And>i. j \<le> i \<Longrightarrow> i < j + 4 \<Longrightarrow> d' i = d i) \<Longrightarrow> get32 d' j = get32 d j"
  "(\<And>i. j \<le> i \<Longrightarrow> i < j + 2 \<Longrightarrow> d' i = d i) \<Longrightarrow> get16 d' j = get16 d j"
  by (simp_all add: get32_def get16_def)

lemma put_dinode_outside: "j < k \<or> k + 64 \<le> j \<Longrightarrow> put_dinode n k d j = d j"
  by (auto simp: put_dinode_def put_addrs_outside)

lemma get_put_dinode:
  "get_dinode (put_dinode n k d) k m = m\<lparr>i_type := i_type n, i_major := i_major n, i_minor := i_minor n,
     i_nlink := i_nlink n, i_size := i_size n, i_addrs := (\<lambda>i. if i < NDIRECT + 1 then i_addrs n i else i_addrs m i)\<rparr>"
proof -
  have "get16 (put_addrs (NDIRECT + 1) a (k + 12) e) j = get16 e j" if "j + 2 \<le> k + 12" for a e j
    using that by (intro get_outside(2) put_addrs_outside) auto
  moreover have "get32 (put_addrs (NDIRECT + 1) a (k + 12) e) j = get32 e j" if "j + 4 \<le> k + 12" for a e j
    using that by (intro get_outside(1) put_addrs_outside) auto
  ultimately show ?thesis
    by (simp add: get_dinode_def put_dinode_def get32_put_addrs cong: if_cong)
qed

lemma get_put_dinode_other:
  assumes "k + 64 \<le> j \<or> j + 64 \<le> k"
  shows "get_dinode (put_dinode n k d) j m = get_dinode d j m"
proof -
  have "get16 (put_dinode n k d) i = get16 d i" if "j \<le> i" "i + 2 \<le> j + 64" for i
    using assms that by (intro get_outside(2) put_dinode_outside) auto
  moreover have "get32 (put_dinode n k d) i = get32 d i" if "j \<le> i" "i + 4 \<le> j + 64" for i
    using assms that by (intro get_outside(1) put_dinode_outside) auto
  ultimately show ?thesis by (simp add: get_dinode_def cong: if_cong)
qed

text \<open>What the disk and the cache hold for an inode, written over an in-memory inode.\<close>

definition disk_inode :: "'a fs_scheme \<Rightarrow> uint \<Rightarrow> uint \<Rightarrow> inode \<Rightarrow> inode" where
  "disk_inode s dev inum = get_dinode (view s dev (IBLOCK inum (sb s))) (dinode_off inum)"

text \<open>
  The operations below leave \<open>sb\<close> and the inode cache alone: they belong to the extension of the
  states of the layers below.
\<close>

lemma more_fs:
  fixes s s' :: "'a fs_scheme"
  assumes "log.more s' = log.more s"
  shows "sb s' = sb s" "icache s' = icache s" "fs.more s' = fs.more s"
  using assms by (cases s; cases s'; simp)+

lemmas lframe_fs = more_fs[OF lframe_same(7)]
lemmas bframe_fs = more_fs[OF bframe_log(8)]

text \<open>
  \<open>in_txn s k\<close>: the process is inside a transaction that may still log \<open>k\<close> blocks, and it holds no buffer.
\<close>

definition in_txn :: "'a log_scheme \<Rightarrow> nat \<Rightarrow> bool" where
  "in_txn s k \<longleftrightarrow> log_inv s \<and> locked s = {} \<and> 1 \<le> outstanding s \<and> lh_n s + int k < log_size s"

lemma in_txn_can_read:
  assumes "in_txn s k" "0 < b" "b < of_nat FSSIZE"
  shows "can_read s (log_dev s) b" "bio_inv s"
proof -
  have inv: "log_inv s" and l: "locked s = {}" using assms(1) by (auto simp: in_txn_def)
  then have bio: "bio_inv s" and r: "log_ready s" and b: "blocks_ok s (lh_n s) (lh_block s)"
    and d: "dirtied s = Pair (log_dev s) ` lh_block s ` {..<nat (lh_n s)}" by (auto simp: log_inv_def)
  have "card (dirtied s) \<le> nat (lh_n s)"
    unfolding d by (metis card_image_le card_lessThan finite_imageI finite_lessThan order_trans)
  also have "\<dots> < NBUF" using b r by (auto simp: blocks_ok_def log_ready_def)
  finally have "avail s \<noteq> {}" using avail_nonempty[OF bio l] by simp
  then show "can_read s (log_dev s) b"
    using r assms(2,3) l by (auto simp: can_read_def log_ready_def)
  show "bio_inv s" by (rule bio)
qed

lemma in_txn_wrote:
  assumes "in_txn s (Suc k)" "wrote s b v s'"
  shows "in_txn s' k"
proof -
  have fin: "finite (logged s)" by (simp add: logged_def)
  have inv: "log_inv s" using assms(1) by (simp add: in_txn_def)
  have w: "log_inv s'" "lframe s s'" "locked s' = locked s" "logged s' = insert b (logged s)"
    using assms(2) by (simp_all add: wrote_def)
  have "card (logged s') \<le> Suc (card (logged s))" unfolding w(4) using fin by (simp add: card_insert_if)
  then have "lh_n s' \<le> lh_n s + 1" using card_logged[OF inv] card_logged[OF w(1)] by simp
  then show ?thesis using assms(1) w lframe_same[OF w(2)] by (simp add: in_txn_def)
qed

lemma word_mod_8:
  fixes i :: uint
  shows "unat i = unat (i div 8) * 8 + unat i mod 8"
  by (simp add: unat_div)

lemma dinode_disjoint:
  assumes "IBLOCK i sp = IBLOCK j sp" "i \<noteq> j"
  shows "dinode_off i + 64 \<le> dinode_off j \<or> dinode_off j + 64 \<le> dinode_off i"
proof -
  have "i div 8 = j div 8" using assms(1) by (simp add: IBLOCK_def)
  then have "unat i mod 8 \<noteq> unat j mod 8"
    using assms(2) word_mod_8[of i] word_mod_8[of j] by (metis word_unat_eq_iff)
  then show ?thesis by (auto simp: dinode_off_def)
qed

lemma iupdate_ok:
  fixes s :: "'a fs_scheme"
  assumes txn: "in_txn s (Suc k)" and dev: "i_dev (icache s ip) = log_dev s"
    and h: "home s (IBLOCK (i_inum (icache s ip)) (sb s))"
  shows "\<exists>s'. iupdate ip s = Inr s' \<and> in_txn s' k \<and> lframe s s' \<and>
    wrote s (IBLOCK (i_inum (icache s ip)) (sb s))
      (put_dinode (icache s ip) (dinode_off (i_inum (icache s ip))) (view s (log_dev s) (IBLOCK (i_inum (icache s ip)) (sb s)))) s'"
proof -
  let ?n = "icache s ip"
  let ?b = "IBLOCK (i_inum ?n) (sb s)"
  have can: "can_read s (log_dev s) ?b"
    by (rule in_txn_can_read[OF txn]) (use h in \<open>simp_all add: home_def\<close>)
  have t: "log_inv s" "1 \<le> outstanding s" "lh_n s < log_size s - 1" using txn by (auto simp: in_txn_def)
  obtain i s1 s2 s3 where r: "bread (log_dev s) ?b s = Inr (i, s1)"
    and w: "log_write i (upd_buf i (b_data_update (put_dinode ?n (dinode_off (i_inum ?n)))) s1) = Inr s2"
    and rel: "brelse i s2 = Inr s3" and wr: "wrote s ?b (put_dinode ?n (dinode_off (i_inum ?n)) (view s (log_dev s) ?b)) s3"
    using txn_update[OF t(1) can h t(2,3)] by blast
  have "took s (log_dev s) ?b i s1"
    using bread_ok[OF in_txn_can_read(2)[OF txn, of ?b] can] r h by (auto simp: home_def)
  then have ic: "icache s1 = icache s" by (intro bframe_fs(2) took_buf(5))
  have "iupdate ip s = Inr s3"
    using r w rel by (simp add: iupdate_def dev ic)
  then show ?thesis using in_txn_wrote[OF txn wr] wr by (auto simp: wrote_def)
qed

text \<open>C19: Inside a transaction \<^verbatim>\<open>iupdate\<close> returns, and from then on the file system holds on disk what
  the in-memory inode had: its type, device numbers, links, size and block addresses.  Every other
  inode on that disk is untouched, also those in the same block.\<close>

theorem iupdate_stores:
  fixes s :: "'a fs_scheme"
  assumes "in_txn s (Suc k)" and "i_dev (icache s ip) = log_dev s"
    and "home s (IBLOCK (i_inum (icache s ip)) (sb s))"
  shows "\<exists>s'. iupdate ip s = Inr s' \<and> in_txn s' k \<and> icache s' = icache s \<and>
    disk_inode s' (log_dev s) (i_inum (icache s ip)) m = m\<lparr>i_type := i_type (icache s ip), i_major := i_major (icache s ip),
      i_minor := i_minor (icache s ip), i_nlink := i_nlink (icache s ip), i_size := i_size (icache s ip),
      i_addrs := (\<lambda>i. if i < NDIRECT + 1 then i_addrs (icache s ip) i else i_addrs m i)\<rparr> \<and>
    (\<forall>j. j \<noteq> i_inum (icache s ip) \<longrightarrow> disk_inode s' (log_dev s) j = disk_inode s (log_dev s) j)"
proof -
  let ?n = "icache s ip"
  let ?b = "IBLOCK (i_inum ?n) (sb s)"
  obtain s' where s': "iupdate ip s = Inr s'" "in_txn s' k" "lframe s s'"
    and w: "wrote s ?b (put_dinode ?n (dinode_off (i_inum ?n)) (view s (log_dev s) ?b)) s'"
    using iupdate_ok[OF assms] by blast
  note fs = lframe_fs[OF s'(3)]
  have v: "view s' (log_dev s) = (view s (log_dev s))(?b := put_dinode ?n (dinode_off (i_inum ?n)) (view s (log_dev s) ?b))"
    using w by (simp add: wrote_def)
  have "disk_inode s' (log_dev s) j m' = disk_inode s (log_dev s) j m'" if "j \<noteq> i_inum ?n" for j m'
    using get_put_dinode_other[OF dinode_disjoint[of "i_inum ?n" "sb s" j]] that
    by (auto simp: disk_inode_def v fs)
  then show ?thesis
    using s' by (intro exI[of _ s']) (simp add: disk_inode_def v fs get_put_dinode fun_eq_iff)
qed

lemma cold_fs_txn:
  assumes "head_n (d (1, 2)) = 0"
  shows "in_txn (cold_fs d ic) 29" "home (cold_fs d ic) b \<longleftrightarrow> 0 < b \<and> b < 1000 \<and> \<not> (2 \<le> unat b \<and> unat b < 32)"
  using cold_inv[of d "fs.fields sb0 ic", OF assms]
  by (simp_all add: in_txn_def cold_fs_def cold_fields home_def)

theorem iupdate_stores_witness:
  "\<exists>s' :: fs. iupdate 0 (cold_fs (\<lambda>_ _. 0) (\<lambda>_. inode0\<lparr>i_dev := 1, i_inum := 9, i_type := 2, i_size := 77\<rparr>)) = Inr s' \<and>
     i_size (disk_inode s' 1 9 inode0) = 77"
proof -
  let ?n = "inode0\<lparr>i_dev := 1, i_inum := 9, i_type := 2, i_size := 77\<rparr>"
  let ?s = "cold_fs (\<lambda>_ _. 0) (\<lambda>_. ?n)"
  have t: "in_txn ?s (Suc 28)" using cold_fs_txn(1)[of "\<lambda>_ _. 0" "\<lambda>_. ?n"] by simp
  have "IBLOCK 9 sb0 = 33" by (simp add: IBLOCK_def sb0_def)
  then have "home ?s (IBLOCK (i_inum (icache ?s 0)) (sb ?s))" by (simp add: cold_fs_txn(2))
  from iupdate_stores[OF t _ this, of inode0] show ?thesis by auto
qed

end
