(* ===== verification/File.thy ===== *)
theory File
  imports Fs
begin

text \<open>
  Open files and pipes, \<^verbatim>\<open>file.c\<close> and \<^verbatim>\<open>pipe.c\<close>.

  A pointer to a file is an index into \<^verbatim>\<open>ftable.file\<close>.  A pipe lives in a page from \<^verbatim>\<open>kalloc\<close>;
  \<open>pipes\<close> holds it under the address of the page.  Data that user code passes or receives is a list
  of bytes, as in the file system.

  A call that would sleep is \<open>Inl (Asleep ..)\<close>.  \<^verbatim>\<open>pipewrite\<close> can sleep after it has stored a part of
  its bytes, so its loop also says what it has done by then: \<open>pipewrite_loop\<close> returns the pipe and
  the bytes that are left, and the same loop goes on with them when the process is woken up.
\<close>

section \<open>Data\<close>

datatype filetype = FD_NONE | FD_PIPE | FD_INODE

record file_t =
  f_type :: filetype
  f_ref :: int
  f_readable :: bool
  f_writable :: bool
  f_pipe :: uint
  f_ip :: nat
  f_off :: uint

definition PIPESIZE :: nat where [simp]: "PIPESIZE = 512"

record pipe =
  pi_data :: block
  pi_nread :: uint
  pi_nwrite :: uint
  pi_readopen :: bool
  pi_writeopen :: bool

record ftable = fs +
  files :: "nat \<Rightarrow> file_t"
  pipes :: "uint \<Rightarrow> pipe"

definition upd_file :: "nat \<Rightarrow> (file_t \<Rightarrow> file_t) \<Rightarrow> 'a ftable_scheme \<Rightarrow> 'a ftable_scheme" where
  "upd_file f g s = s\<lparr>files := (files s)(f := g (files s f))\<rparr>"

definition upd_pipe :: "uint \<Rightarrow> (pipe \<Rightarrow> pipe) \<Rightarrow> 'a ftable_scheme \<Rightarrow> 'a ftable_scheme" where
  "upd_pipe p g s = s\<lparr>pipes := (pipes s)(p := g (pipes s p))\<rparr>"

section \<open>The file table\<close>

definition filealloc :: "'a ftable_scheme \<Rightarrow> nat option \<times> 'a ftable_scheme" where
  "filealloc s =
     (case List.find (\<lambda>f. f_ref (files s f) = 0) [0..<NFILE] of
        Some f \<Rightarrow> (Some f, upd_file f (\<lambda>x. x\<lparr>f_ref := 1\<rparr>) s)
      | None \<Rightarrow> (None, s))"

definition filedup :: "nat \<Rightarrow> 'a ftable_scheme \<Rightarrow> (nat \<times> 'a ftable_scheme) res" where
  "filedup f s =
     (if f_ref (files s f) < 1 then Inl (Panic ''filedup'')
      else Inr (f, upd_file f (\<lambda>x. x\<lparr>f_ref := f_ref x + 1\<rparr>) s))"

definition pipeclose :: "uint \<Rightarrow> bool \<Rightarrow> 'a ftable_scheme \<Rightarrow> 'a ftable_scheme res" where
  "pipeclose p writable s =
     (let s = (if writable then wakeup (ChanPipeRead p) (upd_pipe p (\<lambda>x. x\<lparr>pi_writeopen := False\<rparr>) s)
               else wakeup (ChanPipeWrite p) (upd_pipe p (\<lambda>x. x\<lparr>pi_readopen := False\<rparr>) s)) in
      if \<not> pi_readopen (pipes s p) \<and> \<not> pi_writeopen (pipes s p) then kfree p s else Inr s)"

definition fileclose :: "nat \<Rightarrow> 'a ftable_scheme \<Rightarrow> 'a ftable_scheme res" where
  "fileclose f s =
     (if f_ref (files s f) < 1 then Inl (Panic ''fileclose'')
      else let s = upd_file f (\<lambda>x. x\<lparr>f_ref := f_ref x - 1\<rparr>) s in
      if f_ref (files s f) > 0 then Inr s
      else
        let ff = files s f; s = upd_file f (\<lambda>x. x\<lparr>f_ref := 0, f_type := FD_NONE\<rparr>) s in
        if f_type ff = FD_PIPE then pipeclose (f_pipe ff) (f_writable ff) s
        else if f_type ff = FD_INODE then bindr (begin_op s) (\<lambda>s. bindr (iput (f_ip ff) s) end_op)
        else Inr s)"

section \<open>Pipes\<close>

definition pipealloc_bad :: "uint \<Rightarrow> nat option \<Rightarrow> nat option \<Rightarrow> 'a ftable_scheme
    \<Rightarrow> ((nat \<times> nat) option \<times> 'a ftable_scheme) res" where
  "pipealloc_bad p f0 f1 s =
     bindr (if p \<noteq> 0 then kfree p s else Inr s) (\<lambda>s.
     bindr (case f0 of Some f \<Rightarrow> fileclose f s | None \<Rightarrow> Inr s) (\<lambda>s.
     bindr (case f1 of Some f \<Rightarrow> fileclose f s | None \<Rightarrow> Inr s) (\<lambda>s.
     Inr (None, s))))"

definition pipealloc :: "'a ftable_scheme \<Rightarrow> ((nat \<times> nat) option \<times> 'a ftable_scheme) res" where
  "pipealloc s =
     (let (f0, s) = filealloc s in case f0 of
        None \<Rightarrow> pipealloc_bad 0 None None s
      | Some r \<Rightarrow> let (f1, s) = filealloc s in case f1 of
          None \<Rightarrow> pipealloc_bad 0 f0 None s
        | Some w \<Rightarrow> let (p, s) = kalloc s in
            if p = 0 then pipealloc_bad 0 f0 f1 s
            else
              let s = upd_pipe p (\<lambda>x. x\<lparr>pi_readopen := True, pi_writeopen := True, pi_nwrite := 0, pi_nread := 0\<rparr>) s;
                  s = upd_file r (\<lambda>x. x\<lparr>f_type := FD_PIPE, f_readable := True, f_writable := False, f_pipe := p\<rparr>) s;
                  s = upd_file w (\<lambda>x. x\<lparr>f_type := FD_PIPE, f_readable := False, f_writable := True, f_pipe := p\<rparr>) s
              in Inr (Some (r, w), s))"

definition pipe_full :: "pipe \<Rightarrow> bool" where
  "pipe_full p \<longleftrightarrow> pi_nwrite p = pi_nread p + of_nat PIPESIZE"

definition pipe_empty :: "pipe \<Rightarrow> bool" where
  "pipe_empty p \<longleftrightarrow> pi_nread p = pi_nwrite p"

definition pipe_put :: "uchar \<Rightarrow> pipe \<Rightarrow> pipe" where
  "pipe_put c p = p\<lparr>pi_data := (pi_data p)(unat (pi_nwrite p) mod PIPESIZE := c), pi_nwrite := pi_nwrite p + 1\<rparr>"

definition pipe_get :: "pipe \<Rightarrow> uchar \<times> pipe" where
  "pipe_get p = (pi_data p (unat (pi_nread p) mod PIPESIZE), p\<lparr>pi_nread := pi_nread p + 1\<rparr>)"

text \<open>
  The loop of \<^verbatim>\<open>pipewrite\<close> up to the point where all bytes are stored (nothing is left) or the pipe is
  full.
\<close>

primrec pipewrite_loop :: "uchar list \<Rightarrow> pipe \<Rightarrow> uchar list \<times> pipe" where
  "pipewrite_loop [] p = ([], p)"
| "pipewrite_loop (x # xs) p = (if pipe_full p then (x # xs, p) else pipewrite_loop xs (pipe_put x p))"

definition pipewrite :: "uint \<Rightarrow> uchar list \<Rightarrow> 'a ftable_scheme \<Rightarrow> (int \<times> 'a ftable_scheme) res" where
  "pipewrite p addr s =
     (let (left, pip) = pipewrite_loop addr (pipes s p); s = upd_pipe p (\<lambda>_. pip) s in
      if left = [] then Inr (int (length addr), wakeup (ChanPipeRead p) s)
      else if \<not> pi_readopen pip \<or> p_killed (myproc s) then Inr (-1, s)
      else Inl (Asleep (ChanPipeWrite p)))"

primrec piperead_loop :: "nat \<Rightarrow> pipe \<Rightarrow> uchar list \<times> pipe" where
  "piperead_loop 0 p = ([], p)"
| "piperead_loop (Suc n) p =
     (if pipe_empty p then ([], p)
      else let (c, p) = pipe_get p; (cs, p) = piperead_loop n p in (c # cs, p))"

definition piperead :: "uint \<Rightarrow> int \<Rightarrow> 'a ftable_scheme \<Rightarrow> (int \<times> uchar list \<times> 'a ftable_scheme) res" where
  "piperead p n s =
     (if pipe_empty (pipes s p) \<and> pi_writeopen (pipes s p)
      then if p_killed (myproc s) then Inr (-1, [], s) else Inl (Asleep (ChanPipeRead p))
      else let (xs, pip) = piperead_loop (nat n) (pipes s p); s = upd_pipe p (\<lambda>_. pip) s
           in Inr (int (length xs), xs, wakeup (ChanPipeWrite p) s))"

section \<open>Reading and writing files\<close>

definition filestat :: "nat \<Rightarrow> 'a ftable_scheme \<Rightarrow> (stat option \<times> 'a ftable_scheme) res" where
  "filestat f s =
     (if f_type (files s f) = FD_INODE then
        let ip = f_ip (files s f) in
        bindr (ilock ip s) (\<lambda>s.
        let st = stati ip s in
        bindr (iunlock ip s) (\<lambda>s. Inr (Some st, s)))
      else Inr (None, s))"

definition fileread :: "'a ftable_scheme devsw \<Rightarrow> nat \<Rightarrow> int \<Rightarrow> 'a ftable_scheme
    \<Rightarrow> (int \<times> uchar list \<times> 'a ftable_scheme) res" where
  "fileread devsw f n s =
     (let ff = files s f in
      if \<not> f_readable ff then Inr (-1, [], s)
      else if f_type ff = FD_PIPE then piperead (f_pipe ff) n s
      else if f_type ff = FD_INODE then
        bindr (ilock (f_ip ff) s) (\<lambda>s.
        bindr (readi devsw (f_ip ff) (f_off ff) (of_int n) s) (\<lambda>(r, xs, s).
        let s = (if r > 0 then upd_file f (\<lambda>x. x\<lparr>f_off := f_off x + of_int r\<rparr>) s else s) in
        bindr (iunlock (f_ip ff) s) (\<lambda>s.
        Inr (r, xs, s))))
      else Inl (Panic ''fileread''))"

definition filewrite_max :: nat where
  "filewrite_max = (MAXOPBLOCKS - 1 - 1 - 2) div 2 * 512"

text \<open>One transaction per round; the result is how many bytes of the list are written.\<close>

function filewrite_loop :: "'a ftable_scheme devsw \<Rightarrow> nat \<Rightarrow> uchar list \<Rightarrow> nat \<Rightarrow> 'a ftable_scheme
    \<Rightarrow> (nat \<times> 'a ftable_scheme) res" where
  "filewrite_loop devsw f xs i s =
     (if length xs \<le> i then Inr (i, s)
      else
        let n1 = min (length xs - i) filewrite_max; ip = f_ip (files s f) in
        bindr (begin_op s) (\<lambda>s.
        bindr (ilock ip s) (\<lambda>s.
        bindr (writei devsw ip (take n1 (drop i xs)) (f_off (files s f)) s) (\<lambda>(r, s).
        let s = (if r > 0 then upd_file f (\<lambda>x. x\<lparr>f_off := f_off x + of_int r\<rparr>) s else s) in
        bindr (iunlock ip s) (\<lambda>s.
        bindr (end_op s) (\<lambda>s.
        if r < 0 then Inr (i, s)
        else if r \<noteq> int n1 then Inl (Panic ''short filewrite'')
        else filewrite_loop devsw f xs (i + n1) s))))))"
  by pat_completeness auto
termination
  by (relation "measure (\<lambda>(devsw, f, xs, i, s). length xs - i)") (auto simp: filewrite_max_def)

definition filewrite :: "'a ftable_scheme devsw \<Rightarrow> nat \<Rightarrow> uchar list \<Rightarrow> 'a ftable_scheme
    \<Rightarrow> (int \<times> 'a ftable_scheme) res" where
  "filewrite devsw f xs s =
     (let ff = files s f in
      if \<not> f_writable ff then Inr (-1, s)
      else if f_type ff = FD_PIPE then pipewrite (f_pipe ff) xs s
      else if f_type ff = FD_INODE then
        bindr (filewrite_loop devsw f xs 0 s) (\<lambda>(i, s).
        Inr (if i = length xs then int (length xs) else -1, s))
      else Inl (Panic ''filewrite''))"

section \<open>A pipe is a bounded queue\<close>

text \<open>
  The counters only grow, modulo \<open>2\<^sup>3\<^sup>2\<close>, and the number of bytes in the pipe is their difference.
  \<open>contents\<close> is the queue the ring buffer stands for.
\<close>

definition pipe_inv :: "pipe \<Rightarrow> bool" where
  "pipe_inv p \<longleftrightarrow> unat (pi_nwrite p - pi_nread p) \<le> PIPESIZE"

definition contents :: "pipe \<Rightarrow> uchar list" where
  "contents p = ring PIPESIZE (pi_data p) (pi_nread p) (pi_nwrite p)"

lemma length_contents [simp]: "length (contents p) = unat (pi_nwrite p - pi_nread p)"
  by (simp add: contents_def)

lemma pipe_empty_iff: "pipe_empty p \<longleftrightarrow> contents p = []"
  by (simp add: pipe_empty_def contents_def ring_empty_iff)

lemma pipe_full_iff: "pipe_full p \<longleftrightarrow> length (contents p) = PIPESIZE"
proof -
  have "pipe_full p \<longleftrightarrow> pi_nwrite p - pi_nread p = 512"
    by (auto simp: pipe_full_def algebra_simps)
  then show ?thesis by (simp add: word_unat_eq_iff)
qed

lemma pipe_put_ok:
  assumes "pipe_inv p" "\<not> pipe_full p"
  shows "pipe_inv (pipe_put c p)" "contents (pipe_put c p) = contents p @ [c]"
proof -
  have n: "unat (pi_nwrite p - pi_nread p) < 512" using assms by (simp add: pipe_inv_def pipe_full_iff)
  then show "pipe_inv (pipe_put c p)" by (simp add: pipe_inv_def pipe_put_def unat_Suc_diff)
  show "contents (pipe_put c p) = contents p @ [c]"
    using ring_snoc[of PIPESIZE "pi_nwrite p" "pi_nread p"] n by (simp add: contents_def pipe_put_def)
qed

lemma pipe_get_ok:
  assumes "pipe_inv p" "\<not> pipe_empty p"
  shows "pipe_inv (snd (pipe_get p))" "contents p = fst (pipe_get p) # contents (snd (pipe_get p))"
proof -
  show c: "contents p = fst (pipe_get p) # contents (snd (pipe_get p))"
    using ring_Cons[of PIPESIZE "pi_nread p" "pi_nwrite p"] assms(2) by (simp add: contents_def pipe_get_def pipe_empty_def)
  have "length (contents p) = Suc (length (contents (snd (pipe_get p))))" by (subst c) (simp only: list.size add_Suc_right add_0_right)
  then show "pipe_inv (snd (pipe_get p))" using assms(1) by (simp add: pipe_inv_def pipe_get_def)
qed

lemma pipewrite_loop_ok:
  assumes "pipe_inv p" "pipewrite_loop xs p = (left, p')"
  shows "pipe_inv p' \<and> contents p' @ left = contents p @ xs \<and> (left \<noteq> [] \<longrightarrow> length (contents p') = PIPESIZE) \<and>
    pi_readopen p' = pi_readopen p \<and> pi_writeopen p' = pi_writeopen p"
  using assms
proof (induction xs arbitrary: p)
  case (Cons x xs)
  show ?case
  proof (cases "pipe_full p")
    case False
    then have "pipewrite_loop xs (pipe_put x p) = (left, p')" using Cons.prems(2) by simp
    from Cons.IH[OF pipe_put_ok(1)[OF Cons.prems(1) False] this] show ?thesis
      using pipe_put_ok(2)[OF Cons.prems(1) False] by (simp add: pipe_put_def)
  qed (use Cons.prems pipe_full_iff in auto)
qed simp

lemma piperead_loop_ok:
  assumes "pipe_inv p" "piperead_loop n p = (xs, p')"
  shows "pipe_inv p' \<and> xs = take n (contents p) \<and> contents p' = drop n (contents p) \<and>
    pi_readopen p' = pi_readopen p \<and> pi_writeopen p' = pi_writeopen p"
  using assms
proof (induction n arbitrary: p xs)
  case (Suc n)
  show ?case
  proof (cases "pipe_empty p")
    case False
    obtain ys where ys: "piperead_loop n (snd (pipe_get p)) = (ys, p')" "xs = fst (pipe_get p) # ys"
      using Suc.prems(2) False by (auto simp: split: prod.splits)
    show ?thesis
      using Suc.IH[OF pipe_get_ok(1)[OF Suc.prems(1) False] ys(1)] pipe_get_ok(2)[OF Suc.prems(1) False] ys(2)
      by (simp add: pipe_get_def)
  next
    case True
    then show ?thesis using Suc.prems pipe_empty_iff[of p] by simp
  qed
qed simp

lemma pipes_upd [simp]: "pipes (upd_pipe p g s) = (pipes s)(p := g (pipes s p))" "procs (upd_pipe p g s) = procs s"
  "cur (upd_pipe p g s) = cur s"
  by (simp_all add: upd_pipe_def)

lemma pipes_wakeup [simp]: "pipes (wakeup ch s) = pipes s" "procs (wakeup ch s) = woken ch (procs s)"
  by (simp_all add: wakeup_eq)

lemma woken_awake: "i < NPROC \<Longrightarrow> p_chan (ps i) = Some ch \<Longrightarrow> p_state (woken ch ps i) \<noteq> SLEEPING"
  by (simp add: woken_def Let_def)

lemma pipewrite_loop_split:
  assumes inv: "pipe_inv p" and w: "pipewrite_loop xs p = (left, p')"
  shows "left = [] \<longleftrightarrow> length (contents p) + length xs \<le> PIPESIZE" "\<exists>ys. xs = ys @ left \<and> contents p' = contents p @ ys"
proof -
  note wk = pipewrite_loop_ok[OF inv w]
  have e: "contents p' @ left = contents p @ xs" using wk by blast
  then have len: "length (contents p') + length left = length (contents p) + length xs" by (metis length_append)
  have full: "left \<noteq> [] \<longrightarrow> length (contents p') = PIPESIZE" using wk by blast
  have "length (contents p') \<le> PIPESIZE" "length (contents p) \<le> PIPESIZE"
    using wk inv by (simp_all add: pipe_inv_def)
  with full len show "left = [] \<longleftrightarrow> length (contents p) + length xs \<le> PIPESIZE"
    by (cases left) (auto simp del: length_contents)
  have "length (contents p) \<le> length (contents p')"
    using full len \<open>length (contents p) \<le> PIPESIZE\<close> by (cases left) (auto simp del: length_contents)
  then obtain ys where ys: "contents p' = contents p @ ys"
    using e by (metis append_eq_append_conv_if append_take_drop_id)
  then show "\<exists>ys. xs = ys @ left \<and> contents p' = contents p @ ys" using e by auto
qed


text \<open>C13: \<^verbatim>\<open>piperead\<close> on a pipe that is not empty, or has no writer left, returns the oldest bytes, as
  many as asked for or as there are, removes exactly them, wakes every writer and touches no other
  pipe.\<close>

theorem piperead_refines_queue:
  assumes inv: "pipe_inv (pipes s p)" and ne: "contents (pipes s p) \<noteq> [] \<or> \<not> pi_writeopen (pipes s p)" and n: "0 \<le> n"
  shows "\<exists>s'. piperead p n s = Inr (int (length (take (nat n) (contents (pipes s p)))), take (nat n) (contents (pipes s p)), s') \<and>
    contents (pipes s' p) = drop (nat n) (contents (pipes s p)) \<and> pipe_inv (pipes s' p) \<and>
    (\<forall>q. q \<noteq> p \<longrightarrow> pipes s' q = pipes s q) \<and>
    (\<forall>i<NPROC. p_chan (procs s i) = Some (ChanPipeWrite p) \<longrightarrow> p_state (procs s' i) \<noteq> SLEEPING)"
proof -
  obtain ys pip where r: "piperead_loop (nat n) (pipes s p) = (ys, pip)" by fastforce
  show ?thesis
    using piperead_loop_ok[OF inv r] r ne woken_awake[of _ "procs s" "ChanPipeWrite p"]
    by (auto simp: piperead_def pipe_empty_iff)
qed

text \<open>A pipe whose counters are about to wrap around, with the bytes 1 and 2 in it.\<close>

definition file0 :: file_t where
  "file0 = \<lparr>f_type = FD_NONE, f_ref = 0, f_readable = False, f_writable = False, f_pipe = 0, f_ip = 0, f_off = 0\<rparr>"

definition cold_ft :: "(nat \<Rightarrow> file_t) \<Rightarrow> pipe \<Rightarrow> ftable" where
  "cold_ft fl pip = fs.extend (cold_fs (\<lambda>_ _. 0) (\<lambda>_. inode0)) (ftable.fields fl (\<lambda>_. pip))"

lemma cold_ft_fields [simp]: "pipes (cold_ft fl pip) = (\<lambda>_. pip)" "files (cold_ft fl pip) = fl"
  by (simp_all add: cold_ft_def fs.defs ftable.defs)

definition wrapping_pipe :: pipe where
  "wrapping_pipe = \<lparr>pi_data = (\<lambda>_. 0)(511 := 1, 0 := 2), pi_nread = 0xFFFFFFFF, pi_nwrite = 1, pi_readopen = True, pi_writeopen = True\<rparr>"

lemma wrapping_pipe_ok: "pipe_inv wrapping_pipe" "contents wrapping_pipe = [1, 2]"
  by (simp_all add: pipe_inv_def contents_def ring_def wrapping_pipe_def upt_rec)


theorem piperead_refines_queue_witness:
  "\<exists>s'. piperead 0 1 (cold_ft (\<lambda>_. file0) wrapping_pipe) = Inr (1, [1], s') \<and> contents (pipes s' 0) = [2]"
  using piperead_refines_queue[of "cold_ft (\<lambda>_. file0) wrapping_pipe" 0 1]
  by (auto simp: wrapping_pipe_ok)

end
