(* ===== verification/Vm.thy ===== *)
theory Vm
  imports Ptable
begin

text \<open>
  Page tables, \<^verbatim>\<open>vm.c\<close>.  A page directory and its page tables are pages of kernel memory, read and
  written with \<open>load32\<close> and \<open>store32\<close>; a pointer is an address and null is 0.

  \<^verbatim>\<open>loaduvm\<close> reads from an inode and is modelled with \<^verbatim>\<open>exec\<close>.  What \<^verbatim>\<open>cprintf\<close> prints is not
  part of the state here.
\<close>

section \<open>Addresses and entries\<close>

definition PDX :: "uint \<Rightarrow> uint" where "PDX va = drop_bit 22 va AND 0x3FF"
definition PTX :: "uint \<Rightarrow> uint" where "PTX va = drop_bit 12 va AND 0x3FF"

definition PGADDR :: "uint \<Rightarrow> uint \<Rightarrow> uint \<Rightarrow> uint" where
  "PGADDR d t x = push_bit 22 d OR push_bit 12 t OR x"

definition PTE_P :: uint where "PTE_P = 1"
definition PTE_W :: uint where "PTE_W = 2"
definition PTE_U :: uint where "PTE_U = 4"
definition PTE_ADDR :: "uint \<Rightarrow> uint" where "PTE_ADDR pte = pte AND NOT 0xFFF"
definition PTE_FLAGS :: "uint \<Rightarrow> uint" where "PTE_FLAGS pte = pte AND 0xFFF"
definition NPDENTRIES :: nat where [simp]: "NPDENTRIES = 1024"
definition KERNLINK :: uint where "KERNLINK = KERNBASE + EXTMEM"

section \<open>Walking and mapping\<close>

definition walkpgdir :: "uint \<Rightarrow> uint \<Rightarrow> bool \<Rightarrow> 'a kmem_scheme \<Rightarrow> uint \<times> 'a kmem_scheme" where
  "walkpgdir pgdir va alloc s =
     (let pde = pgdir + 4 * PDX va in
      if load32 (mem s) pde AND PTE_P \<noteq> 0
      then (P2V (PTE_ADDR (load32 (mem s) pde)) + 4 * PTX va, s)
      else if \<not> alloc then (0, s)
      else let (pgtab, s) = kalloc s in
        if pgtab = 0 then (0, s)
        else let m = memset (mem s) pgtab 0 PGSIZE;
                 m = store32 m pde (V2P pgtab OR PTE_P OR PTE_W OR PTE_U)
             in (pgtab + 4 * PTX va, s\<lparr>mem := m\<rparr>))"

text \<open>
  \<open>a\<close> and \<open>last\<close> of the code are both multiples of the page size, so the loop leaves at
  \<open>a == last\<close> after \<open>(last - a) / PGSIZE\<close> more rounds, \<open>k\<close> here.
\<close>

primrec mappages_loop :: "nat \<Rightarrow> uint \<Rightarrow> uint \<Rightarrow> uint \<Rightarrow> uint \<Rightarrow> 'a kmem_scheme \<Rightarrow> (int \<times> 'a kmem_scheme) res" where
  "mappages_loop 0 pgdir a pa perm s =
     (let (pte, s) = walkpgdir pgdir a True s in
      if pte = 0 then Inr (-1, s)
      else if load32 (mem s) pte AND PTE_P \<noteq> 0 then Inl (Panic ''remap'')
      else Inr (0, s\<lparr>mem := store32 (mem s) pte (pa OR perm OR PTE_P)\<rparr>))"
| "mappages_loop (Suc k) pgdir a pa perm s =
     (let (pte, s) = walkpgdir pgdir a True s in
      if pte = 0 then Inr (-1, s)
      else if load32 (mem s) pte AND PTE_P \<noteq> 0 then Inl (Panic ''remap'')
      else mappages_loop k pgdir (a + PGSIZE) (pa + PGSIZE) perm
             (s\<lparr>mem := store32 (mem s) pte (pa OR perm OR PTE_P)\<rparr>))"

definition mappages :: "uint \<Rightarrow> uint \<Rightarrow> uint \<Rightarrow> uint \<Rightarrow> uint \<Rightarrow> 'a kmem_scheme \<Rightarrow> (int \<times> 'a kmem_scheme) res" where
  "mappages pgdir va sz pa perm s =
     (let a = PGROUNDDOWN va; last = PGROUNDDOWN (va + sz - 1)
      in mappages_loop (unat (last - a) div unat PGSIZE) pgdir a pa perm s)"

section \<open>Freeing\<close>

text \<open>
  Every round moves \<open>a\<close> to a higher page, so \<open>oldsz / PGSIZE + 1\<close> rounds are enough as long as
  \<open>a\<close> does not wrap around, which it cannot below \<^verbatim>\<open>KERNBASE\<close>.
\<close>

primrec deallocuvm_loop :: "nat \<Rightarrow> uint \<Rightarrow> uint \<Rightarrow> uint \<Rightarrow> 'a kmem_scheme \<Rightarrow> 'a kmem_scheme res" where
  "deallocuvm_loop 0 pgdir a oldsz s = (if a < oldsz then Inl (Undefined ''deallocuvm wraps around'') else Inr s)"
| "deallocuvm_loop (Suc k) pgdir a oldsz s =
     (if a < oldsz then
        let pte = fst (walkpgdir pgdir a False s) in
        if pte = 0 then deallocuvm_loop k pgdir (PGADDR (PDX a + 1) 0 0 - PGSIZE + PGSIZE) oldsz s
        else if load32 (mem s) pte AND PTE_P \<noteq> 0 then
          let pa = PTE_ADDR (load32 (mem s) pte) in
          if pa = 0 then Inl (Panic ''kfree'')
          else bindr (kfree (P2V pa) s) (\<lambda>s.
               deallocuvm_loop k pgdir (a + PGSIZE) oldsz (s\<lparr>mem := store32 (mem s) pte 0\<rparr>))
        else deallocuvm_loop k pgdir (a + PGSIZE) oldsz s
      else Inr s)"

definition deallocuvm :: "uint \<Rightarrow> uint \<Rightarrow> uint \<Rightarrow> 'a kmem_scheme \<Rightarrow> (uint \<times> 'a kmem_scheme) res" where
  "deallocuvm pgdir oldsz newsz s =
     (if newsz \<ge> oldsz then Inr (oldsz, s)
      else bindr (deallocuvm_loop (unat oldsz div unat PGSIZE + 1) pgdir (PGROUNDUP newsz) oldsz s) (\<lambda>s.
           Inr (newsz, s)))"

primrec freevm_loop :: "nat \<Rightarrow> nat \<Rightarrow> uint \<Rightarrow> 'a kmem_scheme \<Rightarrow> 'a kmem_scheme res" where
  "freevm_loop 0 i pgdir s = Inr s"
| "freevm_loop (Suc k) i pgdir s =
     (let pde = load32 (mem s) (pgdir + 4 * of_nat i) in
      bindr (if pde AND PTE_P \<noteq> 0 then kfree (P2V (PTE_ADDR pde)) s else Inr s) (\<lambda>s.
      freevm_loop k (Suc i) pgdir s))"

definition freevm :: "uint \<Rightarrow> 'a kmem_scheme \<Rightarrow> 'a kmem_scheme res" where
  "freevm pgdir s =
     (if pgdir = 0 then Inl (Panic ''freevm: no pgdir'')
      else bindr (deallocuvm pgdir KERNBASE 0 s) (\<lambda>(_, s).
           bindr (freevm_loop NPDENTRIES 0 pgdir s) (\<lambda>s.
           kfree pgdir s)))"

section \<open>The kernel's mappings\<close>

record kmap =
  km_virt :: uint
  km_phys_start :: uint
  km_phys_end :: uint
  km_perm :: uint

definition kmaps :: "uint \<Rightarrow> kmap list" where
  "kmaps data =
     [\<lparr>km_virt = KERNBASE, km_phys_start = 0, km_phys_end = EXTMEM, km_perm = PTE_W\<rparr>,
      \<lparr>km_virt = KERNLINK, km_phys_start = V2P KERNLINK, km_phys_end = V2P data, km_perm = 0\<rparr>,
      \<lparr>km_virt = data, km_phys_start = V2P data, km_phys_end = PHYSTOP, km_perm = PTE_W\<rparr>,
      \<lparr>km_virt = DEVSPACE, km_phys_start = DEVSPACE, km_phys_end = 0, km_perm = PTE_W\<rparr>]"

primrec setupkvm_loop :: "kmap list \<Rightarrow> uint \<Rightarrow> 'a kmem_scheme \<Rightarrow> (uint \<times> 'a kmem_scheme) res" where
  "setupkvm_loop [] pgdir s = Inr (pgdir, s)"
| "setupkvm_loop (k # ks) pgdir s =
     bindr (mappages pgdir (km_virt k) (km_phys_end k - km_phys_start k) (km_phys_start k) (km_perm k) s) (\<lambda>(r, s).
     if r < 0 then bindr (freevm pgdir s) (\<lambda>s. Inr (0, s))
     else setupkvm_loop ks pgdir s)"

definition setupkvm :: "'a kmem_scheme \<Rightarrow> (uint \<times> 'a kmem_scheme) res" where
  "setupkvm s =
     (let (pgdir, s) = kalloc s in
      if pgdir = 0 then Inr (0, s)
      else let s = s\<lparr>mem := memset (mem s) pgdir 0 PGSIZE\<rparr> in
        if P2V PHYSTOP > DEVSPACE then Inl (Panic ''PHYSTOP too high'')
        else setupkvm_loop (kmaps (kdata s)) pgdir s)"

section \<open>Switching\<close>

definition SEG_KCODE :: uint where [simp]: "SEG_KCODE = 1"
definition SEG_KDATA :: uint where [simp]: "SEG_KDATA = 2"
definition SEG_UCODE :: uint where [simp]: "SEG_UCODE = 3"
definition SEG_UDATA :: uint where [simp]: "SEG_UDATA = 4"
definition SEG_TSS :: uint where [simp]: "SEG_TSS = 5"
definition STA_X :: uint where [simp]: "STA_X = 8"
definition STA_W :: uint where [simp]: "STA_W = 2"
definition STA_R :: uint where [simp]: "STA_R = 2"
definition STS_T32A :: uint where [simp]: "STS_T32A = 9"
definition DPL_USER :: uint where [simp]: "DPL_USER = 3"

definition seginit :: "cpu \<Rightarrow> cpu" where
  "seginit c = c\<lparr>c_gdt := (c_gdt c)
     (unat SEG_KCODE := SEG (STA_X OR STA_R) 0 0xffffffff 0,
      unat SEG_KDATA := SEG STA_W 0 0xffffffff 0,
      unat SEG_UCODE := SEG (STA_X OR STA_R) 0 0xffffffff DPL_USER,
      unat SEG_UDATA := SEG STA_W 0 0xffffffff DPL_USER)\<rparr>"

definition switchkvm :: "'a ptable_scheme \<Rightarrow> 'a ptable_scheme" where
  "switchkvm s = s\<lparr>mycpu := (mycpu s)\<lparr>c_cr3 := V2P (kpgdir s)\<rparr>\<rparr>"

definition kvmalloc :: "'a ptable_scheme \<Rightarrow> 'a ptable_scheme res" where
  "kvmalloc s = bindr (setupkvm s) (\<lambda>(d, s). Inr (switchkvm (s\<lparr>kpgdir := d\<rparr>)))"

text \<open>The size of the task state is 104 bytes.\<close>

definition switchuvm :: "nat option \<Rightarrow> 'a ptable_scheme \<Rightarrow> 'a ptable_scheme res" where
  "switchuvm p s = (case p of
     None \<Rightarrow> Inl (Panic ''switchuvm: no process'')
   | Some i \<Rightarrow>
       if p_kstack (procs s i) = 0 then Inl (Panic ''switchuvm: no kstack'')
       else if p_pgdir (procs s i) = 0 then Inl (Panic ''switchuvm: no pgdir'')
       else
         let c = pushcli (mycpu s);
             tss = (SEG16 STS_T32A (c_ts_addr c) (104 - 1) 0)\<lparr>sd_s := 0\<rparr>;
             c = c\<lparr>c_gdt := (c_gdt c)(unat SEG_TSS := tss), c_ts_ss0 := ucast (push_bit 3 SEG_KDATA),
                   c_ts_esp0 := p_kstack (procs s i) + of_nat KSTACKSIZE, c_ts_iomb := 0xFFFF,
                   c_cr3 := V2P (p_pgdir (procs s i))\<rparr>
         in bindr (popcli c) (\<lambda>c. Inr (s\<lparr>mycpu := c\<rparr>)))"

section \<open>User memory\<close>

text \<open>Storing the bytes of a kernel object or of a file at an address.\<close>

primrec store_bytes :: "memory \<Rightarrow> uint \<Rightarrow> uchar list \<Rightarrow> memory" where
  "store_bytes m a [] = m"
| "store_bytes m a (x # xs) = store_bytes (m(a := x)) (a + 1) xs"

definition load_bytes :: "memory \<Rightarrow> uint \<Rightarrow> nat \<Rightarrow> uchar list" where
  "load_bytes m a n = map (\<lambda>i. m (a + of_nat i)) [0..<n]"

text \<open>\<^verbatim>\<open>inituvm\<close> uses what \<^verbatim>\<open>kalloc\<close> returns without looking, and so does the model.\<close>

definition inituvm :: "uint \<Rightarrow> uchar list \<Rightarrow> 'a kmem_scheme \<Rightarrow> 'a kmem_scheme res" where
  "inituvm pgdir init s =
     (if of_nat (length init) \<ge> PGSIZE then Inl (Panic ''inituvm: more than a page'')
      else let (m, s) = kalloc s; s = s\<lparr>mem := memset (mem s) m 0 PGSIZE\<rparr> in
        bindr (mappages pgdir 0 PGSIZE (V2P m) (PTE_W OR PTE_U) s) (\<lambda>(_, s).
        Inr (s\<lparr>mem := store_bytes (mem s) m init\<rparr>)))"

text \<open>One round per page from \<open>a\<close> up to \<open>newsz\<close>, which is below \<^verbatim>\<open>KERNBASE\<close>.\<close>

definition pages_to :: "uint \<Rightarrow> uint \<Rightarrow> nat" where
  "pages_to a z = (unat z - unat a + 4095) div 4096"

primrec allocuvm_loop :: "nat \<Rightarrow> uint \<Rightarrow> uint \<Rightarrow> uint \<Rightarrow> uint \<Rightarrow> 'a kmem_scheme \<Rightarrow> (uint \<times> 'a kmem_scheme) res" where
  "allocuvm_loop 0 pgdir a oldsz newsz s = Inr (newsz, s)"
| "allocuvm_loop (Suc k) pgdir a oldsz newsz s =
     (let (m, s) = kalloc s in
      if m = 0 then bindr (deallocuvm pgdir newsz oldsz s) (\<lambda>(_, s). Inr (0, s))
      else let s = s\<lparr>mem := memset (mem s) m 0 PGSIZE\<rparr> in
        bindr (mappages pgdir a PGSIZE (V2P m) (PTE_W OR PTE_U) s) (\<lambda>(r, s).
        if r < 0 then
          bindr (deallocuvm pgdir newsz oldsz s) (\<lambda>(_, s).
          bindr (kfree m s) (\<lambda>s. Inr (0, s)))
        else allocuvm_loop k pgdir (a + PGSIZE) oldsz newsz s))"

definition allocuvm :: "uint \<Rightarrow> uint \<Rightarrow> uint \<Rightarrow> 'a kmem_scheme \<Rightarrow> (uint \<times> 'a kmem_scheme) res" where
  "allocuvm pgdir oldsz newsz s =
     (if newsz \<ge> KERNBASE then Inr (0, s)
      else if newsz < oldsz then Inr (oldsz, s)
      else let a = PGROUNDUP oldsz in allocuvm_loop (pages_to a newsz) pgdir a oldsz newsz s)"

definition clearpteu :: "uint \<Rightarrow> uint \<Rightarrow> 'a kmem_scheme \<Rightarrow> 'a kmem_scheme res" where
  "clearpteu pgdir uva s =
     (let pte = fst (walkpgdir pgdir uva False s) in
      if pte = 0 then Inl (Panic ''clearpteu'')
      else Inr (s\<lparr>mem := store32 (mem s) pte (load32 (mem s) pte AND NOT PTE_U)\<rparr>))"

primrec copyuvm_loop :: "nat \<Rightarrow> uint \<Rightarrow> uint \<Rightarrow> uint \<Rightarrow> 'a kmem_scheme \<Rightarrow> (uint \<times> 'a kmem_scheme) res" where
  "copyuvm_loop 0 pgdir d i s = Inr (d, s)"
| "copyuvm_loop (Suc k) pgdir d i s =
     (let pte = fst (walkpgdir pgdir i False s) in
      if pte = 0 then Inl (Panic ''copyuvm: pte should exist'')
      else let e = load32 (mem s) pte in
      if e AND PTE_P = 0 then Inl (Panic ''copyuvm: page not present'')
      else let pa = PTE_ADDR e; flags = PTE_FLAGS e; (m, s) = kalloc s in
      if m = 0 then bindr (freevm d s) (\<lambda>s. Inr (0, s))
      else let s = s\<lparr>mem := memmove (mem s) m (P2V pa) PGSIZE\<rparr> in
        bindr (mappages d i PGSIZE (V2P m) flags s) (\<lambda>(r, s).
        if r < 0 then bindr (kfree m s) (\<lambda>s. bindr (freevm d s) (\<lambda>s. Inr (0, s)))
        else copyuvm_loop k pgdir d (i + PGSIZE) s))"

definition copyuvm :: "uint \<Rightarrow> uint \<Rightarrow> 'a kmem_scheme \<Rightarrow> (uint \<times> 'a kmem_scheme) res" where
  "copyuvm pgdir sz s =
     bindr (setupkvm s) (\<lambda>(d, s).
     if d = 0 then Inr (0, s) else copyuvm_loop (pages_to 0 sz) pgdir d 0 s)"

definition uva2ka :: "uint \<Rightarrow> uint \<Rightarrow> 'a kmem_scheme \<Rightarrow> uint res" where
  "uva2ka pgdir uva s =
     (let pte = fst (walkpgdir pgdir uva False s) in
      if pte = 0 then Inl (Undefined ''null pointer'')
      else let e = load32 (mem s) pte in
      if e AND PTE_P = 0 then Inr 0
      else if e AND PTE_U = 0 then Inr 0
      else Inr (P2V (PTE_ADDR e)))"

text \<open>Bytes of a page from \<open>va\<close> on.\<close>

abbreviation page_rest :: "uint \<Rightarrow> nat" where
  "page_rest va \<equiv> 4096 - unat (va - PGROUNDDOWN va)"

lemma page_rest_pos: "0 < page_rest va"
proof -
  have "unat (va - PGROUNDDOWN va) = unat va mod 4096"
    using unat_PGROUNDDOWN[of va] by (simp add: unat_sub word_le_nat_alt)
  then show ?thesis by simp
qed

function copyout :: "uint \<Rightarrow> uint \<Rightarrow> uchar list \<Rightarrow> 'a kmem_scheme \<Rightarrow> (int \<times> 'a kmem_scheme) res" where
  "copyout pgdir va p s =
     (if p = [] then Inr (0, s)
      else let va0 = PGROUNDDOWN va in
        bindr (uva2ka pgdir va0 s) (\<lambda>pa0.
        if pa0 = 0 then Inr (-1, s)
        else let n = min (page_rest va) (length p) in
          copyout pgdir (va0 + PGSIZE) (drop n p) (s\<lparr>mem := store_bytes (mem s) (pa0 + (va - va0)) (take n p)\<rparr>)))"
  by pat_completeness auto
termination
proof (relation "measure (\<lambda>(pgdir, va, p, s). length p)", goal_cases)
  case (2 pgdir va p s va0 pa0 n)
  then show ?case using page_rest_pos[of va] by (cases p) auto
qed simp

section \<open>The paging hardware\<close>

text \<open>
  What the hardware does with an address: the kernel address of the byte that virtual address \<open>va\<close> is
  mapped to, if the page directory and page table entries are present.  Writes also need \<^verbatim>\<open>PTE_W\<close>,
  in the kernel too.  The kernel runs on the page table of the current process, and a fault of the
  kernel ends in \<open>panic("trap")\<close>.
\<close>

definition pte_of :: "memory \<Rightarrow> uint \<Rightarrow> uint \<Rightarrow> uint" where
  "pte_of m pgdir va =
     (let pde = load32 m (pgdir + 4 * PDX va) in
      if pde AND PTE_P = 0 then 0 else load32 m (P2V (PTE_ADDR pde) + 4 * PTX va))"

definition translate :: "memory \<Rightarrow> uint \<Rightarrow> uint \<Rightarrow> uint option" where
  "translate m pgdir va =
     (let pte = pte_of m pgdir va in
      if pte AND PTE_P = 0 then None else Some (P2V (PTE_ADDR pte) + (va AND 0xFFF)))"

definition user_load :: "uint \<Rightarrow> 'a ptable_scheme \<Rightarrow> uchar res" where
  "user_load va s = (case translate (mem s) (p_pgdir (myproc s)) va of
     Some a \<Rightarrow> Inr (mem s a) | None \<Rightarrow> Inl (Panic ''trap''))"

definition user_store :: "uint \<Rightarrow> uchar \<Rightarrow> 'a ptable_scheme \<Rightarrow> 'a ptable_scheme res" where
  "user_store va x s = (case translate (mem s) (p_pgdir (myproc s)) va of
     Some a \<Rightarrow> if pte_of (mem s) (p_pgdir (myproc s)) va AND PTE_W = 0 then Inl (Panic ''trap'')
               else Inr (s\<lparr>mem := (mem s)(a := x)\<rparr>)
   | None \<Rightarrow> Inl (Panic ''trap''))"

primrec user_read :: "nat \<Rightarrow> uint \<Rightarrow> 'a ptable_scheme \<Rightarrow> uchar list res" where
  "user_read 0 va s = Inr []"
| "user_read (Suc n) va s = bindr (user_load va s) (\<lambda>x. bindr (user_read n (va + 1) s) (\<lambda>xs. Inr (x # xs)))"

primrec user_write :: "uchar list \<Rightarrow> uint \<Rightarrow> 'a ptable_scheme \<Rightarrow> 'a ptable_scheme res" where
  "user_write [] va s = Inr s"
| "user_write (x # xs) va s = bindr (user_store va x s) (\<lambda>s. user_write xs (va + 1) s)"

definition user_load32 :: "uint \<Rightarrow> 'a ptable_scheme \<Rightarrow> uint res" where
  "user_load32 va s = bindr (user_read 4 va s) (\<lambda>xs. Inr (join32 (xs ! 0) (xs ! 1) (xs ! 2) (xs ! 3)))"

definition word_bytes :: "uint \<Rightarrow> uchar list" where
  "word_bytes v = [ucast v, ucast (drop_bit 8 v), ucast (drop_bit 16 v), ucast (drop_bit 24 v)]"

section \<open>Parts of an address\<close>

lemma and_mask_10: "(a :: uint) AND 0x3FF = take_bit 10 a"
  by (simp add: take_bit_eq_mask mask_eq_exp_minus_1)

lemma unat_take_bit: "unat (take_bit n (a :: uint)) = unat a mod 2 ^ n"
  unfolding unsigned_take_bit_eq by (rule take_bit_eq_mod)

lemma unat_PDX: "unat (PDX va) = unat va div 4194304"
proof -
  have "unat va div 4194304 < 1024" using unat_uint_bound[of va] by simp
  then show ?thesis by (simp add: PDX_def and_mask_10 unat_take_bit drop_bit_eq_div unat_div)
qed

lemma unat_PTX: "unat (PTX va) = unat va div 4096 mod 1024"
  by (simp add: PTX_def and_mask_10 unat_take_bit drop_bit_eq_div unat_div)

lemma unat_page_offset: "unat (va AND 0xFFF :: uint) = unat va mod 4096"
proof -
  have "va AND 0xFFF = take_bit 12 va" by (simp add: take_bit_eq_mask mask_eq_exp_minus_1)
  then show ?thesis by (simp add: unat_take_bit)
qed

section \<open>What the operations on page tables leave alone\<close>

text \<open>They change memory and the free list; \<open>rest\<close> is the other part of the state.\<close>

definition rest :: "'a kmem_scheme \<Rightarrow> 'a kmem_scheme" where
  "rest s = s\<lparr>mem := (\<lambda>_. 0), freelist := 0\<rparr>"

lemma rest_upd [simp]: "rest (s\<lparr>mem := m\<rparr>) = rest s" "rest (s\<lparr>freelist := f\<rparr>) = rest s"
  by (simp_all add: rest_def)

lemma rest_kalloc: "kalloc t = (r, u) \<Longrightarrow> rest u = rest t"
  by (auto simp: kalloc_def Let_def split: if_splits)

lemma rest_kfree: "kfree v t = Inr u \<Longrightarrow> rest u = rest t"
  by (auto simp: kfree_def Let_def split: if_splits)

lemma rest_walkpgdir: "walkpgdir d va alloc t = (r, u) \<Longrightarrow> rest u = rest t"
  by (auto simp: walkpgdir_def Let_def split: if_splits prod.splits dest!: rest_kalloc)

lemma rest_mappages_loop: "mappages_loop k d a pa perm t = Inr (r, u) \<Longrightarrow> rest u = rest t"
proof (induction k arbitrary: a pa t)
  case 0
  then show ?case by (auto simp: Let_def split: if_splits prod.splits dest: rest_walkpgdir)
next
  case (Suc k)
  then show ?case by (auto simp: Let_def split: if_splits prod.splits dest!: rest_walkpgdir)
qed

lemma rest_mappages: "mappages d va sz pa perm t = Inr (r, u) \<Longrightarrow> rest u = rest t"
  by (auto simp: mappages_def Let_def dest: rest_mappages_loop)

lemma rest_deallocuvm_loop: "deallocuvm_loop k d a oldsz t = Inr u \<Longrightarrow> rest u = rest t"
proof (induction k arbitrary: a t)
  case (Suc k)
  then show ?case by (auto simp: Let_def split: if_splits dest!: rest_kfree)
qed (auto split: if_splits)

lemma rest_deallocuvm: "deallocuvm d oldsz newsz t = Inr (r, u) \<Longrightarrow> rest u = rest t"
  by (auto simp: deallocuvm_def split: if_splits dest!: rest_deallocuvm_loop simp del: deallocuvm_loop.simps)

lemma rest_freevm_loop: "freevm_loop k i d t = Inr u \<Longrightarrow> rest u = rest t"
proof (induction k arbitrary: i t)
  case (Suc k)
  then show ?case by (auto simp: Let_def split: if_splits dest!: rest_kfree)
qed simp

lemma rest_freevm:
  assumes "freevm d t = Inr u"
  shows "rest u = rest t"
proof -
  obtain r a b where *: "deallocuvm d KERNBASE 0 t = Inr (r, a)" "freevm_loop NPDENTRIES 0 d a = Inr b" "kfree d b = Inr u"
    using assms unfolding freevm_def by (simp del: KERNBASE_def NPDENTRIES_def split: if_splits prod.splits) blast
  show ?thesis using rest_deallocuvm[OF *(1)] rest_freevm_loop[OF *(2)] rest_kfree[OF *(3)] by simp
qed

lemma rest_setupkvm_loop: "setupkvm_loop ks d t = Inr (r, u) \<Longrightarrow> rest u = rest t"
proof (induction ks arbitrary: t)
  case (Cons k ks)
  obtain x a where m: "mappages d (km_virt k) (km_phys_end k - km_phys_start k) (km_phys_start k) (km_perm k) t = Inr (x, a)"
    using Cons.prems by auto
  show ?case
  proof (cases "x < 0")
    case True
    then obtain b where "freevm d a = Inr b" "u = b" using Cons.prems m by auto
    then show ?thesis using rest_mappages[OF m] rest_freevm by metis
  next
    case False
    then have "setupkvm_loop ks d a = Inr (r, u)" using Cons.prems m by auto
    then show ?thesis using rest_mappages[OF m] Cons.IH by metis
  qed
qed simp

lemma rest_setupkvm: "setupkvm t = Inr (r, u) \<Longrightarrow> rest u = rest t"
  by (auto simp: setupkvm_def Let_def split: if_splits prod.splits dest!: rest_kalloc rest_setupkvm_loop)

lemma rest_allocuvm_loop: "allocuvm_loop k d a oldsz newsz t = Inr (r, u) \<Longrightarrow> rest u = rest t"
proof (induction k arbitrary: a t)
  case (Suc k)
  then show ?case
    by (auto simp: Let_def split: if_splits prod.splits dest!: rest_kalloc rest_mappages rest_deallocuvm rest_kfree)
qed simp

lemma rest_allocuvm: "allocuvm d oldsz newsz t = Inr (r, u) \<Longrightarrow> rest u = rest t"
  by (auto simp: allocuvm_def Let_def split: if_splits dest: rest_allocuvm_loop)

lemma rest_copyuvm_loop: "copyuvm_loop k d e i t = Inr (r, u) \<Longrightarrow> rest u = rest t"
proof (induction k arbitrary: i t)
  case (Suc k)
  then show ?case
    by (auto simp: Let_def split: if_splits prod.splits dest!: rest_kalloc rest_mappages rest_freevm rest_kfree)
qed simp

lemma rest_copyuvm: "copyuvm d sz t = Inr (r, u) \<Longrightarrow> rest u = rest t"
  by (auto simp: copyuvm_def split: if_splits dest!: rest_setupkvm rest_copyuvm_loop)

lemma rest_inituvm: "inituvm d init t = Inr u \<Longrightarrow> rest u = rest t"
  by (auto simp: inituvm_def Let_def split: if_splits prod.splits dest!: rest_kalloc rest_mappages)

lemma rest_fields [simp]:
  "use_lock (rest s) = use_lock s" "kend (rest s) = kend s" "kdata (rest s) = kdata s" "ksym (rest s) = ksym s"
  "kmem.more (rest s) = kmem.more s"
  by (simp_all add: rest_def)

lemma rest_procs_fields [simp]:
  fixes s :: "'a ptable_scheme"
  shows "procs (rest s) = procs s" "cur (rest s) = cur s" "nextpid (rest s) = nextpid s" "initproc (rest s) = initproc s"
    "kpgdir (rest s) = kpgdir s" "mycpu (rest s) = mycpu s" "ptable.more (rest s) = ptable.more s"
  by (simp_all add: rest_def)

lemma rest_procs:
  fixes s s' :: "'a ptable_scheme"
  assumes "rest s' = rest s"
  shows "procs s' = procs s" "cur s' = cur s" "nextpid s' = nextpid s" "initproc s' = initproc s" "kpgdir s' = kpgdir s"
    "mycpu s' = mycpu s" "ptable.more s' = ptable.more s"
  using assms by (metis rest_procs_fields)+

end
