(* ===== verification/Proc.thy ===== *)
theory Proc
  imports File Vm
begin

text \<open>
  Processes, \<^verbatim>\<open>proc.c\<close>: creating, growing, forking, ending and waiting.  The scheduler and
  the hand-over between processes are in a theory of their own.

  \<open>exit\<close> describes the state when the process calls \<^verbatim>\<open>sched\<close>, from which it does not come back.
\<close>

section \<open>State\<close>

text \<open>\<open>ticks\<close> is the clock of \<^verbatim>\<open>trap.c\<close>; \<open>first\<close> is the static variable of \<^verbatim>\<open>forkret\<close>.\<close>

record kern = ftable +
  ticks :: uint
  first :: bool

section \<open>Creating a process\<close>

definition allocproc :: "'a ptable_scheme \<Rightarrow> nat option \<times> 'a ptable_scheme" where
  "allocproc s =
     (case List.find (\<lambda>p. p_state (procs s p) = UNUSED) [0..<NPROC] of
        None \<Rightarrow> (None, s)
      | Some p \<Rightarrow>
          let s = upd_proc p (\<lambda>x. x\<lparr>p_state := EMBRYO, p_pid := nextpid s\<rparr>) s;
              s = s\<lparr>nextpid := nextpid s + 1\<rparr>;
              (ks, s) = kalloc s;
              s = upd_proc p (\<lambda>x. x\<lparr>p_kstack := ks\<rparr>) s in
          if ks = 0 then (None, upd_proc p (\<lambda>x. x\<lparr>p_state := UNUSED\<rparr>) s)
          else
            let sp = ks + of_nat KSTACKSIZE - 76;
                sp = sp - 4;
                s = s\<lparr>mem := store32 (mem s) sp (ksym s ''trapret'')\<rparr>;
                sp = sp - 20;
                s = upd_proc p (\<lambda>x. x\<lparr>p_context := sp\<rparr>) s;
                s = s\<lparr>mem := memset (mem s) sp 0 20\<rparr>;
                s = s\<lparr>mem := store32 (mem s) (sp + 16) (ksym s ''forkret'')\<rparr>
            in (Some p, s))"

text \<open>String literals of the source, and a string as the array at its address.\<close>

definition ascii :: "string \<Rightarrow> uchar list" where
  "ascii cs = map of_char cs"

definition cstr :: "uchar list \<Rightarrow> nat \<Rightarrow> uchar" where
  "cstr xs i = (if i < length xs then xs ! i else 0)"

definition FL_IF :: uint where [simp]: "FL_IF = 0x200"

text \<open>The machine code of \<^verbatim>\<open>initcode.S\<close> is linked into the kernel; it is an argument here.\<close>

definition userinit :: "uchar list \<Rightarrow> 'a fs_scheme devsw \<Rightarrow> 'a fs_scheme \<Rightarrow> 'a fs_scheme res" where
  "userinit initcode devsw s =
     (let (r, s) = allocproc s; s = s\<lparr>initproc := r\<rparr> in
      case r of
        None \<Rightarrow> Inl (Undefined ''null pointer'')
      | Some p \<Rightarrow>
          bindr (setupkvm s) (\<lambda>(d, s).
          if d = 0 then Inl (Panic ''userinit: out of memory?'')
          else
            bindr (inituvm d initcode (upd_proc p (\<lambda>x. x\<lparr>p_pgdir := d\<rparr>) s)) (\<lambda>s.
            let ucs = ucast (push_bit 3 SEG_UCODE OR DPL_USER); uds = ucast (push_bit 3 SEG_UDATA OR DPL_USER);
                s = upd_proc p (\<lambda>x. x\<lparr>p_sz := PGSIZE, p_tf := tf0\<lparr>tf_cs := ucs, tf_ds := uds, tf_es := uds, tf_ss := uds,
                      tf_eflags := FL_IF, tf_esp := PGSIZE, tf_eip := 0\<rparr>,
                      p_name := safestrcpy (p_name x) (cstr (ascii ''initcode'')) 16\<rparr>) s in
            bindr (namei devsw [slash] s) (\<lambda>(cwd, s).
            Inr (upd_proc p (\<lambda>x. x\<lparr>p_cwd := cwd, p_state := RUNNABLE\<rparr>) s)))))"

section \<open>Growing\<close>

definition growproc :: "int \<Rightarrow> 'a ptable_scheme \<Rightarrow> (int \<times> 'a ptable_scheme) res" where
  "growproc n s =
     (let sz = p_sz (myproc s); d = p_pgdir (myproc s);
          done = (\<lambda>sz s. bindr (switchuvm (Some (cur s)) (upd_proc (cur s) (\<lambda>x. x\<lparr>p_sz := sz\<rparr>) s)) (\<lambda>s. Inr (0, s))) in
      if n > 0 then bindr (allocuvm d sz (sz + of_int n) s) (\<lambda>(sz, s). if sz = 0 then Inr (-1, s) else done sz s)
      else if n < 0 then bindr (deallocuvm d sz (sz + of_int n) s) (\<lambda>(sz, s). if sz = 0 then Inr (-1, s) else done sz s)
      else done sz s)"

section \<open>Fork\<close>

primrec fork_files :: "nat \<Rightarrow> nat \<Rightarrow> nat \<Rightarrow> 'a ftable_scheme \<Rightarrow> 'a ftable_scheme res" where
  "fork_files 0 i np s = Inr s"
| "fork_files (Suc k) i np s =
     bindr (case p_ofile (myproc s) i of
       None \<Rightarrow> Inr s
     | Some f \<Rightarrow> bindr (filedup f s) (\<lambda>(f, s). Inr (upd_proc np (\<lambda>x. x\<lparr>p_ofile := (p_ofile x)(i := Some f)\<rparr>) s))) (\<lambda>s.
     fork_files k (Suc i) np s)"

definition fork :: "'a ftable_scheme \<Rightarrow> (int \<times> 'a ftable_scheme) res" where
  "fork s =
     (let (r, s) = allocproc s in
      case r of
        None \<Rightarrow> Inr (-1, s)
      | Some np \<Rightarrow>
          bindr (copyuvm (p_pgdir (myproc s)) (p_sz (myproc s)) s) (\<lambda>(d, s).
          let s = upd_proc np (\<lambda>x. x\<lparr>p_pgdir := d\<rparr>) s in
          if d = 0 then
            bindr (kfree (p_kstack (procs s np)) s) (\<lambda>s.
            Inr (-1, upd_proc np (\<lambda>x. x\<lparr>p_kstack := 0, p_state := UNUSED\<rparr>) s))
          else
            let s = upd_proc np (\<lambda>x. x\<lparr>p_sz := p_sz (myproc s), p_parent := Some (cur s), p_tf := (p_tf (myproc s))\<lparr>tf_eax := 0\<rparr>\<rparr>) s in
            bindr (fork_files NOFILE 0 np s) (\<lambda>s.
            case p_cwd (myproc s) of
              None \<Rightarrow> Inl (Undefined ''null pointer'')
            | Some cwd \<Rightarrow>
                let (cwd, s) = idup cwd s;
                    s = upd_proc np (\<lambda>x. x\<lparr>p_cwd := Some cwd, p_name := safestrcpy (p_name x) (p_name (myproc s)) 16\<rparr>) s;
                    pid = p_pid (procs s np)
                in Inr (pid, upd_proc np (\<lambda>x. x\<lparr>p_state := RUNNABLE\<rparr>) s))))"

section \<open>Exit and wait\<close>

primrec exit_files :: "nat \<Rightarrow> nat \<Rightarrow> 'a ftable_scheme \<Rightarrow> 'a ftable_scheme res" where
  "exit_files 0 fd s = Inr s"
| "exit_files (Suc k) fd s =
     bindr (case p_ofile (myproc s) fd of
       None \<Rightarrow> Inr s
     | Some f \<Rightarrow> bindr (fileclose f s) (\<lambda>s. Inr (upd_proc (cur s) (\<lambda>x. x\<lparr>p_ofile := (p_ofile x)(fd := None)\<rparr>) s))) (\<lambda>s.
     exit_files k (Suc fd) s)"

text \<open>\<^verbatim>\<open>wakeup1\<close> of a pointer to a process, which may be null.\<close>

definition wakeup_proc :: "nat option \<Rightarrow> 'a ptable_scheme \<Rightarrow> 'a ptable_scheme" where
  "wakeup_proc p s = (case p of
     Some i \<Rightarrow> wakeup1 (ChanProc i) s
   | None \<Rightarrow> s\<lparr>procs := (\<lambda>i. if i < NPROC \<and> p_state (procs s i) = SLEEPING \<and> p_chan (procs s i) = None
                             then (procs s i)\<lparr>p_state := RUNNABLE\<rparr> else procs s i)\<rparr>)"

primrec reparent :: "nat \<Rightarrow> nat \<Rightarrow> 'a ptable_scheme \<Rightarrow> 'a ptable_scheme" where
  "reparent 0 p s = s"
| "reparent (Suc k) p s =
     (let s = (if p_parent (procs s p) = Some (cur s) then
                 let s = upd_proc p (\<lambda>x. x\<lparr>p_parent := initproc s\<rparr>) s
                 in if p_state (procs s p) = ZOMBIE then wakeup_proc (initproc s) s else s
               else s)
      in reparent k (Suc p) s)"

definition exit :: "'a ftable_scheme \<Rightarrow> 'a ftable_scheme res" where
  "exit s =
     (if initproc s = Some (cur s) then Inl (Panic ''init exiting'')
      else
        bindr (exit_files NOFILE 0 s) (\<lambda>s.
        bindr (begin_op s) (\<lambda>s.
        bindr (case p_cwd (myproc s) of Some cwd \<Rightarrow> iput cwd s | None \<Rightarrow> Inl (Undefined ''null pointer'')) (\<lambda>s.
        bindr (end_op s) (\<lambda>s.
        let s = upd_proc (cur s) (\<lambda>x. x\<lparr>p_cwd := None\<rparr>) s;
            s = wakeup_proc (p_parent (myproc s)) s;
            s = reparent NPROC 0 s
        in Inr (upd_proc (cur s) (\<lambda>x. x\<lparr>p_state := ZOMBIE\<rparr>) s))))))"

definition wait :: "'a ptable_scheme \<Rightarrow> (int \<times> 'a ptable_scheme) res" where
  "wait s =
     (let kid = (\<lambda>p. p_parent (procs s p) = Some (cur s)) in
      case List.find (\<lambda>p. kid p \<and> p_state (procs s p) = ZOMBIE) [0..<NPROC] of
        Some p \<Rightarrow>
          let pid = p_pid (procs s p) in
          bindr (kfree (p_kstack (procs s p)) s) (\<lambda>s.
          let s = upd_proc p (\<lambda>x. x\<lparr>p_kstack := 0\<rparr>) s in
          bindr (freevm (p_pgdir (procs s p)) s) (\<lambda>s.
          Inr (pid, upd_proc p (\<lambda>x. x\<lparr>p_pid := 0, p_parent := None, p_name := (p_name x)(0 := 0), p_killed := False,
                       p_state := UNUSED\<rparr>) s)))
      | None \<Rightarrow>
          if \<not> (\<exists>p\<in>set [0..<NPROC]. kid p) \<or> p_killed (myproc s) then Inr (-1, s)
          else Inl (Asleep (ChanProc (cur s))))"

definition kill :: "int \<Rightarrow> 'a ptable_scheme \<Rightarrow> int \<times> 'a ptable_scheme" where
  "kill pid s =
     (case List.find (\<lambda>p. p_pid (procs s p) = pid) [0..<NPROC] of
        Some p \<Rightarrow> (0, upd_proc p (\<lambda>x. x\<lparr>p_killed := True, p_state := if p_state x = SLEEPING then RUNNABLE else p_state x\<rparr>) s)
      | None \<Rightarrow> (-1, s))"

definition forkret :: "'a kern_scheme \<Rightarrow> 'a kern_scheme res" where
  "forkret s =
     (if first s then let s = s\<lparr>first := False\<rparr> in bindr (iinit ROOTDEV s) (initlog ROOTDEV) else Inr s)"

section \<open>Process identifiers\<close>

definition live :: "'a ptable_scheme \<Rightarrow> nat \<Rightarrow> bool" where
  "live s p \<longleftrightarrow> p < NPROC \<and> p_state (procs s p) \<noteq> UNUSED"

text \<open>The processes have positive identifiers below \<open>nextpid\<close>, and different ones.\<close>

definition pids_ok :: "'a ptable_scheme \<Rightarrow> bool" where
  "pids_ok s \<longleftrightarrow> 0 < nextpid s \<and> (\<forall>p. live s p \<longrightarrow> 0 < p_pid (procs s p) \<and> p_pid (procs s p) < nextpid s) \<and>
     (\<forall>p q. live s p \<longrightarrow> live s q \<longrightarrow> p_pid (procs s p) = p_pid (procs s q) \<longrightarrow> p = q)"

lemma kalloc_frame [simp]:
  "procs (snd (kalloc s)) = procs s" "nextpid (snd (kalloc s)) = nextpid s" "cur (snd (kalloc s)) = cur s"
  "initproc (snd (kalloc s)) = initproc s"
  by (simp_all add: kalloc_def Let_def)

lemma allocproc_cases:
  fixes s :: "'a ptable_scheme"
  obtains (full) "\<forall>p<NPROC. p_state (procs s p) \<noteq> UNUSED" "allocproc s = (None, s)"
  | (nomem) p s' where "p < NPROC" "p_state (procs s p) = UNUSED" "allocproc s = (None, s')"
      "procs s' = (procs s)(p := (procs s p)\<lparr>p_pid := nextpid s, p_kstack := 0, p_state := UNUSED\<rparr>)" "nextpid s' = nextpid s + 1"
  | (new) p s' ks where "p < NPROC" "p_state (procs s p) = UNUSED" "\<forall>q<p. p_state (procs s q) \<noteq> UNUSED" "allocproc s = (Some p, s')"
      "procs s' = (procs s)(p := (procs s p)\<lparr>p_state := EMBRYO, p_pid := nextpid s, p_kstack := ks, p_context := 3996 + ks\<rparr>)"
      "nextpid s' = nextpid s + 1"
proof (cases "List.find (\<lambda>p. p_state (procs s p) = UNUSED) [0..<NPROC]")
  case None
  then have "allocproc s = (None, s)" by (simp add: allocproc_def)
  then show ?thesis using full None by (auto simp: find_None_iff)
next
  case (Some p)
  then have p: "p < NPROC" "p_state (procs s p) = UNUSED" "\<forall>q<p. p_state (procs s q) \<noteq> UNUSED"
    by (auto simp: find_Some_iff)
  let ?s = "(upd_proc p (\<lambda>x. x\<lparr>p_state := EMBRYO, p_pid := nextpid s\<rparr>) s)\<lparr>nextpid := nextpid s + 1\<rparr>"
  obtain ks t where k: "kalloc ?s = (ks, t)" by fastforce
  then have t: "procs t = procs ?s" "nextpid t = nextpid ?s" by (metis kalloc_frame snd_conv)+
  show ?thesis
  proof (cases "ks = 0")
    case True
    then show ?thesis
      using nomem[OF p(1,2)] Some k t by (simp add: allocproc_def upd_proc_def Let_def)
  next
    case False
    then show ?thesis
      using new[OF p, where ks = ks] Some k t by (simp add: allocproc_def upd_proc_def Let_def)
  qed
qed

lemma allocproc_pids:
  assumes "pids_ok s"
  shows "pids_ok (snd (allocproc s))"
proof (cases rule: allocproc_cases[of s])
  case (nomem p s')
  have "live s' q \<longleftrightarrow> live s q" "live s q \<Longrightarrow> procs s' q = procs s q" for q
    using nomem(2) by (auto simp: live_def nomem(4))
  then show ?thesis using assms nomem(3,5) unfolding pids_ok_def by (metis add_strict_increasing2 snd_conv zle_add1_eq_le order_less_le zless_add1_eq)
next
  case (new p s' ks)
  have l: "live s' q \<longleftrightarrow> q = p \<or> live s q" for q
    using new(1) by (auto simp: live_def new(5))
  have q: "procs s' q = procs s q" if "live s q" for q
    using that new(2) by (auto simp: live_def new(5))
  have p: "p_pid (procs s' p) = nextpid s" "\<not> live s p" using new(2) by (simp_all add: new(5) live_def)
  have "0 < p_pid (procs s' q) \<and> p_pid (procs s' q) < nextpid s'" if "live s' q" for q
    using that assms p q[of q] l[of q] new(6) unfolding pids_ok_def by fastforce
  moreover have "q = r" if "live s' q" "live s' r" "p_pid (procs s' q) = p_pid (procs s' r)" for q r
    using that assms p q[of q] q[of r] l[of q] l[of r] unfolding pids_ok_def by (metis order_less_irrefl)
  ultimately show ?thesis using assms new(4,6) unfolding pids_ok_def by simp
qed (use assms in simp)

lemma pids_sub:
  assumes "pids_ok s" "nextpid s' = nextpid s" "\<And>p. live s' p \<Longrightarrow> live s p \<and> p_pid (procs s' p) = p_pid (procs s p)"
  shows "pids_ok s'"
  using assms unfolding pids_ok_def by metis

lemma wait_pids:
  assumes ok: "pids_ok s" and w: "wait s = Inr (r, s')"
  shows "pids_ok s'"
proof (cases "List.find (\<lambda>p. p_parent (procs s p) = Some (cur s) \<and> p_state (procs s p) = ZOMBIE) [0..<NPROC]")
  case None
  then show ?thesis using w ok by (auto simp: wait_def split: if_splits)
next
  case (Some p)
  then obtain s1 s2 where k: "kfree (p_kstack (procs s p)) s = Inr s1"
    and f: "freevm (p_pgdir (procs (upd_proc p (\<lambda>x. x\<lparr>p_kstack := 0\<rparr>) s1) p)) (upd_proc p (\<lambda>x. x\<lparr>p_kstack := 0\<rparr>) s1) = Inr s2"
    and s': "s' = upd_proc p (\<lambda>x. x\<lparr>p_pid := 0, p_parent := None, p_name := (p_name x)(0 := 0), p_killed := False, p_state := UNUSED\<rparr>) s2"
    using w by (auto simp: wait_def Let_def)
  note 1 = rest_procs[OF rest_kfree[OF k]] and 2 = rest_procs[OF rest_freevm[OF f]]
  show ?thesis
    by (rule pids_sub[OF ok]) (auto simp: s' live_def upd_proc_def 1 2 split: if_splits)
qed

lemma kill_pids: "pids_ok s \<Longrightarrow> pids_ok (snd (kill pid s))"
  by (rule pids_sub[of s]) (auto simp: kill_def live_def upd_proc_def split: option.splits if_splits)

lemma wakeup_pids: "pids_ok s \<Longrightarrow> pids_ok (wakeup ch s)"
  by (rule pids_sub) (auto simp: wakeup_eq live_def woken_def Let_def split: if_splits)


lemma find_none: "List.find (\<lambda>_. False) xs = None"
  by (induction xs) simp_all


text \<open>
  A slot that is not in use keeps the identifier 0 that \<^verbatim>\<open>wait\<close> gave it, so \<open>kill 0\<close> finds it,
  reports success and marks it.  \<^verbatim>\<open>allocproc\<close> does not clear the mark: the next process in
  that slot is killed before it has run.
\<close>

lemma kill_zero_kills_newborn:
  assumes p: "p < NPROC" "p_state (procs s p) = UNUSED" "p_pid (procs s p) = 0"
    and before: "\<forall>q<p. p_state (procs s q) \<noteq> UNUSED \<and> p_pid (procs s q) \<noteq> 0" and m: "freelist s \<noteq> 0"
  shows "\<exists>s1 s2. kill 0 s = (0, s1) \<and> allocproc s1 = (Some p, s2) \<and> p_killed (procs s2 p)"
proof -
  have f: "List.find (\<lambda>p. p_pid (procs s p) = 0) [0..<NPROC] = Some p"
    using p before by (auto simp: find_Some_iff intro!: exI[of _ p])
  obtain s1 where k: "kill 0 s = (0, s1)" and s1: "procs s1 = (procs s)(p := (procs s p)\<lparr>p_killed := True, p_state := UNUSED\<rparr>)" "freelist s1 = freelist s"
    using f p by (auto simp: kill_def upd_proc_def)
  have f1: "List.find (\<lambda>p. p_state (procs s1 p) = UNUSED) [0..<NPROC] = Some p"
    using p before by (auto simp: find_Some_iff s1 intro!: exI[of _ p])
  have "\<exists>s2. allocproc s1 = (Some p, s2) \<and> p_killed (procs s2 p)"
    using f1 m by (simp add: allocproc_def kalloc_def upd_proc_def s1 Let_def)
  then show ?thesis using k by blast
qed

end
