(* ===== verification/Sysfile.thy ===== *)
theory Sysfile
  imports Proc
begin

text \<open>
  System calls: fetching arguments from user memory (\<^verbatim>\<open>syscall.c\<close>), \<^verbatim>\<open>exec.c\<close> with \<^verbatim>\<open>loaduvm\<close>, the
  file system calls (\<^verbatim>\<open>sysfile.c\<close>), the process calls (\<^verbatim>\<open>sysproc.c\<close>), and the dispatcher.

  A call returns the value that goes into \<^verbatim>\<open>%eax\<close>.  An argument that is refused is \<open>None\<close>.  Strings
  and buffers are read from and written to user memory through the page table of the process.
\<close>

section \<open>Arguments\<close>

definition fetchint :: "uint \<Rightarrow> 'a ptable_scheme \<Rightarrow> uint option res" where
  "fetchint addr s =
     (let sz = p_sz (myproc s) in
      if addr \<ge> sz \<or> addr + 4 > sz then Inr None
      else bindr (user_load32 addr s) (\<lambda>v. Inr (Some v)))"

text \<open>The scan of \<^verbatim>\<open>fetchstr\<close> looks at the bytes up to the end of the process's memory.\<close>

primrec fetchstr_loop :: "nat \<Rightarrow> uint \<Rightarrow> 'a ptable_scheme \<Rightarrow> uchar list option res" where
  "fetchstr_loop 0 a s = Inr None"
| "fetchstr_loop (Suc k) a s =
     bindr (user_load a s) (\<lambda>c.
     if c = 0 then Inr (Some [])
     else bindr (fetchstr_loop k (a + 1) s) (\<lambda>r. Inr (map_option ((#) c) r)))"

definition fetchstr :: "uint \<Rightarrow> 'a ptable_scheme \<Rightarrow> uchar list option res" where
  "fetchstr addr s =
     (let sz = p_sz (myproc s) in
      if addr \<ge> sz then Inr None else fetchstr_loop (unat sz - unat addr) addr s)"

definition argint :: "nat \<Rightarrow> 'a ptable_scheme \<Rightarrow> uint option res" where
  "argint n s = fetchint (tf_esp (p_tf (myproc s)) + 4 + 4 * of_nat n) s"

definition argptr :: "nat \<Rightarrow> int \<Rightarrow> 'a ptable_scheme \<Rightarrow> uint option res" where
  "argptr n sz s =
     bindr (argint n s) (\<lambda>r. case r of
       None \<Rightarrow> Inr None
     | Some i \<Rightarrow>
         if sz < 0 \<or> i \<ge> p_sz (myproc s) \<or> i + of_int sz > p_sz (myproc s) then Inr None else Inr (Some i))"

definition argstr :: "nat \<Rightarrow> 'a ptable_scheme \<Rightarrow> uchar list option res" where
  "argstr n s = bindr (argint n s) (\<lambda>r. case r of None \<Rightarrow> Inr None | Some addr \<Rightarrow> fetchstr addr s)"

text \<open>Sequencing: a refused argument ends the call with \<open>bad\<close>.\<close>

definition orelse :: "'b option res \<Rightarrow> 'c res \<Rightarrow> ('b \<Rightarrow> 'c res) \<Rightarrow> 'c res" where
  "orelse m bad f = bindr m (\<lambda>r. case r of None \<Rightarrow> bad | Some x \<Rightarrow> f x)"

definition argfd :: "nat \<Rightarrow> 'a ptable_scheme \<Rightarrow> (nat \<times> nat) option res" where
  "argfd n s =
     orelse (argint n s) (Inr None) (\<lambda>v.
     let fd = sint v in
     if fd < 0 \<or> fd \<ge> int NOFILE then Inr None
     else case p_ofile (myproc s) (nat fd) of None \<Rightarrow> Inr None | Some f \<Rightarrow> Inr (Some (nat fd, f)))"

definition fdalloc :: "nat \<Rightarrow> 'a ptable_scheme \<Rightarrow> int \<times> 'a ptable_scheme" where
  "fdalloc f s =
     (case List.find (\<lambda>fd. p_ofile (myproc s) fd = None) [0..<NOFILE] of
        Some fd \<Rightarrow> (int fd, upd_proc (cur s) (\<lambda>p. p\<lparr>p_ofile := (p_ofile p)(fd := Some f)\<rparr>) s)
      | None \<Rightarrow> (-1, s))"

section \<open>Exec\<close>

definition ELF_MAGIC :: uint where [simp]: "ELF_MAGIC = 0x464C457F"
definition ELF_PROG_LOAD :: uint where [simp]: "ELF_PROG_LOAD = 1"
definition MAXARG :: nat where [simp]: "MAXARG = 32"

record elfhdr =
  e_magic :: uint
  e_entry :: uint
  e_phoff :: uint
  e_phnum :: ushort

definition elfhdr_of :: "uchar list \<Rightarrow> elfhdr" where
  "elfhdr_of xs = (let d = cstr xs in
     \<lparr>e_magic = get32 d 0, e_entry = get32 d 24, e_phoff = get32 d 28, e_phnum = get16 d 44\<rparr>)"

record proghdr =
  ph_type :: uint
  ph_off :: uint
  ph_vaddr :: uint
  ph_filesz :: uint
  ph_memsz :: uint

definition proghdr_of :: "uchar list \<Rightarrow> proghdr" where
  "proghdr_of xs = (let d = cstr xs in
     \<lparr>ph_type = get32 d 0, ph_off = get32 d 4, ph_vaddr = get32 d 8, ph_filesz = get32 d 16, ph_memsz = get32 d 20\<rparr>)"

primrec loaduvm_loop :: "nat \<Rightarrow> 'a fs_scheme devsw \<Rightarrow> uint \<Rightarrow> uint \<Rightarrow> nat \<Rightarrow> uint \<Rightarrow> uint \<Rightarrow> uint \<Rightarrow> 'a fs_scheme
    \<Rightarrow> (int \<times> 'a fs_scheme) res" where
  "loaduvm_loop 0 devsw pgdir addr ip offset sz i s = Inr (0, s)"
| "loaduvm_loop (Suc k) devsw pgdir addr ip offset sz i s =
     (let pte = fst (walkpgdir pgdir (addr + i) False s) in
      if pte = 0 then Inl (Panic ''loaduvm: address should exist'')
      else
        let pa = PTE_ADDR (load32 (mem s) pte); n = (if sz - i < PGSIZE then sz - i else PGSIZE) in
        bindr (readi devsw ip (offset + i) n s) (\<lambda>(r, xs, s).
        let s = s\<lparr>mem := store_bytes (mem s) (P2V pa) xs\<rparr> in
        if r \<noteq> sint n then Inr (-1, s)
        else loaduvm_loop k devsw pgdir addr ip offset sz (i + PGSIZE) s))"

definition loaduvm :: "'a fs_scheme devsw \<Rightarrow> uint \<Rightarrow> uint \<Rightarrow> nat \<Rightarrow> uint \<Rightarrow> uint \<Rightarrow> 'a fs_scheme
    \<Rightarrow> (int \<times> 'a fs_scheme) res" where
  "loaduvm devsw pgdir addr ip offset sz s =
     (if addr mod PGSIZE \<noteq> 0 then Inl (Panic ''loaduvm: addr must be page aligned'')
      else loaduvm_loop (pages_to 0 sz) devsw pgdir addr ip offset sz 0 s)"

text \<open>The segments of the program; \<open>None\<close> is \<open>goto bad\<close>.\<close>

primrec exec_load :: "nat \<Rightarrow> 'a fs_scheme devsw \<Rightarrow> nat \<Rightarrow> uint \<Rightarrow> uint \<Rightarrow> uint \<Rightarrow> 'a fs_scheme
    \<Rightarrow> (uint option \<times> 'a fs_scheme) res" where
  "exec_load 0 devsw ip pgdir off sz s = Inr (Some sz, s)"
| "exec_load (Suc k) devsw ip pgdir off sz s =
     bindr (readi devsw ip off 32 s) (\<lambda>(r, xs, s).
     if r \<noteq> 32 then Inr (None, s)
     else let ph = proghdr_of xs in
     if ph_type ph \<noteq> ELF_PROG_LOAD then exec_load k devsw ip pgdir (off + 32) sz s
     else if ph_memsz ph < ph_filesz ph then Inr (None, s)
     else if ph_vaddr ph + ph_memsz ph < ph_vaddr ph then Inr (None, s)
     else
       bindr (allocuvm pgdir sz (ph_vaddr ph + ph_memsz ph) s) (\<lambda>(sz, s).
       if sz = 0 then Inr (None, s)
       else if ph_vaddr ph mod PGSIZE \<noteq> 0 then Inr (None, s)
       else
         bindr (loaduvm devsw pgdir (ph_vaddr ph) ip (ph_off ph) (ph_filesz ph) s) (\<lambda>(r, s).
         if r < 0 then Inr (None, s) else exec_load k devsw ip pgdir (off + 32) sz s)))"

text \<open>The argument strings; the addresses they get are in \<open>ustack[3..]\<close>.\<close>

primrec exec_args :: "uchar list list \<Rightarrow> nat \<Rightarrow> uint \<Rightarrow> uint \<Rightarrow> uint list \<Rightarrow> 'a kmem_scheme
    \<Rightarrow> ((uint \<times> uint list) option \<times> 'a kmem_scheme) res" where
  "exec_args [] argc pgdir sp us s = Inr (Some (sp, us), s)"
| "exec_args (a # as) argc pgdir sp us s =
     (if argc \<ge> MAXARG then Inr (None, s)
      else let sp = (sp - (of_nat (length a) + 1)) AND NOT 3 in
        bindr (copyout pgdir sp (a @ [0]) s) (\<lambda>(r, s).
        if r < 0 then Inr (None, s) else exec_args as (Suc argc) pgdir sp (us @ [sp]) s))"

primrec exec_last :: "uchar list \<Rightarrow> uchar list \<Rightarrow> uchar list" where
  "exec_last l [] = l"
| "exec_last l (c # cs) = exec_last (if c = slash then cs else l) cs"

definition exec_bad :: "uint \<Rightarrow> nat option \<Rightarrow> 'a fs_scheme \<Rightarrow> (int \<times> 'a fs_scheme) res" where
  "exec_bad pgdir ip s =
     bindr (if pgdir \<noteq> 0 then freevm pgdir s else Inr s) (\<lambda>s.
     case ip of
       Some ip \<Rightarrow> bindr (iunlockput ip s) (\<lambda>s. bindr (end_op s) (\<lambda>s. Inr (-1, s)))
     | None \<Rightarrow> Inr (-1, s))"

text \<open>After the program is loaded: the stack, and the switch to the new image.\<close>

definition exec_stack :: "uint \<Rightarrow> uint \<Rightarrow> uint \<Rightarrow> uchar list \<Rightarrow> uchar list list \<Rightarrow> 'a fs_scheme
    \<Rightarrow> (int \<times> 'a fs_scheme) res" where
  "exec_stack entry pgdir sz path argv s =
     (let sz = PGROUNDUP sz in
      bindr (allocuvm pgdir sz (sz + 2 * PGSIZE) s) (\<lambda>(sz, s).
      if sz = 0 then exec_bad pgdir None s
      else
        bindr (clearpteu pgdir (sz - 2 * PGSIZE) s) (\<lambda>s.
        bindr (exec_args argv 0 pgdir sz [] s) (\<lambda>(r, s). case r of
          None \<Rightarrow> exec_bad pgdir None s
        | Some (sp, us) \<Rightarrow>
            let argc = of_nat (length us);
                ustack = [0xffffffff, argc, sp - (argc + 1) * 4] @ us @ [0];
                sp = sp - (3 + argc + 1) * 4 in
            bindr (copyout pgdir sp (concat (map word_bytes ustack)) s) (\<lambda>(r, s).
            if r < 0 then exec_bad pgdir None s
            else
              let oldpgdir = p_pgdir (myproc s);
                  s = upd_proc (cur s) (\<lambda>p. p\<lparr>p_name := safestrcpy (p_name p) (cstr (exec_last path path)) 16,
                        p_pgdir := pgdir, p_sz := sz, p_tf := (p_tf p)\<lparr>tf_eip := entry, tf_esp := sp\<rparr>\<rparr>) s in
              bindr (switchuvm (Some (cur s)) s) (\<lambda>s.
              bindr (freevm oldpgdir s) (\<lambda>s.
              Inr (0, s))))))))"

definition exec :: "'a fs_scheme devsw \<Rightarrow> uchar list \<Rightarrow> uchar list list \<Rightarrow> 'a fs_scheme \<Rightarrow> (int \<times> 'a fs_scheme) res" where
  "exec devsw path argv s =
     bindr (begin_op s) (\<lambda>s.
     bindr (namei devsw path s) (\<lambda>(r, s). case r of
       None \<Rightarrow> bindr (end_op s) (\<lambda>s. Inr (-1, s))
     | Some ip \<Rightarrow>
         bindr (ilock ip s) (\<lambda>s.
         bindr (readi devsw ip 0 52 s) (\<lambda>(r, xs, s).
         if r \<noteq> 52 then exec_bad 0 (Some ip) s
         else let elf = elfhdr_of xs in
         if e_magic elf \<noteq> ELF_MAGIC then exec_bad 0 (Some ip) s
         else
           bindr (setupkvm s) (\<lambda>(pgdir, s).
           if pgdir = 0 then exec_bad 0 (Some ip) s
           else
             bindr (exec_load (unat (e_phnum elf)) devsw ip pgdir (e_phoff elf) 0 s) (\<lambda>(r, s). case r of
               None \<Rightarrow> exec_bad pgdir (Some ip) s
             | Some sz \<Rightarrow>
                 bindr (iunlockput ip s) (\<lambda>s.
                 bindr (end_op s) (\<lambda>s.
                 exec_stack (e_entry elf) pgdir sz path argv s))))))))"

section \<open>File system calls\<close>

definition sys_dup :: "'a ftable_scheme \<Rightarrow> (int \<times> 'a ftable_scheme) res" where
  "sys_dup s =
     orelse (argfd 0 s) (Inr (-1, s)) (\<lambda>(_, f).
     let (fd, s) = fdalloc f s in
     if fd < 0 then Inr (-1, s)
     else bindr (filedup f s) (\<lambda>(_, s). Inr (fd, s)))"

definition sys_read :: "'a ftable_scheme devsw \<Rightarrow> 'a ftable_scheme \<Rightarrow> (int \<times> 'a ftable_scheme) res" where
  "sys_read devsw s =
     orelse (argfd 0 s) (Inr (-1, s)) (\<lambda>(_, f).
     orelse (argint 2 s) (Inr (-1, s)) (\<lambda>n.
     orelse (argptr 1 (sint n) s) (Inr (-1, s)) (\<lambda>p.
     bindr (fileread devsw f (sint n) s) (\<lambda>(r, xs, s).
     bindr (user_write xs p s) (\<lambda>s.
     Inr (r, s))))))"

definition sys_write :: "'a ftable_scheme devsw \<Rightarrow> 'a ftable_scheme \<Rightarrow> (int \<times> 'a ftable_scheme) res" where
  "sys_write devsw s =
     orelse (argfd 0 s) (Inr (-1, s)) (\<lambda>(_, f).
     orelse (argint 2 s) (Inr (-1, s)) (\<lambda>n.
     orelse (argptr 1 (sint n) s) (Inr (-1, s)) (\<lambda>p.
     bindr (user_read (nat (sint n)) p s) (\<lambda>xs.
     filewrite devsw f xs s))))"

definition sys_close :: "'a ftable_scheme \<Rightarrow> (int \<times> 'a ftable_scheme) res" where
  "sys_close s =
     orelse (argfd 0 s) (Inr (-1, s)) (\<lambda>(fd, f).
     bindr (fileclose f (upd_proc (cur s) (\<lambda>p. p\<lparr>p_ofile := (p_ofile p)(fd := None)\<rparr>) s)) (\<lambda>s.
     Inr (0, s)))"

text \<open>The fields of \<^verbatim>\<open>struct stat\<close> at their offsets; the padding is not written.\<close>

definition half_bytes :: "ushort \<Rightarrow> uchar list" where
  "half_bytes v = [ucast v, ucast (drop_bit 8 v)]"

definition store_stat :: "stat \<Rightarrow> uint \<Rightarrow> 'a ptable_scheme \<Rightarrow> 'a ptable_scheme res" where
  "store_stat st p s =
     bindr (user_write (word_bytes (st_dev st)) (p + 4) s) (\<lambda>s.
     bindr (user_write (word_bytes (st_ino st)) (p + 8) s) (\<lambda>s.
     bindr (user_write (half_bytes (st_type st)) p s) (\<lambda>s.
     bindr (user_write (half_bytes (st_nlink st)) (p + 12) s) (\<lambda>s.
     user_write (word_bytes (st_size st)) (p + 16) s))))"

definition sys_fstat :: "'a ftable_scheme \<Rightarrow> (int \<times> 'a ftable_scheme) res" where
  "sys_fstat s =
     orelse (argfd 0 s) (Inr (-1, s)) (\<lambda>(_, f).
     orelse (argptr 1 20 s) (Inr (-1, s)) (\<lambda>p.
     bindr (filestat f s) (\<lambda>(r, s). case r of
       None \<Rightarrow> Inr (-1, s)
     | Some st \<Rightarrow> bindr (store_stat st p s) (\<lambda>s. Inr (0, s)))))"

text \<open>End the transaction and return.\<close>

definition end_with :: "int \<Rightarrow> 'a log_scheme \<Rightarrow> (int \<times> 'a log_scheme) res" where
  "end_with r s = bindr (end_op s) (\<lambda>s. Inr (r, s))"

definition sys_link_bad :: "nat \<Rightarrow> 'a fs_scheme \<Rightarrow> (int \<times> 'a fs_scheme) res" where
  "sys_link_bad ip s =
     bindr (ilock ip s) (\<lambda>s.
     bindr (iupdate ip (upd_inode ip (\<lambda>n. n\<lparr>i_nlink := i_nlink n - 1\<rparr>) s)) (\<lambda>s.
     bindr (iunlockput ip s) (end_with (-1))))"

definition sys_link :: "'a fs_scheme devsw \<Rightarrow> 'a fs_scheme \<Rightarrow> (int \<times> 'a fs_scheme) res" where
  "sys_link devsw s =
     orelse (argstr 0 s) (Inr (-1, s)) (\<lambda>old.
     orelse (argstr 1 s) (Inr (-1, s)) (\<lambda>new.
     bindr (begin_op s) (\<lambda>s.
     bindr (namei devsw old s) (\<lambda>(r, s). case r of
       None \<Rightarrow> end_with (-1) s
     | Some ip \<Rightarrow>
         bindr (ilock ip s) (\<lambda>s.
         if i_type (icache s ip) = T_DIR then bindr (iunlockput ip s) (end_with (-1))
         else
           bindr (iupdate ip (upd_inode ip (\<lambda>n. n\<lparr>i_nlink := i_nlink n + 1\<rparr>) s)) (\<lambda>s.
           bindr (iunlock ip s) (\<lambda>s.
           bindr (nameiparent devsw new (\<lambda>_. 0) s) (\<lambda>(r, name, s). case r of
             None \<Rightarrow> sys_link_bad ip s
           | Some dp \<Rightarrow>
               bindr (ilock dp s) (\<lambda>s.
               bindr (if i_dev (icache s dp) \<noteq> i_dev (icache s ip) then Inr (-1, s)
                      else dirlink devsw dp name (i_inum (icache s ip)) s) (\<lambda>(r, s).
               if r < 0 then bindr (iunlockput dp s) (sys_link_bad ip)
               else
                 bindr (iunlockput dp s) (\<lambda>s.
                 bindr (iput ip s) (end_with 0))))))))))))"

primrec isdirempty_loop :: "nat \<Rightarrow> uint \<Rightarrow> 'a fs_scheme devsw \<Rightarrow> nat \<Rightarrow> 'a fs_scheme \<Rightarrow> (bool \<times> 'a fs_scheme) res" where
  "isdirempty_loop 0 off devsw dp s = Inr (True, s)"
| "isdirempty_loop (Suc k) off devsw dp s =
     bindr (readi devsw dp off (of_nat dirent_size) s) (\<lambda>(r, de, s).
     if r \<noteq> int dirent_size then Inl (Panic ''isdirempty: readi'')
     else if de_inum de \<noteq> 0 then Inr (False, s)
     else isdirempty_loop k (off + of_nat dirent_size) devsw dp s)"

definition isdirempty :: "'a fs_scheme devsw \<Rightarrow> nat \<Rightarrow> 'a fs_scheme \<Rightarrow> (bool \<times> 'a fs_scheme) res" where
  "isdirempty devsw dp s =
     isdirempty_loop (dir_entries (i_size (icache s dp)) - 2) (of_nat (2 * dirent_size)) devsw dp s"

definition sys_unlink_bad :: "nat \<Rightarrow> 'a fs_scheme \<Rightarrow> (int \<times> 'a fs_scheme) res" where
  "sys_unlink_bad dp s = bindr (iunlockput dp s) (end_with (-1))"

definition sys_unlink :: "'a fs_scheme devsw \<Rightarrow> 'a fs_scheme \<Rightarrow> (int \<times> 'a fs_scheme) res" where
  "sys_unlink devsw s =
     orelse (argstr 0 s) (Inr (-1, s)) (\<lambda>path.
     bindr (begin_op s) (\<lambda>s.
     bindr (nameiparent devsw path (\<lambda>_. 0) s) (\<lambda>(r, name, s). case r of
       None \<Rightarrow> end_with (-1) s
     | Some dp \<Rightarrow>
         bindr (ilock dp s) (\<lambda>s.
         if namecmp name (cstr (ascii ''.'')) = 0 \<or> namecmp name (cstr (ascii ''..'')) = 0 then sys_unlink_bad dp s
         else
           bindr (dirlookup devsw dp name s) (\<lambda>(r, s). case r of
             None \<Rightarrow> sys_unlink_bad dp s
           | Some (ip, off) \<Rightarrow>
               bindr (ilock ip s) (\<lambda>s.
               if sint (i_nlink (icache s ip)) < 1 then Inl (Panic ''unlink: nlink < 1'')
               else
                 bindr (if i_type (icache s ip) = T_DIR then isdirempty devsw ip s else Inr (True, s)) (\<lambda>(e, s).
                 if \<not> e then bindr (iunlockput ip s) (sys_unlink_bad dp)
                 else
                   bindr (writei devsw dp (replicate dirent_size 0) off s) (\<lambda>(r, s).
                   if r \<noteq> int dirent_size then Inl (Panic ''unlink: writei'')
                   else
                     bindr (if i_type (icache s ip) = T_DIR
                            then iupdate dp (upd_inode dp (\<lambda>n. n\<lparr>i_nlink := i_nlink n - 1\<rparr>) s) else Inr s) (\<lambda>s.
                     bindr (iunlockput dp s) (\<lambda>s.
                     bindr (iupdate ip (upd_inode ip (\<lambda>n. n\<lparr>i_nlink := i_nlink n - 1\<rparr>) s)) (\<lambda>s.
                     bindr (iunlockput ip s) (end_with 0))))))))))))"

definition create :: "'a fs_scheme devsw \<Rightarrow> uchar list \<Rightarrow> 16 word \<Rightarrow> 16 word \<Rightarrow> 16 word \<Rightarrow> 'a fs_scheme
    \<Rightarrow> (nat option \<times> 'a fs_scheme) res" where
  "create devsw path type major minor s =
     bindr (nameiparent devsw path (\<lambda>_. 0) s) (\<lambda>(r, name, s). case r of
       None \<Rightarrow> Inr (None, s)
     | Some dp \<Rightarrow>
         bindr (ilock dp s) (\<lambda>s.
         bindr (dirlookup devsw dp name s) (\<lambda>(r, s). case r of
           Some (ip, off) \<Rightarrow>
             bindr (iunlockput dp s) (\<lambda>s.
             bindr (ilock ip s) (\<lambda>s.
             if type = T_FILE \<and> i_type (icache s ip) = T_FILE then Inr (Some ip, s)
             else bindr (iunlockput ip s) (\<lambda>s. Inr (None, s))))
         | None \<Rightarrow>
             bindr (ialloc (i_dev (icache s dp)) type s) (\<lambda>(ip, s).
             bindr (ilock ip s) (\<lambda>s.
             bindr (iupdate ip (upd_inode ip (\<lambda>n. n\<lparr>i_major := major, i_minor := minor, i_nlink := 1\<rparr>) s)) (\<lambda>s.
             bindr (if type = T_DIR then
                 bindr (iupdate dp (upd_inode dp (\<lambda>n. n\<lparr>i_nlink := i_nlink n + 1\<rparr>) s)) (\<lambda>s.
                 bindr (dirlink devsw ip (cstr (ascii ''.'')) (i_inum (icache s ip)) s) (\<lambda>(r, s).
                 if r < 0 then Inl (Panic ''create dots'')
                 else
                   bindr (dirlink devsw ip (cstr (ascii ''..'')) (i_inum (icache s dp)) s) (\<lambda>(r, s).
                   if r < 0 then Inl (Panic ''create dots'') else Inr s)))
               else Inr s) (\<lambda>s.
             bindr (dirlink devsw dp name (i_inum (icache s ip)) s) (\<lambda>(r, s).
             if r < 0 then Inl (Panic ''create: dirlink'')
             else bindr (iunlockput dp s) (\<lambda>s. Inr (Some ip, s))))))))))"

definition O_RDONLY :: uint where [simp]: "O_RDONLY = 0"
definition O_WRONLY :: uint where [simp]: "O_WRONLY = 1"
definition O_RDWR :: uint where [simp]: "O_RDWR = 2"
definition O_CREATE :: uint where [simp]: "O_CREATE = 0x200"

text \<open>The inode to open, locked; \<open>None\<close> when the call fails before a file is allocated.\<close>

definition sys_open_inode :: "'a fs_scheme devsw \<Rightarrow> uchar list \<Rightarrow> uint \<Rightarrow> 'a fs_scheme \<Rightarrow> (nat option \<times> 'a fs_scheme) res" where
  "sys_open_inode devsw path omode s =
     (if omode AND O_CREATE \<noteq> 0 then create devsw path T_FILE 0 0 s
      else
        bindr (namei devsw path s) (\<lambda>(r, s). case r of
          None \<Rightarrow> Inr (None, s)
        | Some ip \<Rightarrow>
            bindr (ilock ip s) (\<lambda>s.
            if i_type (icache s ip) = T_DIR \<and> omode \<noteq> O_RDONLY
            then bindr (iunlockput ip s) (\<lambda>s. Inr (None, s)) else Inr (Some ip, s))))"

definition sys_open :: "'a ftable_scheme devsw \<Rightarrow> 'a ftable_scheme \<Rightarrow> (int \<times> 'a ftable_scheme) res" where
  "sys_open devsw s =
     orelse (argstr 0 s) (Inr (-1, s)) (\<lambda>path.
     orelse (argint 1 s) (Inr (-1, s)) (\<lambda>omode.
     bindr (begin_op s) (\<lambda>s.
     bindr (sys_open_inode devsw path omode s) (\<lambda>(r, s). case r of
       None \<Rightarrow> end_with (-1) s
     | Some ip \<Rightarrow>
         let (fo, s) = filealloc s in case fo of
           None \<Rightarrow> bindr (iunlockput ip s) (end_with (-1))
         | Some f \<Rightarrow>
             let (fd, s) = fdalloc f s in
             if fd < 0 then bindr (fileclose f s) (\<lambda>s. bindr (iunlockput ip s) (end_with (-1)))
             else
               bindr (iunlock ip s) (\<lambda>s.
               bindr (end_op s) (\<lambda>s.
               Inr (fd, upd_file f (\<lambda>x. x\<lparr>f_type := FD_INODE, f_ip := ip, f_off := 0,
                      f_readable := (omode AND O_WRONLY = 0),
                      f_writable := (omode AND O_WRONLY \<noteq> 0 \<or> omode AND O_RDWR \<noteq> 0)\<rparr>) s)))))))"

definition sys_mkdir :: "'a fs_scheme devsw \<Rightarrow> 'a fs_scheme \<Rightarrow> (int \<times> 'a fs_scheme) res" where
  "sys_mkdir devsw s =
     bindr (begin_op s) (\<lambda>s.
     orelse (argstr 0 s) (end_with (-1) s) (\<lambda>path.
     bindr (create devsw path T_DIR 0 0 s) (\<lambda>(r, s). case r of
       None \<Rightarrow> end_with (-1) s
     | Some ip \<Rightarrow> bindr (iunlockput ip s) (end_with 0))))"

definition sys_mknod :: "'a fs_scheme devsw \<Rightarrow> 'a fs_scheme \<Rightarrow> (int \<times> 'a fs_scheme) res" where
  "sys_mknod devsw s =
     bindr (begin_op s) (\<lambda>s.
     orelse (argstr 0 s) (end_with (-1) s) (\<lambda>path.
     orelse (argint 1 s) (end_with (-1) s) (\<lambda>major.
     orelse (argint 2 s) (end_with (-1) s) (\<lambda>minor.
     bindr (create devsw path T_DEV (ucast major) (ucast minor) s) (\<lambda>(r, s). case r of
       None \<Rightarrow> end_with (-1) s
     | Some ip \<Rightarrow> bindr (iunlockput ip s) (end_with 0))))))"

definition sys_chdir :: "'a fs_scheme devsw \<Rightarrow> 'a fs_scheme \<Rightarrow> (int \<times> 'a fs_scheme) res" where
  "sys_chdir devsw s =
     bindr (begin_op s) (\<lambda>s.
     orelse (argstr 0 s) (end_with (-1) s) (\<lambda>path.
     bindr (namei devsw path s) (\<lambda>(r, s). case r of
       None \<Rightarrow> end_with (-1) s
     | Some ip \<Rightarrow>
         bindr (ilock ip s) (\<lambda>s.
         if i_type (icache s ip) \<noteq> T_DIR then bindr (iunlockput ip s) (end_with (-1))
         else
           bindr (iunlock ip s) (\<lambda>s.
           bindr (case p_cwd (myproc s) of Some cwd \<Rightarrow> iput cwd s | None \<Rightarrow> Inl (Undefined ''null pointer'')) (\<lambda>s.
           bindr (end_op s) (\<lambda>s.
           Inr (0, upd_proc (cur s) (\<lambda>p. p\<lparr>p_cwd := Some ip\<rparr>) s))))))))"

text \<open>The argument vector of \<^verbatim>\<open>exec\<close>: the strings up to a null pointer, fewer than \<^verbatim>\<open>MAXARG\<close>.\<close>

primrec sys_exec_args :: "nat \<Rightarrow> uint \<Rightarrow> 'a ptable_scheme \<Rightarrow> uchar list list option res" where
  "sys_exec_args 0 a s = Inr None"
| "sys_exec_args (Suc k) a s =
     orelse (fetchint a s) (Inr None) (\<lambda>uarg.
     if uarg = 0 then Inr (Some [])
     else
       orelse (fetchstr uarg s) (Inr None) (\<lambda>x.
       bindr (sys_exec_args k (a + 4) s) (\<lambda>r. Inr (map_option ((#) x) r))))"

definition sys_exec :: "'a fs_scheme devsw \<Rightarrow> 'a fs_scheme \<Rightarrow> (int \<times> 'a fs_scheme) res" where
  "sys_exec devsw s =
     orelse (argstr 0 s) (Inr (-1, s)) (\<lambda>path.
     orelse (argint 1 s) (Inr (-1, s)) (\<lambda>uargv.
     orelse (sys_exec_args MAXARG uargv s) (Inr (-1, s)) (\<lambda>argv.
     exec devsw path argv s)))"

definition sys_pipe :: "'a ftable_scheme \<Rightarrow> (int \<times> 'a ftable_scheme) res" where
  "sys_pipe s =
     orelse (argptr 0 8 s) (Inr (-1, s)) (\<lambda>fd.
     bindr (pipealloc s) (\<lambda>(r, s). case r of
       None \<Rightarrow> Inr (-1, s)
     | Some (f0, f1) \<Rightarrow>
         let (fd0, s) = fdalloc f0 s;
             (fd1, s) = (if fd0 < 0 then (-1, s) else fdalloc f1 s) in
         if fd0 < 0 \<or> fd1 < 0 then
           let s = (if fd0 \<ge> 0 then upd_proc (cur s) (\<lambda>p. p\<lparr>p_ofile := (p_ofile p)(nat fd0 := None)\<rparr>) s else s) in
           bindr (fileclose f0 s) (\<lambda>s.
           bindr (fileclose f1 s) (\<lambda>s.
           Inr (-1, s)))
         else
           bindr (user_write (word_bytes (of_int fd0)) fd s) (\<lambda>s.
           bindr (user_write (word_bytes (of_int fd1)) (fd + 4) s) (\<lambda>s.
           Inr (0, s)))))"

section \<open>Process calls\<close>

definition sys_fork :: "'a ftable_scheme \<Rightarrow> (int \<times> 'a ftable_scheme) res" where
  "sys_fork s = fork s"

text \<open>\<^verbatim>\<open>sys_exit\<close> does not return; its value is the state the process leaves behind.\<close>

definition sys_exit :: "'a ftable_scheme \<Rightarrow> (int \<times> 'a ftable_scheme) res" where
  "sys_exit s = bindr (exit s) (\<lambda>s. Inr (0, s))"

definition sys_wait :: "'a ptable_scheme \<Rightarrow> (int \<times> 'a ptable_scheme) res" where
  "sys_wait s = wait s"

definition sys_kill :: "'a ptable_scheme \<Rightarrow> (int \<times> 'a ptable_scheme) res" where
  "sys_kill s = orelse (argint 0 s) (Inr (-1, s)) (\<lambda>pid. Inr (kill (sint pid) s))"

definition sys_getpid :: "'a ptable_scheme \<Rightarrow> (int \<times> 'a ptable_scheme) res" where
  "sys_getpid s = Inr (p_pid (myproc s), s)"

definition sys_sbrk :: "'a ptable_scheme \<Rightarrow> (int \<times> 'a ptable_scheme) res" where
  "sys_sbrk s =
     orelse (argint 0 s) (Inr (-1, s)) (\<lambda>n.
     let addr = sint (p_sz (myproc s)) in
     bindr (growproc (sint n) s) (\<lambda>(r, s). Inr (if r < 0 then -1 else addr, s)))"

text \<open>
  \<open>sys_sleep_check ticks0 n\<close> is one look at the clock: the call is over, or it sleeps and looks again.
  The comparison is between unsigned numbers.
\<close>

definition sys_sleep_check :: "uint \<Rightarrow> uint \<Rightarrow> 'a kern_scheme \<Rightarrow> (int \<times> 'a kern_scheme) res" where
  "sys_sleep_check ticks0 n s =
     (if ticks s - ticks0 < n
      then if p_killed (myproc s) then Inr (-1, s) else Inl (Asleep ChanTicks)
      else Inr (0, s))"

definition sys_sleep :: "'a kern_scheme \<Rightarrow> (int \<times> 'a kern_scheme) res" where
  "sys_sleep s = orelse (argint 0 s) (Inr (-1, s)) (\<lambda>n. sys_sleep_check (ticks s) n s)"

definition sys_uptime :: "'a kern_scheme \<Rightarrow> (int \<times> 'a kern_scheme) res" where
  "sys_uptime s = Inr (sint (ticks s), s)"

record rtcdate =
  r_second :: uint
  r_minute :: uint
  r_hour :: uint
  r_day :: uint
  r_month :: uint
  r_year :: uint

text \<open>
  The clock chip is an argument.  \<^verbatim>\<open>sys_date\<close> takes the pointer with \<^verbatim>\<open>argint\<close>, so nothing checks that
  it points into the process's memory.
\<close>

definition sys_date :: "rtcdate \<Rightarrow> 'a ptable_scheme \<Rightarrow> (int \<times> 'a ptable_scheme) res" where
  "sys_date now s =
     orelse (argint 0 s) (Inr (-1, s)) (\<lambda>p.
     bindr (user_write (concat (map word_bytes [r_second now, r_minute now, r_hour now, r_day now, r_month now, r_year now])) p s) (\<lambda>s.
     Inr (0, s)))"

definition sys_alarm :: "'a ptable_scheme \<Rightarrow> (int \<times> 'a ptable_scheme) res" where
  "sys_alarm s =
     orelse (argint 0 s) (Inr (-1, s)) (\<lambda>t.
     orelse (argptr 1 1 s) (Inr (-1, s)) (\<lambda>h.
     Inr (0, upd_proc (cur s) (\<lambda>p. p\<lparr>p_alarmticks := sint t, p_alarmhandler := h\<rparr>) s)))"

section \<open>The dispatcher\<close>

definition syscalls :: "'a kern_scheme devsw \<Rightarrow> rtcdate \<Rightarrow> int \<Rightarrow> ('a kern_scheme \<Rightarrow> (int \<times> 'a kern_scheme) res) option" where
  "syscalls devsw now num =
     (if num = 1 then Some sys_fork else if num = 2 then Some sys_exit else if num = 3 then Some sys_wait
      else if num = 4 then Some sys_pipe else if num = 5 then Some (sys_read devsw) else if num = 6 then Some sys_kill
      else if num = 7 then Some (sys_exec devsw) else if num = 8 then Some sys_fstat else if num = 9 then Some (sys_chdir devsw)
      else if num = 10 then Some sys_dup else if num = 11 then Some sys_getpid else if num = 12 then Some sys_sbrk
      else if num = 13 then Some sys_sleep else if num = 14 then Some sys_uptime else if num = 15 then Some (sys_open devsw)
      else if num = 16 then Some (sys_write devsw) else if num = 17 then Some (sys_mknod devsw)
      else if num = 18 then Some (sys_unlink devsw) else if num = 19 then Some (sys_link devsw)
      else if num = 20 then Some (sys_mkdir devsw) else if num = 21 then Some sys_close
      else if num = 22 then Some (sys_date now) else if num = 23 then Some sys_alarm else None)"

definition set_eax :: "int \<Rightarrow> 'a ptable_scheme \<Rightarrow> 'a ptable_scheme" where
  "set_eax r s = upd_proc (cur s) (\<lambda>p. p\<lparr>p_tf := (p_tf p)\<lparr>tf_eax := of_int r\<rparr>\<rparr>) s"

definition syscall :: "'a kern_scheme devsw \<Rightarrow> rtcdate \<Rightarrow> 'a kern_scheme \<Rightarrow> 'a kern_scheme res" where
  "syscall devsw now s =
     (case syscalls devsw now (sint (tf_eax (p_tf (myproc s)))) of
        Some f \<Rightarrow> bindr (f s) (\<lambda>(r, s). Inr (set_eax r s))
      | None \<Rightarrow> Inr (set_eax (-1) s))"

section \<open>Arguments stay inside the process\<close>

lemma fetchint_bounds:
  assumes "p_sz (myproc s) \<le> KERNBASE" "fetchint a s = Inr (Some v)"
  shows "unat a + 4 \<le> unat (p_sz (myproc s))"
proof -
  have a: "unat a < unat (p_sz (myproc s))" "unat (a + 4) \<le> unat (p_sz (myproc s))" "unat (p_sz (myproc s)) \<le> 0x80000000"
    using assms by (auto simp: fetchint_def Let_def word_le_nat_alt word_less_nat_alt not_le not_less split: if_splits)
  then show ?thesis using unat_add_offset[of a 4] by simp
qed

lemma argptr_bounds:
  assumes "p_sz (myproc s) \<le> KERNBASE" "argptr n len s = Inr (Some p)" "len < 2 ^ 31"
  shows "0 \<le> len \<and> int (unat p) + len \<le> int (unat (p_sz (myproc s)))"
proof -
  have a: "0 \<le> len" "unat p < unat (p_sz (myproc s))" "unat (p + of_int len) \<le> unat (p_sz (myproc s))" "unat (p_sz (myproc s)) \<le> 0x80000000"
    using assms(1,2) by (auto simp: argptr_def word_le_nat_alt word_less_nat_alt not_le not_less split: if_splits option.splits)
  have "(of_int len :: uint) = of_nat (nat len)" using a(1) by simp
  then have "unat p + nat len \<le> unat (p_sz (myproc s))" using a assms(3) unat_add_offset[of p "nat len"] by simp
  then have "int (unat p + nat len) \<le> int (unat (p_sz (myproc s)))" by (rule of_nat_mono)
  then show ?thesis using a(1) by (simp only: of_nat_add int_nat_eq if_True)
qed

lemma fetchstr_loop_Some:
  "fetchstr_loop k a s = Inr (Some xs) \<Longrightarrow> length xs < k \<and> 0 \<notin> set xs \<and> (\<forall>i<length xs. user_load (a + of_nat i) s = Inr (xs ! i)) \<and>
     user_load (a + of_nat (length xs)) s = Inr 0"
proof (induction k arbitrary: a xs)
  case (Suc k)
  obtain c where c: "user_load a s = Inr c" using Suc.prems by auto
  show ?case
  proof (cases "c = 0")
    case False
    then obtain ys where ys: "fetchstr_loop k (a + 1) s = Inr (Some ys)" "xs = c # ys" using Suc.prems c by auto
    note IH = Suc.IH[OF ys(1)]
    have "user_load (a + of_nat i) s = Inr (xs ! i)" if "i < length xs" for i
      using IH that c ys(2) by (cases i) (auto simp: add.assoc)
    moreover have "user_load (a + of_nat (length xs)) s = Inr 0" using IH ys(2) by (simp add: add.assoc)
    ultimately show ?thesis using IH False ys(2) by auto
  qed (use Suc.prems c in auto)
qed simp

text \<open>C14: What the kernel accepts from user code lies inside the memory of the process.  All bytes of a
  buffer from \<^verbatim>\<open>argptr\<close> are below the process's size, without wrap-around; so is a word that \<^verbatim>\<open>fetchint\<close>
  reads; and a string from \<^verbatim>\<open>fetchstr\<close> is there in memory, byte for byte, with its terminating NUL.\<close>

theorem args_in_bounds:
  assumes sz: "p_sz (myproc s) \<le> KERNBASE"
  shows "(argptr n len s = Inr (Some p) \<and> len < 2 ^ 31 \<longrightarrow> 0 \<le> len \<and> int (unat p) + len \<le> int (unat (p_sz (myproc s)))) \<and>
    (fetchint a s = Inr (Some v) \<longrightarrow> unat a + 4 \<le> unat (p_sz (myproc s))) \<and>
    (fetchstr a s = Inr (Some xs) \<longrightarrow> unat a + length xs < unat (p_sz (myproc s)) \<and> 0 \<notin> set xs \<and>
       (\<forall>i<length xs. user_load (a + of_nat i) s = Inr (xs ! i)) \<and> user_load (a + of_nat (length xs)) s = Inr 0)"
proof (intro conjI impI)
  assume "argptr n len s = Inr (Some p) \<and> len < 2 ^ 31"
  then show "0 \<le> len" "int (unat p) + len \<le> int (unat (p_sz (myproc s)))" using argptr_bounds[OF sz] by blast+
next
  assume "fetchint a s = Inr (Some v)"
  then show "unat a + 4 \<le> unat (p_sz (myproc s))" by (rule fetchint_bounds[OF sz])
next
  assume "fetchstr a s = Inr (Some xs)"
  then have l: "fetchstr_loop (unat (p_sz (myproc s)) - unat a) a s = Inr (Some xs)"
    by (auto simp: fetchstr_def Let_def split: if_splits)
  note f = fetchstr_loop_Some[OF l]
  have "length xs < unat (p_sz (myproc s)) - unat a" using f by blast
  then show "unat a + length xs < unat (p_sz (myproc s))" by linarith
  show "0 \<notin> set xs" "\<forall>i<length xs. user_load (a + of_nat i) s = Inr (xs ! i)" "user_load (a + of_nat (length xs)) s = Inr 0"
    using f by blast+
qed

text \<open>A process of one page: the page directory, its first page table and the page are the pages from
  \<open>0x400000\<close> on; the page holds the string "ls".\<close>

definition one_page :: memory where
  "one_page = (store32 (store32 (\<lambda>_. 0) 0x80400000 0x401007) 0x80401000 0x402007)(0x80402000 := 108, 0x80402001 := 115)"

definition one_page_proc :: ftable where
  "one_page_proc = (cold_ft (\<lambda>_. file0) wrapping_pipe)\<lparr>mem := one_page, cur := 0,
     procs := (\<lambda>_. proc0\<lparr>p_sz := 4096, p_pgdir := 0x80400000\<rparr>)\<rparr>"

lemma one_page_fields:
  "mem one_page_proc = one_page" "p_sz (myproc one_page_proc) = 4096" "p_pgdir (myproc one_page_proc) = 0x80400000"
  by (simp_all add: one_page_proc_def myproc_def)

lemma one_page_words: "load32 one_page 0x80400000 = 0x401007" "load32 one_page 0x80401000 = 0x402007"
  by (simp_all add: one_page_def load32_def store32_def join32_def)

lemma one_page_load:
  assumes "unat va < 4096"
  shows "user_load va one_page_proc = Inr (one_page (0x80402000 + va))"
proof -
  have "PDX va = 0" "PTX va = 0" "va AND 0xFFF = va"
    using assms unat_PDX[of va] unat_PTX[of va] unat_page_offset[of va] by (simp_all add: word_unat_eq_iff)
  then show ?thesis
    by (simp add: user_load_def translate_def pte_of_def one_page_fields one_page_words PTE_P_def PTE_ADDR_def P2V_def)
qed

theorem args_in_bounds_witness:
  "fetchstr 0 one_page_proc = Inr (Some [108, 115]) \<and> 0 + length [108, 115 :: uchar] < unat (p_sz (myproc one_page_proc))"
proof -
  have "fetchstr_loop (Suc (Suc (Suc k))) 0 one_page_proc = Inr (Some [108, 115])" for k
    by (simp add: one_page_load one_page_def store32_def)
  from this[of 4093] have f: "fetchstr 0 one_page_proc = Inr (Some [108, 115])"
    by (simp add: fetchstr_def one_page_fields del: fetchstr_loop.simps)
  then show ?thesis
    using args_in_bounds[of one_page_proc 0 0 0 0 0 "[108, 115]"] by (simp add: one_page_fields)
qed

end
