(* ===== verification/Boot.thy ===== *)
theory Boot
  imports Sysfile
begin

text \<open>
  The boot loader \<^verbatim>\<open>bootmain.c\<close>, with the port instructions of \<^verbatim>\<open>x86.h\<close> it uses.

  The machine's devices are an argument of the model: what a read of a port returns, as a function of what has been written to the
  ports and of the number of reads, and the bytes the disk delivers.  The writes are recorded in the state.  The main result
  is that on a disk that answers to the read command the loader leaves in memory what the kernel's ELF image says.
\<close>

section \<open>Ports\<close>

type_synonym ports = "(uint \<times> uchar) list"

record devices =
  dv_in :: "ports \<Rightarrow> uint \<Rightarrow> nat \<Rightarrow> uchar"
  dv_data :: "ports \<Rightarrow> nat \<Rightarrow> uchar"

record hw =
  outs :: ports
  nin :: nat

definition outb :: "uint \<Rightarrow> uchar \<Rightarrow> 'a hw_scheme \<Rightarrow> 'a hw_scheme" where
  "outb port v s = s\<lparr>outs := outs s @ [(port, v)]\<rparr>"

definition inb :: "'b devices_scheme \<Rightarrow> uint \<Rightarrow> 'a hw_scheme \<Rightarrow> uchar \<times> 'a hw_scheme" where
  "inb dev port s = (dv_in dev (outs s) port (nin s), s\<lparr>nin := nin s + 1\<rparr>)"

section \<open>The loader\<close>

record boot = hw +
  b_mem :: memory

primrec ins_bytes :: "(nat \<Rightarrow> uchar) \<Rightarrow> uint \<Rightarrow> nat \<Rightarrow> memory \<Rightarrow> memory" where
  "ins_bytes f a 0 m = m"
| "ins_bytes f a (Suc n) m = (ins_bytes f a n m)(a + of_nat n := f n)"

definition insl :: "devices \<Rightarrow> uint \<Rightarrow> nat \<Rightarrow> boot \<Rightarrow> boot" where
  "insl dev addr cnt s = s\<lparr>b_mem := ins_bytes (dv_data dev (outs s)) addr (4 * cnt) (b_mem s)\<rparr>"

partial_function (option) waitdisk :: "devices \<Rightarrow> boot \<Rightarrow> boot option" where
  "waitdisk dev s = (let (r, s) = inb dev 0x1F7 s in if r AND 0xC0 \<noteq> 0x40 then waitdisk dev s else Some s)"

definition readsect :: "devices \<Rightarrow> uint \<Rightarrow> uint \<Rightarrow> boot \<Rightarrow> boot option" where
  "readsect dev dst offset s =
     Option.bind (waitdisk dev s) (\<lambda>s.
     let s = outb 0x1F2 1 s;
         s = outb 0x1F3 (ucast offset) s;
         s = outb 0x1F4 (ucast (drop_bit 8 offset)) s;
         s = outb 0x1F5 (ucast (drop_bit 16 offset)) s;
         s = outb 0x1F6 (ucast (drop_bit 24 offset OR 0xE0)) s;
         s = outb 0x1F7 0x20 s
     in Option.bind (waitdisk dev s) (\<lambda>s. Some (insl dev dst (512 div 4) s)))"

partial_function (option) readseg_loop :: "devices \<Rightarrow> uint \<Rightarrow> uint \<Rightarrow> uint \<Rightarrow> boot \<Rightarrow> boot option" where
  "readseg_loop dev pa epa offset s =
     (if pa < epa then Option.bind (readsect dev pa offset s) (\<lambda>s. readseg_loop dev (pa + 512) epa (offset + 1) s) else Some s)"

definition readseg :: "devices \<Rightarrow> uint \<Rightarrow> uint \<Rightarrow> uint \<Rightarrow> boot \<Rightarrow> boot option" where
  "readseg dev pa count offset s =
     (let epa = pa + count;
          pa = pa - offset mod 512;
          offset = offset div 512 + 1
      in readseg_loop dev pa epa offset s)"

text \<open>The fields of the headers are read from memory where they are used; a program header is 32 bytes long.\<close>

partial_function (option) boot_segs :: "devices \<Rightarrow> uint \<Rightarrow> uint \<Rightarrow> boot \<Rightarrow> boot option" where
  "boot_segs dev ph eph s =
     (if ph < eph then
        let pa = load32 (b_mem s) (ph + 12) in
        Option.bind (readseg dev pa (load32 (b_mem s) (ph + 16)) (load32 (b_mem s) (ph + 4)) s) (\<lambda>s.
        let filesz = load32 (b_mem s) (ph + 16);
            memsz = load32 (b_mem s) (ph + 20);
            s = (if memsz > filesz then s\<lparr>b_mem := stosb (b_mem s) (pa + filesz) 0 (unat (memsz - filesz))\<rparr> else s)
        in boot_segs dev (ph + 32) eph s)
      else Some s)"

definition load16 :: "memory \<Rightarrow> uint \<Rightarrow> ushort" where
  "load16 m a = join16 (m a) (m (a + 1))"

text \<open>The result is the address the loader calls, if it does.\<close>

definition bootmain :: "devices \<Rightarrow> boot \<Rightarrow> (uint option \<times> boot) option" where
  "bootmain dev s =
     (let elf = 0x10000 in
      Option.bind (readseg dev elf 4096 0 s) (\<lambda>s.
      if load32 (b_mem s) elf \<noteq> ELF_MAGIC then Some (None, s)
      else
        let ph = elf + load32 (b_mem s) (elf + 28);
            eph = ph + 32 * ucast (load16 (b_mem s) (elf + 44))
        in Option.bind (boot_segs dev ph eph s) (\<lambda>s. Some (Some (load32 (b_mem s) (elf + 24)), s))))"

section \<open>Reading the disk\<close>

text \<open>What is relied on of the disk: it becomes ready again and again, and after the command to read one sector, addressed by 28 bits, it delivers that sector.\<close>

definition responsive :: "devices \<Rightarrow> bool" where
  "responsive dev \<longleftrightarrow> (\<forall>tr n. \<exists>k\<ge>n. dv_in dev tr 0x1F7 k AND 0xC0 = 0x40)"

definition read_cmd :: "uint \<Rightarrow> ports" where
  "read_cmd n = [(0x1F2, 1), (0x1F3, ucast n), (0x1F4, ucast (drop_bit 8 n)), (0x1F5, ucast (drop_bit 16 n)),
     (0x1F6, ucast (drop_bit 24 n OR 0xE0)), (0x1F7, 0x20)]"

definition delivers :: "devices \<Rightarrow> (nat \<Rightarrow> block) \<Rightarrow> bool" where
  "delivers dev disk \<longleftrightarrow> (\<forall>tr n. unat n < 2 ^ 28 \<longrightarrow> dv_data dev (tr @ read_cmd n) = disk (unat n))"

lemma ins_bytes_nth:
  "unat a + n \<le> 2 ^ 32 \<Longrightarrow> ins_bytes f a n m x = (if unat a \<le> unat x \<and> unat x < unat a + n then f (unat x - unat a) else m x)"
proof (induction n)
  case (Suc n)
  have "unat (a + of_nat n) = unat a + n" using Suc.prems by (intro unat_add_offset) simp
  then have "x = a + of_nat n \<longleftrightarrow> unat x = unat a + n" by (metis word_unat_eq_iff)
  then show ?case using Suc by auto
qed auto

lemma stosb_nth:
  "unat a + n \<le> 2 ^ 32 \<Longrightarrow> stosb m a c n x = (if unat a \<le> unat x \<and> unat x < unat a + n then c else m x)"
proof (induction n arbitrary: a m)
  case (Suc n)
  show ?case
  proof (cases "n = 0")
    case False
    then have u: "unat (a + 1) = unat a + 1" using Suc.prems unat_add_offset[of a 1] by simp
    then show ?thesis using Suc by (auto simp: word_unat_eq_iff)
  qed (use Suc.prems in \<open>auto simp: word_unat_eq_iff\<close>)
qed auto

lemma waitdisk_ok:
  assumes "responsive dev"
  shows "\<exists>k. waitdisk dev s = Some (s\<lparr>nin := k\<rparr>)"
proof -
  obtain k where k: "k \<ge> nin s" "dv_in dev (outs s) 0x1F7 k AND 0xC0 = 0x40" using assms by (auto simp: responsive_def)
  have "\<exists>j. waitdisk dev s = Some (s\<lparr>nin := j\<rparr>)" using k
  proof (induction "k - nin s" arbitrary: s)
    case 0
    then show ?case by (subst waitdisk.simps) (auto simp: inb_def)
  next
    case (Suc d)
    let ?s = "s\<lparr>nin := nin s + 1\<rparr>"
    show ?case
    proof (cases "dv_in dev (outs s) 0x1F7 (nin s) AND 0xC0 = 0x40")
      case False
      then have "waitdisk dev s = waitdisk dev ?s" by (subst waitdisk.simps) (simp add: inb_def)
      then show ?thesis using Suc.hyps(1)[of ?s] Suc.hyps(2) Suc.prems by auto
    qed (subst waitdisk.simps, auto simp: inb_def)
  qed
  then show ?thesis .
qed

lemma readsect_ok:
  assumes "responsive dev" "delivers dev disk" "unat n < 2 ^ 28"
  shows "\<exists>o' k. readsect dev dst n s = Some (s\<lparr>outs := o', nin := k, b_mem := ins_bytes (disk (unat n)) dst 512 (b_mem s)\<rparr>)"
proof -
  obtain k1 where k1: "waitdisk dev s = Some (s\<lparr>nin := k1\<rparr>)" using waitdisk_ok[OF assms(1)] by blast
  let ?s2 = "s\<lparr>nin := k1, outs := outs s @ read_cmd n\<rparr>"
  obtain k2 where k2: "waitdisk dev ?s2 = Some (?s2\<lparr>nin := k2\<rparr>)" using waitdisk_ok[OF assms(1)] by blast
  have "readsect dev dst n s = Some (insl dev dst (512 div 4) (?s2\<lparr>nin := k2\<rparr>))"
    using k1 k2 by (simp add: readsect_def Let_def outb_def read_cmd_def)
  moreover have "dv_data dev (outs s @ read_cmd n) = disk (unat n)" using assms(2,3) by (simp add: delivers_def)
  ultimately show ?thesis by (auto simp: insl_def)
qed

text \<open>The image of the kernel starts at sector 1.\<close>

definition image_of :: "(nat \<Rightarrow> block) \<Rightarrow> nat \<Rightarrow> uchar" where
  "image_of disk k = disk (k div 512 + 1) (k mod 512)"

definition filled_from :: "(nat \<Rightarrow> uchar) \<Rightarrow> nat \<Rightarrow> nat \<Rightarrow> nat \<Rightarrow> memory \<Rightarrow> bool" where
  "filled_from img a b off m \<longleftrightarrow> (\<forall>x. a \<le> unat x \<and> unat x < b \<longrightarrow> m x = img (off + (unat x - a)))"

definition same_outside :: "nat \<Rightarrow> nat \<Rightarrow> memory \<Rightarrow> memory \<Rightarrow> bool" where
  "same_outside a b m m' \<longleftrightarrow> (\<forall>x. unat x < a \<or> b \<le> unat x \<longrightarrow> m' x = m x)"

lemma sectors: "0 < d \<Longrightarrow> (d + 511) div 512 = (d - 512 + 511) div 512 + 1" for d :: nat
  using le_div_geq[of 512 "d + 511"] by (cases "d < 512") auto

lemma image_of_sector: "j < 512 \<Longrightarrow> image_of disk (512 * q + j) = disk (q + 1) j"
  by (simp add: image_of_def)

lemma readseg_loop_ok:
  assumes dev: "responsive dev" "delivers dev disk"
  shows "1 \<le> unat n \<Longrightarrow> unat epa + 511 < 2 ^ 32 \<Longrightarrow> unat n + (unat epa - unat pa + 511) div 512 \<le> 2 ^ 28 \<Longrightarrow>
    \<exists>s'. readseg_loop dev pa epa n s = Some s' \<and> filled_from (image_of disk) (unat pa) (unat epa) (512 * (unat n - 1)) (b_mem s') \<and>
      same_outside (unat pa) (unat epa + 511) (b_mem s) (b_mem s')"
proof (induction "unat epa - unat pa" arbitrary: pa n s rule: less_induct)
  case less
  show ?case
  proof (cases "pa < epa")
    case False
    then show ?thesis by (subst readseg_loop.simps) (auto simp: filled_from_def same_outside_def word_less_nat_alt)
  next
    case True
    then have lt: "unat pa < unat epa" by (simp add: word_less_nat_alt)
    have u: "unat (pa + 512) = unat pa + 512" using lt less.prems(2) unat_add_offset[of pa 512] by simp
    have sec: "(unat epa - unat pa + 511) div 512 = (unat epa - (unat pa + 512) + 511) div 512 + 1" using sectors[of "unat epa - unat pa"] lt by simp
    then have n28: "unat n < 2 ^ 28" using less.prems(3) by linarith
    then have un: "unat (n + 1) = unat n + 1" using unat_add_offset[of n 1] by simp
    let ?m = "ins_bytes (disk (unat n)) pa 512 (b_mem s)"
    obtain o' k where s1: "readsect dev pa n s = Some (s\<lparr>outs := o', nin := k, b_mem := ?m\<rparr>)"
      using readsect_ok[OF dev n28, of pa s] by auto
    let ?s1 = "s\<lparr>outs := o', nin := k, b_mem := ?m\<rparr>"
    have "unat (n + 1) + (unat epa - unat (pa + 512) + 511) div 512 \<le> 2 ^ 28" using less.prems(3) un u sec by linarith
    moreover have "unat epa - unat (pa + 512) < unat epa - unat pa" using u lt by linarith
    ultimately obtain s' where s': "readseg_loop dev (pa + 512) epa (n + 1) ?s1 = Some s'"
      "filled_from (image_of disk) (unat pa + 512) (unat epa) (512 * unat n) (b_mem s')" "same_outside (unat pa + 512) (unat epa + 511) ?m (b_mem s')"
      using less.hyps[of "pa + 512" "n + 1" ?s1] less.prems(1,2) u un by auto
    have "readseg_loop dev pa epa n s = Some s'" using True s1 s'(1) by (subst readseg_loop.simps) simp
    moreover have "filled_from (image_of disk) (unat pa) (unat epa) (512 * (unat n - 1)) (b_mem s')"
      unfolding filled_from_def
    proof (intro allI impI)
      fix x :: uint assume x: "unat pa \<le> unat x \<and> unat x < unat epa"
      show "b_mem s' x = image_of disk (512 * (unat n - 1) + (unat x - unat pa))"
      proof (cases "unat x < unat pa + 512")
        case True
        then have "b_mem s' x = disk (unat n) (unat x - unat pa)" using s'(3) x lt less.prems(2) by (simp add: same_outside_def ins_bytes_nth)
        moreover have "unat x - unat pa < 512" using True by linarith
        note image_of_sector[OF this, of disk "unat n - 1"]
        ultimately show ?thesis using less.prems(1) by simp
      next
        case False
        then have "b_mem s' x = image_of disk (512 * unat n + (unat x - (unat pa + 512)))" using s'(2) x by (simp add: filled_from_def)
        moreover have "512 * unat n + (unat x - (unat pa + 512)) = 512 * (unat n - 1) + (unat x - unat pa)" using False less.prems(1) by (cases "unat n") simp_all
        ultimately show ?thesis by simp
      qed
    qed
    moreover have "same_outside (unat pa) (unat epa + 511) (b_mem s) (b_mem s')"
      using s'(3) lt less.prems(2) by (auto simp: same_outside_def ins_bytes_nth)
    ultimately show ?thesis by blast
  qed
qed

lemma readseg_ok:
  assumes dev: "responsive dev" "delivers dev disk" and pa: "unat off mod 512 \<le> unat pa" "unat pa + unat cnt + 511 < 2 ^ 32"
  shows "\<exists>s'. readseg dev pa cnt off s = Some s' \<and> filled_from (image_of disk) (unat pa) (unat pa + unat cnt) (unat off) (b_mem s') \<and>
    same_outside (unat pa - unat off mod 512) (unat pa + unat cnt + 511) (b_mem s) (b_mem s')"
proof -
  let ?r = "unat off mod 512" and ?q = "unat off div 512"
  have um: "unat (off mod 512) = ?r" by (simp add: unat_mod)
  have ue: "unat (pa + cnt) = unat pa + unat cnt" using pa(2) by (simp add: unat_word_ariths)
  have up: "unat (pa - off mod 512) = unat pa - ?r" using pa(1) um by (simp add: unat_sub word_le_nat_alt)
  have "?q < 2 ^ 23" using unat_uint_bound[of off] by (simp add: less_mult_imp_div_less)
  then have un: "unat (off div 512 + 1) = ?q + 1" by (simp add: unat_word_ariths unat_div)
  have "unat pa + unat cnt - (unat pa - ?r) + 511 < 512 * (2 ^ 23 + 2)" using pa unat_uint_bound[of cnt] by simp
  then have "(unat pa + unat cnt - (unat pa - ?r) + 511) div 512 < 2 ^ 23 + 2" by (simp add: less_mult_imp_div_less)
  moreover have "q + 1 + k \<le> 2 ^ 28" if "k < 2 ^ 23 + 2" "q < 2 ^ 23" for q k :: nat using that by simp
  ultimately have b: "unat (off div 512 + 1) + (unat (pa + cnt) - unat (pa - off mod 512) + 511) div 512 \<le> 2 ^ 28" using \<open>?q < 2 ^ 23\<close> unfolding un ue up by blast
  obtain s' where s': "readseg_loop dev (pa - off mod 512) (pa + cnt) (off div 512 + 1) s = Some s'"
    "filled_from (image_of disk) (unat pa - ?r) (unat pa + unat cnt) (512 * ?q) (b_mem s')"
    "same_outside (unat pa - ?r) (unat pa + unat cnt + 511) (b_mem s) (b_mem s')"
    using readseg_loop_ok[OF dev _ _ b] un ue up pa(2) by auto
  have "512 * ?q + (x - (unat pa - ?r)) = unat off + (x - unat pa)" if "unat pa \<le> x" for x
    using that pa(1) mult_div_mod_eq[of 512 "unat off"] by linarith
  then have "filled_from (image_of disk) (unat pa) (unat pa + unat cnt) (unat off) (b_mem s')" using s'(2) by (auto simp: filled_from_def)
  then show ?thesis using s'(1,3) by (auto simp: readseg_def Let_def)
qed

section \<open>Loading the kernel\<close>

text \<open>The program headers of the image.\<close>

definition ph_field :: "(nat \<Rightarrow> uchar) \<Rightarrow> nat \<Rightarrow> nat \<Rightarrow> uint" where
  "ph_field img i k = get32 img (unat (get32 img 28) + 32 * i + k)"

definition sg_off :: "(nat \<Rightarrow> uchar) \<Rightarrow> nat \<Rightarrow> nat" where "sg_off img i = unat (ph_field img i 4)"
definition sg_addr :: "(nat \<Rightarrow> uchar) \<Rightarrow> nat \<Rightarrow> nat" where "sg_addr img i = unat (ph_field img i 12)"
definition sg_filesz :: "(nat \<Rightarrow> uchar) \<Rightarrow> nat \<Rightarrow> nat" where "sg_filesz img i = unat (ph_field img i 16)"
definition sg_memsz :: "(nat \<Rightarrow> uchar) \<Rightarrow> nat \<Rightarrow> nat" where "sg_memsz img i = unat (ph_field img i 20)"

definition phnum :: "(nat \<Rightarrow> uchar) \<Rightarrow> nat" where
  "phnum img = unat (get16 img 44)"

text \<open>The segments lie in the order of their addresses, far enough apart that the sectors read for one do not reach into one below, and above the page the headers are read to.\<close>

definition loadable :: "(nat \<Rightarrow> uchar) \<Rightarrow> bool" where
  "loadable img \<longleftrightarrow> get32 img 0 = ELF_MAGIC \<and> unat (get32 img 28) + 32 * phnum img \<le> 4096 \<and>
     (\<forall>i<phnum img. 0x11000 + sg_off img i mod 512 \<le> sg_addr img i \<and> sg_addr img i + max (sg_filesz img i) (sg_memsz img i) + 511 < 2 ^ 32) \<and>
     (\<forall>j<phnum img. \<forall>i<j. sg_addr img i + max (sg_filesz img i) (sg_memsz img i) \<le> sg_addr img j - sg_off img j mod 512)"

definition seg_loaded :: "(nat \<Rightarrow> uchar) \<Rightarrow> nat \<Rightarrow> memory \<Rightarrow> bool" where
  "seg_loaded img i m \<longleftrightarrow> (\<forall>x. sg_addr img i \<le> unat x \<and> unat x < sg_addr img i + max (sg_filesz img i) (sg_memsz img i) \<longrightarrow>
     m x = (if unat x < sg_addr img i + sg_filesz img i then img (sg_off img i + (unat x - sg_addr img i)) else 0))"

definition header_in :: "(nat \<Rightarrow> uchar) \<Rightarrow> memory \<Rightarrow> bool" where
  "header_in img m \<longleftrightarrow> filled_from img 0x10000 0x11000 0 m"

lemma header_load:
  assumes "header_in img m" "k + 4 \<le> 4096"
  shows "load32 m (0x10000 + of_nat k) = get32 img k" "load16 m (0x10000 + of_nat k) = get16 img k"
proof -
  have b: "m (0x10000 + of_nat k + of_nat j) = img (k + j)" if "j < 4" for j
  proof -
    have "unat (0x10000 + of_nat (k + j) :: uint) = 0x10000 + (k + j)" using assms(2) that unat_add_offset[of "0x10000" "k + j"] by simp
    then show ?thesis using assms that by (simp add: header_in_def filled_from_def add.assoc)
  qed
  show "load32 m (0x10000 + of_nat k) = get32 img k" using b[of 0] b[of 1] b[of 2] b[of 3] by (simp add: load32_def get32_def)
  show "load16 m (0x10000 + of_nat k) = get16 img k" using b[of 0] b[of 1] by (simp add: load16_def get16_def)
qed

lemma seg_keep:
  assumes "same_outside a b m m'" "sg_addr img i + max (sg_filesz img i) (sg_memsz img i) \<le> a"
  shows "seg_loaded img i m \<Longrightarrow> seg_loaded img i m'"
  using assms by (simp add: seg_loaded_def same_outside_def)

lemma header_keep: "same_outside a b m m' \<Longrightarrow> 0x11000 \<le> a \<Longrightarrow> header_in img m \<Longrightarrow> header_in img m'"
  by (simp add: header_in_def filled_from_def same_outside_def)

lemma load_segment:
  fixes img :: "nat \<Rightarrow> uchar"
  assumes dev: "responsive dev" "delivers dev disk" and img: "img = image_of disk" "loadable img" and i: "i < phnum img"
  defines "pa \<equiv> ph_field img i 12" and "filesz \<equiv> ph_field img i 16" and "memsz \<equiv> ph_field img i 20"
  shows "\<exists>s'. readseg dev pa filesz (ph_field img i 4) s = Some s' \<and>
    (let m = (if memsz > filesz then stosb (b_mem s') (pa + filesz) 0 (unat (memsz - filesz)) else b_mem s') in
      seg_loaded img i m \<and> same_outside (sg_addr img i - sg_off img i mod 512) (2 ^ 32) (b_mem s) m) \<and>
    same_outside (sg_addr img i - sg_off img i mod 512) (2 ^ 32) (b_mem s) (b_mem s')"
proof -
  let ?a = "sg_addr img i" and ?f = "sg_filesz img i" and ?n = "sg_memsz img i" and ?o = "sg_off img i"
  have l: "0x11000 + ?o mod 512 \<le> ?a" "?a + max ?f ?n + 511 < 2 ^ 32" using img(2) i by (auto simp: loadable_def)
  then have lf: "?a + ?f + 511 < 2 ^ 32" "?a + ?n + 511 < 2 ^ 32" by linarith+
  have u: "unat pa = ?a" "unat filesz = ?f" "unat memsz = ?n" "unat (ph_field img i 4) = ?o"
    by (simp_all add: pa_def filesz_def memsz_def sg_addr_def sg_filesz_def sg_memsz_def sg_off_def)
  obtain s' where s': "readseg dev pa filesz (ph_field img i 4) s = Some s'" "filled_from img ?a (?a + ?f) ?o (b_mem s')"
    "same_outside (?a - ?o mod 512) (?a + ?f + 511) (b_mem s) (b_mem s')"
    using readseg_ok[OF dev, of "ph_field img i 4" pa filesz s] l(1) lf u unfolding img(1)[symmetric] by auto
  have so: "same_outside (?a - ?o mod 512) (2 ^ 32) (b_mem s) (b_mem s')" using s'(3) unat_uint_bound unfolding same_outside_def by (meson not_less)
  define m where "m = (if memsz > filesz then stosb (b_mem s') (pa + filesz) 0 (unat (memsz - filesz)) else b_mem s')"
  have mx: "m x = (if ?a + ?f \<le> unat x \<and> unat x < ?a + ?n then 0 else b_mem s' x)" for x
  proof (cases "memsz > filesz")
    case True
    then have "unat (memsz - filesz) = ?n - ?f" "?f < ?n" using u by (auto simp: word_less_nat_alt unat_sub less_imp_le)
    moreover have "unat (pa + filesz) = ?a + ?f" using lf u by (simp add: unat_word_ariths)
    ultimately show ?thesis using True lf by (auto simp: m_def stosb_nth)
  qed (use u in \<open>auto simp: m_def word_less_nat_alt\<close>)
  have "seg_loaded img i m" using s'(2) by (auto simp: seg_loaded_def mx filled_from_def)
  moreover have "same_outside (?a - ?o mod 512) (2 ^ 32) (b_mem s) m" using so lf by (auto simp: same_outside_def mx)
  ultimately show ?thesis using s'(1) so unfolding m_def Let_def by blast
qed

lemma ph_load:
  assumes "loadable img" "header_in img m" "i < phnum img" "k + 4 \<le> 32"
  shows "load32 m (0x10000 + of_nat (unat (get32 img 28) + 32 * i) + of_nat k) = ph_field img i k"
  using header_load(1)[OF assms(2), of "unat (get32 img 28) + 32 * i + k"] assms by (auto simp: ph_field_def loadable_def add.assoc)

lemma boot_segs_ok:
  fixes img :: "nat \<Rightarrow> uchar"
  assumes dev: "responsive dev" "delivers dev disk" and img: "img = image_of disk" "loadable img"
  defines "ph \<equiv> \<lambda>i. 0x10000 + of_nat (unat (get32 img 28) + 32 * i) :: uint"
  shows "i \<le> phnum img \<Longrightarrow> header_in img (b_mem s) \<Longrightarrow> \<forall>j<i. seg_loaded img j (b_mem s) \<Longrightarrow>
    \<exists>s'. boot_segs dev (ph i) (ph (phnum img)) s = Some s' \<and> header_in img (b_mem s') \<and> (\<forall>j<phnum img. seg_loaded img j (b_mem s'))"
proof (induction "phnum img - i" arbitrary: i s)
  case 0
  then have "i = phnum img" by simp
  then show ?case using 0 by (subst boot_segs.simps) auto
next
  case (Suc d)
  then have i: "i < phnum img" and d: "d = phnum img - Suc i" by simp_all
  have b: "unat (get32 img 28) + 32 * phnum img \<le> 4096" using img(2) by (simp add: loadable_def)
  have up: "unat (ph j) = 0x10000 + (unat (get32 img 28) + 32 * j)" if "j \<le> phnum img" for j
    unfolding ph_def using unat_add_offset[of "0x10000" "unat (get32 img 28) + 32 * j"] b that by simp
  have lt: "ph i < ph (phnum img)" using up[of i] up[of "phnum img"] i by (simp add: word_less_nat_alt)
  have nx: "ph i + 32 = ph (Suc i)" by (simp add: ph_def add.assoc)
  have pl: "load32 m (ph i + 4) = ph_field img i 4" "load32 m (ph i + 12) = ph_field img i 12" "load32 m (ph i + 16) = ph_field img i 16"
    "load32 m (ph i + 20) = ph_field img i 20" if h: "header_in img m" for m
    unfolding ph_def using ph_load[OF img(2) h i, of 4] ph_load[OF img(2) h i, of 12] ph_load[OF img(2) h i, of 16] ph_load[OF img(2) h i, of 20] by simp_all
  let ?pa = "ph_field img i 12" and ?f = "ph_field img i 16" and ?n = "ph_field img i 20" and ?a = "sg_addr img i - sg_off img i mod 512"
  obtain s1 where s1: "readseg dev ?pa ?f (ph_field img i 4) s = Some s1"
    "let m = (if ?n > ?f then stosb (b_mem s1) (?pa + ?f) 0 (unat (?n - ?f)) else b_mem s1) in seg_loaded img i m \<and> same_outside ?a (2 ^ 32) (b_mem s) m"
    "same_outside ?a (2 ^ 32) (b_mem s) (b_mem s1)"
    using load_segment[OF dev img i, of s] by blast
  define s2 where "s2 = (if ?n > ?f then s1\<lparr>b_mem := stosb (b_mem s1) (?pa + ?f) 0 (unat (?n - ?f))\<rparr> else s1)"
  have s2: "seg_loaded img i (b_mem s2)" "same_outside ?a (2 ^ 32) (b_mem s) (b_mem s2)" using s1(2) by (auto simp: s2_def Let_def split: if_splits)
  have a: "0x11000 \<le> ?a" using img(2) i by (auto simp: loadable_def)
  have h1: "header_in img (b_mem s1)" "header_in img (b_mem s2)" using header_keep a s1(3) s2(2) Suc.prems(2) by blast+
  have "\<forall>j<Suc i. seg_loaded img j (b_mem s2)"
  proof (intro allI impI)
    fix j assume "j < Suc i"
    then show "seg_loaded img j (b_mem s2)"
      using s2(1) seg_keep[OF s2(2), of img j] Suc.prems(3) img(2) i by (cases "j = i") (auto simp: loadable_def)
  qed
  then obtain s' where s': "boot_segs dev (ph (Suc i)) (ph (phnum img)) s2 = Some s'" "header_in img (b_mem s')" "\<forall>j<phnum img. seg_loaded img j (b_mem s')"
    using Suc.hyps(1)[of "Suc i" s2] d h1(2) i by auto
  have "boot_segs dev (ph i) (ph (phnum img)) s = boot_segs dev (ph (Suc i)) (ph (phnum img)) s2"
    using lt s1(1) pl[OF Suc.prems(2)] pl[OF h1(1)] nx by (subst boot_segs.simps) (simp add: s2_def Let_def)
  then show ?case using s' by auto
qed

text \<open>C22: on a disk that answers to the read command and holds a loadable ELF image of the kernel from sector 1 on, the boot loader ends,
  every segment is in memory at its physical address with its bytes of the file and zeros behind them up to its size in memory,
  and the loader calls the entry point the image names.\<close>

theorem bootmain_loads:
  assumes dev: "responsive dev" "delivers dev disk" and img: "loadable (image_of disk)"
  shows "\<exists>s'. bootmain dev s = Some (Some (get32 (image_of disk) 24), s') \<and> (\<forall>i<phnum (image_of disk). seg_loaded (image_of disk) i (b_mem s'))"
proof -
  let ?img = "image_of disk"
  obtain s1 where s1: "readseg dev 0x10000 4096 0 s = Some s1" "filled_from ?img 0x10000 0x11000 0 (b_mem s1)"
    using readseg_ok[OF dev, of 0 "0x10000" 4096 s] by auto
  then have h1: "header_in ?img (b_mem s1)" by (simp add: header_in_def)
  have b: "unat (get32 ?img 28) + 32 * phnum ?img \<le> 4096" "get32 ?img 0 = ELF_MAGIC" using img by (auto simp: loadable_def)
  have "load32 (b_mem s1) 0x10000 = ELF_MAGIC" "load32 (b_mem s1) 0x1001C = get32 ?img 28" "load16 (b_mem s1) 0x1002C = get16 ?img 44"
    using header_load[OF h1, of 0] header_load[OF h1, of 28] header_load[OF h1, of 44] b(2) by simp_all
  note f1 = this
  let ?ph = "\<lambda>i. 0x10000 + of_nat (unat (get32 ?img 28) + 32 * i) :: uint"
  have uc: "ucast (get16 ?img 44) = (of_nat (phnum ?img) :: uint)" by (simp add: phnum_def)
  then have e: "0x10000 + get32 ?img 28 = ?ph 0" "0x10000 + get32 ?img 28 + 32 * ucast (get16 ?img 44) = ?ph (phnum ?img)" by simp_all
  obtain s' where s': "boot_segs dev (?ph 0) (?ph (phnum ?img)) s1 = Some s'" "header_in ?img (b_mem s')" "\<forall>j<phnum ?img. seg_loaded ?img j (b_mem s')"
    using boot_segs_ok[OF dev refl img, of 0 s1] h1 by auto
  have "load32 (b_mem s') 0x10018 = get32 ?img 24" using header_load(1)[OF s'(2), of 24] by simp
  then have "bootmain dev s = Some (Some (get32 ?img 24), s')"
    using s1(1) f1 s'(1) unfolding bootmain_def Let_def by (simp add: uc add.assoc)
  then show ?thesis using s'(3) by blast
qed

text \<open>A disk for the witness: it takes the sector number from the last command, and holds an image with one segment.\<close>

definition lba_of :: "ports \<Rightarrow> uint" where
  "lba_of tr = (case rev tr of c # d3 # d2 # d1 # d0 # _ \<Rightarrow> join32 (snd d0) (snd d1) (snd d2) (snd d3 AND 0x0F) | _ \<Rightarrow> 0)"

definition small_image :: "nat \<Rightarrow> uchar" where
  "small_image = put32 (put32 (put32 (put32 (put32 (put16 (put32 (put32 (put32 (\<lambda>_. 0) 0 ELF_MAGIC) 24 0x10000C) 28 52) 44 1) 56 4096) 64 0x100000) 68 4) 72 8) 4096 0x12345678"

definition small_disk :: "nat \<Rightarrow> block" where
  "small_disk n = (\<lambda>k. small_image (512 * (n - 1) + k))"

definition small_dev :: devices where
  "small_dev = \<lparr>dv_in = (\<lambda>_ _ _. 0x40), dv_data = (\<lambda>tr. small_disk (unat (lba_of tr)))\<rparr>"

lemma lba_of_cmd:
  assumes "unat n < 2 ^ 28"
  shows "lba_of (tr @ read_cmd n) = n"
proof -
  have "take_bit 28 n = n" using assms by (metis take_bit_nat_eq_self unsigned_take_bit_eq word_unat_eq_iff)
  then have b: "i < 28" if "bit n i" for i using that by (metis bit_take_bit_iff)
  have "ucast (drop_bit 24 n OR 0xE0) AND 0x0F = (ucast (drop_bit 24 n) :: uchar)"
  proof (rule bit_word_eqI)
    fix i assume "i < LENGTH(8)"
    then have "i = 0 \<or> i = 1 \<or> i = 2 \<or> i = 3 \<or> i = 4 \<or> i = 5 \<or> i = 6 \<or> i = 7" by force
    then show "bit (ucast (drop_bit 24 n OR 0xE0) AND 0x0F :: uchar) i = bit (ucast (drop_bit 24 n) :: uchar) i"
      using b[of "24 + i"] by (auto simp: bit_and_iff bit_or_iff bit_unsigned_iff bit_drop_bit_eq)
  qed
  then show ?thesis by (simp add: lba_of_def read_cmd_def)
qed

lemma small_image_of: "image_of small_disk = small_image"
  by (simp add: fun_eq_iff image_of_def small_disk_def)

theorem bootmain_loads_witness:
  "\<exists>s'. bootmain small_dev \<lparr>outs = [], nin = 0, b_mem = (\<lambda>_. 1)\<rparr> = Some (Some 0x10000C, s') \<and> b_mem s' 0x100000 = 0x78 \<and> b_mem s' 0x100007 = 0"
proof -
  have "responsive small_dev" by (auto simp: responsive_def small_dev_def)
  moreover have "delivers small_dev small_disk" by (simp add: delivers_def small_dev_def lba_of_cmd)
  moreover have f: "phnum small_image = 1" "sg_off small_image 0 = 4096" "sg_addr small_image 0 = 0x100000" "sg_filesz small_image 0 = 4" "sg_memsz small_image 0 = 8"
    "get32 small_image 24 = 0x10000C" "small_image 4096 = 0x78" "get32 small_image 28 = 52" "get32 small_image 0 = ELF_MAGIC"
    by (simp_all add: phnum_def sg_off_def sg_addr_def sg_filesz_def sg_memsz_def ph_field_def small_image_def) (simp add: put32_def)
  then have "loadable small_image" by (simp add: loadable_def)
  ultimately obtain s' where s': "bootmain small_dev \<lparr>outs = [], nin = 0, b_mem = (\<lambda>_. 1)\<rparr> = Some (Some (get32 small_image 24), s')" "seg_loaded small_image 0 (b_mem s')"
    using bootmain_loads[of small_dev small_disk "\<lparr>outs = [], nin = 0, b_mem = (\<lambda>_. 1)\<rparr>"] f(1) by (auto simp: small_image_of)
  then show ?thesis using f by (auto simp: seg_loaded_def)
qed

end
