(* ===== verification/Console.thy ===== *)
theory Console
  imports Sysfile
begin

text \<open>
  The console: \<^verbatim>\<open>console.c\<close>, the keyboard \<^verbatim>\<open>kbd.c\<close>, \<^verbatim>\<open>kbd.h\<close> and the serial port \<^verbatim>\<open>uart.c\<close>.

  The screen is the array of cells and the cursor position of the video hardware; \<open>uart_out\<close> is what
  has been sent to the serial port.  The waiting for the transmitter is not modelled.  A call of a
  device's \<open>getc\<close> is a function of what the device has to offer, and an interrupt handler takes
  the list of the values its calls return before the negative one.
\<close>

section \<open>State\<close>

definition INPUT_BUF :: nat where [simp]: "INPUT_BUF = 128"

record input =
  in_buf :: block
  in_r :: uint
  in_w :: uint
  in_e :: uint

record cons = kern +
  locking :: bool
  panicked :: bool
  uart :: bool
  uart_out :: "uchar list"
  crt :: "nat \<Rightarrow> ushort"
  crt_pos :: int
  inp :: input
  kshift :: uint

section \<open>Output\<close>

definition uartputc :: "int \<Rightarrow> 'a cons_scheme \<Rightarrow> 'a cons_scheme" where
  "uartputc c s = (if \<not> uart s then s else s\<lparr>uart_out := uart_out s @ [of_int c]\<rparr>)"

definition BACKSPACE :: int where [simp]: "BACKSPACE = 0x100"

definition cgaputc :: "int \<Rightarrow> 'a cons_scheme \<Rightarrow> 'a cons_scheme res" where
  "cgaputc c s =
     (let pos = crt_pos s;
          (pos, s) = (if c = 10 then (pos + (80 - pos mod 80), s)
                      else if c = BACKSPACE then (if pos > 0 then pos - 1 else pos, s)
                      else (pos + 1, s\<lparr>crt := (crt s)(nat pos := of_int c AND 0xff OR 0x0700)\<rparr>)) in
      if pos < 0 \<or> pos > 25 * 80 then Inl (Panic ''pos under/overflow'')
      else
        let (pos, s) = (if pos div 80 \<ge> 24 then
                          let m = (\<lambda>i. if i < 23 * 80 then crt s (i + 80) else crt s i); p = pos - 80
                          in (p, s\<lparr>crt := (\<lambda>i. if nat p \<le> i \<and> i < 24 * 80 then 0 else m i)\<rparr>)
                        else (pos, s))
        in Inr (s\<lparr>crt_pos := pos, crt := (crt s)(nat pos := 0x20 OR 0x0700)\<rparr>))"

text \<open>After a panic on another CPU, \<^verbatim>\<open>consputc\<close> spins for ever.\<close>

definition consputc :: "int \<Rightarrow> 'a cons_scheme \<Rightarrow> 'a cons_scheme res" where
  "consputc c s =
     (if panicked s then Inl (Panic ''panicked'')
      else
        let s = (if c = BACKSPACE then uartputc 8 (uartputc 32 (uartputc 8 s)) else uartputc c s)
        in cgaputc c s)"

primrec consputs :: "int list \<Rightarrow> 'a cons_scheme \<Rightarrow> 'a cons_scheme res" where
  "consputs [] s = Inr s"
| "consputs (c # cs) s = bindr (consputc c s) (consputs cs)"

text \<open>The digits, least significant first; \<^verbatim>\<open>buf\<close> has room for 16 characters.\<close>

definition digit :: "uint \<Rightarrow> int" where
  "digit d = (if d < 10 then 48 + uint d else 87 + uint d)"

primrec printint_loop :: "nat \<Rightarrow> uint \<Rightarrow> uint \<Rightarrow> int list" where
  "printint_loop 0 base x = []"
| "printint_loop (Suc k) base x =
     digit (x mod base) # (if x div base \<noteq> 0 then printint_loop k base (x div base) else [])"

definition printint_chars :: "uint \<Rightarrow> uint \<Rightarrow> bool \<Rightarrow> int list" where
  "printint_chars xx base sg =
     (let neg = (sg \<and> sint xx < 0); x = (if neg then - xx else xx)
      in rev (printint_loop 16 base x @ (if neg then [45] else [])))"

definition printint :: "uint \<Rightarrow> uint \<Rightarrow> bool \<Rightarrow> 'a cons_scheme \<Rightarrow> 'a cons_scheme res" where
  "printint xx base sg s = consputs (printint_chars xx base sg) s"

text \<open>The variable arguments of \<^verbatim>\<open>cprintf\<close>: a number, or a string, \<open>None\<close> for a null pointer.\<close>

datatype cprintf_arg = ArgInt uint | ArgStr "uchar list option"

definition arg_int :: "cprintf_arg list \<Rightarrow> uint" where
  "arg_int args = (case args of ArgInt n # _ \<Rightarrow> n | _ \<Rightarrow> 0)"

definition arg_str :: "cprintf_arg list \<Rightarrow> uchar list" where
  "arg_str args = (case args of ArgStr (Some xs) # _ \<Rightarrow> xs | _ \<Rightarrow> ascii ''(null)'')"

fun cprintf :: "uchar list \<Rightarrow> cprintf_arg list \<Rightarrow> 'a cons_scheme \<Rightarrow> 'a cons_scheme res" where
  "cprintf [] args s = Inr s"
| "cprintf [c] args s = (if c \<noteq> 37 then consputc (uint c) s else Inr s)"
| "cprintf (c # d # fmt) args s =
     (if c \<noteq> 37 then bindr (consputc (uint c) s) (cprintf (d # fmt) args)
      else if d = 100 then bindr (printint (arg_int args) 10 True s) (cprintf fmt (tl args))
      else if d = 120 \<or> d = 112 then bindr (printint (arg_int args) 16 False s) (cprintf fmt (tl args))
      else if d = 115 then bindr (consputs (map uint (arg_str args)) s) (cprintf fmt (tl args))
      else if d = 37 then bindr (consputc 37 s) (cprintf fmt args)
      else bindr (consputc 37 s) (\<lambda>s. bindr (consputc (uint d) s) (cprintf fmt args)))"

text \<open>\<^verbatim>\<open>panic\<close> prints and then stops; the state is the one it stops in.\<close>

primrec print_pcs :: "uint list \<Rightarrow> 'a cons_scheme \<Rightarrow> 'a cons_scheme res" where
  "print_pcs [] s = Inr s"
| "print_pcs (p # ps) s = bindr (cprintf (ascii '' %p'') [ArgInt p] s) (print_pcs ps)"

definition panic :: "uchar list \<Rightarrow> uint \<Rightarrow> uint \<Rightarrow> 'a cons_scheme \<Rightarrow> 'a cons_scheme res" where
  "panic msg lapicid sp s =
     (let s = s\<lparr>mycpu := (mycpu s)\<lparr>c_if := False\<rparr>, locking := False\<rparr> in
      bindr (cprintf (ascii ''lapicid %d: panic: '') [ArgInt lapicid] s) (\<lambda>s.
      bindr (cprintf msg [] s) (\<lambda>s.
      bindr (cprintf [10] [] s) (\<lambda>s.
      bindr (print_pcs (getcallerpcs (load32 (mem s)) sp) s) (\<lambda>s.
      Inr (s\<lparr>panicked := True\<rparr>))))))"

definition state_name :: "procstate \<Rightarrow> string" where
  "state_name st = (case st of UNUSED \<Rightarrow> ''unused'' | EMBRYO \<Rightarrow> ''embryo'' | SLEEPING \<Rightarrow> ''sleep ''
     | RUNNABLE \<Rightarrow> ''runble'' | RUNNING \<Rightarrow> ''run   '' | ZOMBIE \<Rightarrow> ''zombie'')"

text \<open>The frame pointer of a sleeping process is in its saved context, at offset 12.\<close>

definition procdump_line :: "nat \<Rightarrow> 'a cons_scheme \<Rightarrow> 'a cons_scheme res" where
  "procdump_line i s =
     (let p = procs s i in
      if p_state p = UNUSED then Inr s
      else
        bindr (cprintf (ascii ''%d %s %s'') [ArgInt (of_int (p_pid p)), ArgStr (Some (ascii (state_name (p_state p)))),
                 ArgStr (Some (cname 16 (p_name p)))] s) (\<lambda>s.
        bindr (if p_state p = SLEEPING
               then print_pcs (takeWhile (\<lambda>x. x \<noteq> 0) (getcallerpcs (load32 (mem s)) (load32 (mem s) (p_context p + 12) + 8))) s
               else Inr s) (\<lambda>s.
        cprintf [10] [] s)))"

primrec procdump_loop :: "nat \<Rightarrow> nat \<Rightarrow> 'a cons_scheme \<Rightarrow> 'a cons_scheme res" where
  "procdump_loop 0 i s = Inr s"
| "procdump_loop (Suc k) i s = bindr (procdump_line i s) (procdump_loop k (Suc i))"

definition procdump :: "'a cons_scheme \<Rightarrow> 'a cons_scheme res" where
  "procdump s = procdump_loop NPROC 0 s"

section \<open>Input\<close>

definition upd_input :: "(input \<Rightarrow> input) \<Rightarrow> 'a cons_scheme \<Rightarrow> 'a cons_scheme" where
  "upd_input f s = s\<lparr>inp := f (inp s)\<rparr>"

text \<open>Killing the line takes back at most the characters between the write and the edit index.\<close>

primrec kill_line :: "nat \<Rightarrow> 'a cons_scheme \<Rightarrow> 'a cons_scheme res" where
  "kill_line 0 s = Inr s"
| "kill_line (Suc k) s =
     (if in_e (inp s) \<noteq> in_w (inp s) \<and> in_buf (inp s) (unat (in_e (inp s) - 1) mod INPUT_BUF) \<noteq> 10
      then bindr (consputc BACKSPACE (upd_input (\<lambda>i. i\<lparr>in_e := in_e i - 1\<rparr>) s)) (kill_line k)
      else Inr s)"

text \<open>One character; the flag says whether the process listing is to be printed at the end.\<close>

definition consoleintr_char :: "int \<Rightarrow> bool \<times> 'a cons_scheme \<Rightarrow> (bool \<times> 'a cons_scheme) res" where
  "consoleintr_char c ds =
     (let (dump, s) = ds in
      if c = 16 then Inr (True, s)
      else if c = 21 then
        bindr (kill_line (unat (in_e (inp s) - in_w (inp s))) s) (\<lambda>s. Inr (dump, s))
      else if c = 8 \<or> c = 127 then
        if in_e (inp s) \<noteq> in_w (inp s)
        then bindr (consputc BACKSPACE (upd_input (\<lambda>i. i\<lparr>in_e := in_e i - 1\<rparr>) s)) (\<lambda>s. Inr (dump, s))
        else Inr (dump, s)
      else if c \<noteq> 0 \<and> in_e (inp s) - in_r (inp s) < of_nat INPUT_BUF then
        let c = (if c = 13 then 10 else c);
            s = upd_input (\<lambda>i. i\<lparr>in_buf := (in_buf i)(unat (in_e i) mod INPUT_BUF := of_int c), in_e := in_e i + 1\<rparr>) s in
        bindr (consputc c s) (\<lambda>s.
        if c = 10 \<or> c = 4 \<or> in_e (inp s) = in_r (inp s) + of_nat INPUT_BUF
        then Inr (dump, wakeup ChanInput (upd_input (\<lambda>i. i\<lparr>in_w := in_e i\<rparr>) s))
        else Inr (dump, s))
      else Inr (dump, s))"

primrec consoleintr_loop :: "int list \<Rightarrow> bool \<times> 'a cons_scheme \<Rightarrow> (bool \<times> 'a cons_scheme) res" where
  "consoleintr_loop [] ds = Inr ds"
| "consoleintr_loop (c # cs) ds = bindr (consoleintr_char c ds) (consoleintr_loop cs)"

definition consoleintr :: "int list \<Rightarrow> 'a cons_scheme \<Rightarrow> 'a cons_scheme res" where
  "consoleintr cs s = bindr (consoleintr_loop cs (False, s)) (\<lambda>(dump, s). if dump then procdump s else Inr s)"

text \<open>
  The copying loop of \<^verbatim>\<open>consoleread\<close>.  It stops when enough bytes are copied, at the end of a
  line or of the file, or because there is no more input; only in the last case it is not \<open>done\<close>, and
  goes on with the same loop after a sleep.
\<close>

primrec consoleread_loop :: "nat \<Rightarrow> bool \<Rightarrow> input \<Rightarrow> uchar list \<times> bool \<times> input" where
  "consoleread_loop 0 some i = ([], True, i)"
| "consoleread_loop (Suc n) some i =
     (if in_r i = in_w i then ([], False, i)
      else
        let c = in_buf i (unat (in_r i) mod INPUT_BUF); i' = i\<lparr>in_r := in_r i + 1\<rparr> in
        if c = 4 then ([], True, if some then i'\<lparr>in_r := in_r i' - 1\<rparr> else i')
        else if c = 10 then ([c], True, i')
        else let (cs, fin, i'') = consoleread_loop n True i' in (c # cs, fin, i''))"

definition consoleread :: "'a cons_scheme dev_read" where
  "consoleread ip n s =
     bindr (iunlock ip s) (\<lambda>s.
     let (cs, fin, i) = consoleread_loop (nat n) False (inp s); s = s\<lparr>inp := i\<rparr> in
     if fin then bindr (ilock ip s) (\<lambda>s. Inr (int (length cs), cs, s))
     else if p_killed (myproc s) then bindr (ilock ip s) (\<lambda>s. Inr (-1, cs, s))
     else Inl (Asleep ChanInput))"

definition consolewrite :: "'a cons_scheme dev_write" where
  "consolewrite ip buf s =
     bindr (iunlock ip s) (\<lambda>s.
     bindr (consputs (map uint buf) s) (\<lambda>s.
     bindr (ilock ip s) (\<lambda>s. Inr (int (length buf), s))))"

definition CONSOLE :: nat where [simp]: "CONSOLE = 1"

definition consoleinit :: "'a cons_scheme devsw \<Rightarrow> 'a cons_scheme \<Rightarrow> 'a cons_scheme devsw \<times> 'a cons_scheme" where
  "consoleinit devsw s = (devsw(CONSOLE := (Some consoleread, Some consolewrite)), s\<lparr>locking := True\<rparr>)"

section \<open>The serial port\<close>

text \<open>Its line status register (bit 0: a byte has arrived) and its data register.\<close>

definition uartgetc :: "uchar \<Rightarrow> uchar \<Rightarrow> 'a cons_scheme \<Rightarrow> int" where
  "uartgetc status data s = (if \<not> uart s then -1 else if status AND 1 = 0 then -1 else uint data)"

primrec uartputs :: "uchar list \<Rightarrow> 'a cons_scheme \<Rightarrow> 'a cons_scheme" where
  "uartputs [] s = s"
| "uartputs (c # cs) s = uartputs cs (uartputc (uint c) s)"

definition uartinit :: "uchar \<Rightarrow> 'a cons_scheme \<Rightarrow> 'a cons_scheme" where
  "uartinit status s =
     (if status = 0xFF then s else uartputs (ascii ''xv6...'' @ [10]) (s\<lparr>uart := True\<rparr>))"

text \<open>The handler takes the bytes that have arrived.\<close>

definition uartintr :: "uchar list \<Rightarrow> 'a cons_scheme \<Rightarrow> 'a cons_scheme res" where
  "uartintr data s = consoleintr (if uart s then map uint data else []) s"

section \<open>The keyboard\<close>

definition SHIFT :: uint where [simp]: "SHIFT = 1"
definition CTL :: uint where [simp]: "CTL = 2"
definition ALT :: uint where [simp]: "ALT = 4"
definition CAPSLOCK :: uint where [simp]: "CAPSLOCK = 8"
definition NUMLOCK :: uint where [simp]: "NUMLOCK = 16"
definition SCROLLLOCK :: uint where [simp]: "SCROLLLOCK = 32"
definition E0ESC :: uint where [simp]: "E0ESC = 64"

definition shiftcode :: "nat \<Rightarrow> uint" where
  "shiftcode k = (if k = 0x1D \<or> k = 0x9D then CTL else if k = 0x2A \<or> k = 0x36 then SHIFT
     else if k = 0x38 \<or> k = 0xB8 then ALT else 0)"

definition togglecode :: "nat \<Rightarrow> uint" where
  "togglecode k = (if k = 0x3A then CAPSLOCK else if k = 0x45 then NUMLOCK else if k = 0x46 then SCROLLLOCK else 0)"

text \<open>The entries the three maps share, above their initial rows.\<close>

definition keypad :: "(nat \<times> uint) list" where
  "keypad = [(0xC8, 0xE2), (0xD0, 0xE3), (0xC9, 0xE6), (0xD1, 0xE7), (0xCB, 0xE4), (0xCD, 0xE5), (0x97, 0xE0), (0xCF, 0xE1),
     (0xD2, 0xE8), (0xD3, 0xE9)]"

definition keymap :: "uint list \<Rightarrow> (nat \<times> uint) list \<Rightarrow> nat \<Rightarrow> uint" where
  "keymap rows extra k = (if k < length rows then rows ! k else case map_of extra k of Some c \<Rightarrow> c | None \<Rightarrow> 0)"

definition chars :: "string \<Rightarrow> uint list" where
  "chars cs = map of_char cs"

definition normalmap :: "nat \<Rightarrow> uint" where
  "normalmap = keymap
     ([0, 0x1B] @ chars ''1234567890-='' @ [8, 9] @
      chars ''qwertyuiop[]'' @ [10, 0] @ chars ''asdfghjkl;'' @ [39, 96, 0, 92] @ chars ''zxcvbnm,./'' @ [0, 42,
      0, 32, 0, 0, 0, 0, 0, 0,
      0, 0, 0, 0, 0, 0, 0] @ chars ''789-456+1230.'' @ [0, 0, 0, 0])
     ((0x9C, 10) # (0xB5, 47) # keypad)"

definition shiftmap :: "nat \<Rightarrow> uint" where
  "shiftmap = keymap
     ([0, 0x1B] @ chars ''!@#$%^&*()_+'' @ [8, 9] @
      chars ''QWERTYUIOP{}'' @ [10, 0] @ chars ''ASDFGHJKL:'' @ [34, 126, 0, 124] @ chars ''ZXCVBNM<>?'' @ [0, 42,
      0, 32, 0, 0, 0, 0, 0, 0,
      0, 0, 0, 0, 0, 0, 0] @ chars ''789-456+1230.'' @ [0, 0, 0, 0])
     ((0x9C, 10) # (0xB5, 47) # keypad)"

definition ctl :: "string \<Rightarrow> uint list" where
  "ctl cs = map (\<lambda>c. of_char c - 64) cs"

definition ctlmap :: "nat \<Rightarrow> uint" where
  "ctlmap = keymap
     ([0, 0, 0, 0, 0, 0, 0, 0, 0, 0, 0, 0, 0, 0, 0, 0] @
      ctl ''QWERTYUIOP'' @ [0, 0, 13, 0] @ ctl ''ASDFGHJKL'' @ [0, 0, 0, 0, 28] @ ctl ''ZXCVBNM'' @ [0, 0, - 17 AND 0xFF, 0, 0])
     ((0x9C, 13) # (0xB5, - 17 AND 0xFF) # keypad)"

text \<open>One read of the controller: the new shift state and the character, 0 for none, -1 when there is no data.\<close>

definition kbdgetc :: "uchar \<Rightarrow> uchar \<Rightarrow> uint \<Rightarrow> int \<times> uint" where
  "kbdgetc st code shift =
     (if st AND 1 = 0 then (-1, shift)
      else let data = ucast code :: uint in
      if data = 0xE0 then (0, shift OR E0ESC)
      else if data AND 0x80 \<noteq> 0 then
        let data = (if shift AND E0ESC \<noteq> 0 then data else data AND 0x7F)
        in (0, shift AND NOT (shiftcode (unat data) OR E0ESC))
      else
        let (data, shift) = (if shift AND E0ESC \<noteq> 0 then (data OR 0x80, shift AND NOT E0ESC) else (data, shift));
            shift = shift OR shiftcode (unat data);
            shift = shift XOR togglecode (unat data);
            m = (let k = shift AND (CTL OR SHIFT) in if k = 0 then normalmap else if k = 1 then shiftmap else ctlmap);
            c = m (unat data);
            c = (if shift AND CAPSLOCK \<noteq> 0 then
                   if 97 \<le> c \<and> c \<le> 122 then c - 32 else if 65 \<le> c \<and> c \<le> 90 then c + 32 else c
                 else c)
        in (uint c, shift))"

text \<open>The handler reads scan codes until the controller has no more.\<close>

primrec kbd_chars :: "uchar list \<Rightarrow> uint \<Rightarrow> int list \<times> uint" where
  "kbd_chars [] shift = ([], shift)"
| "kbd_chars (k # ks) shift =
     (let (c, shift) = kbdgetc 1 k shift; (cs, shift) = kbd_chars ks shift in (c # cs, shift))"

definition kbdintr :: "uchar list \<Rightarrow> 'a cons_scheme \<Rightarrow> 'a cons_scheme res" where
  "kbdintr codes s = (let (cs, sh) = kbd_chars codes (kshift s) in consoleintr cs (s\<lparr>kshift := sh\<rparr>))"

section \<open>The screen\<close>

text \<open>The cursor is on one of the first 24 lines.\<close>

definition screen_ok :: "'a cons_scheme \<Rightarrow> bool" where
  "screen_ok s \<longleftrightarrow> 0 \<le> crt_pos s \<and> crt_pos s < 24 * 80"

text \<open>The two halves of \<^verbatim>\<open>cgaputc\<close>: moving the cursor, and scrolling.\<close>

lemma cursor_moves:
  fixes pos :: int
  assumes "0 \<le> pos" "pos < 1920"
  shows "0 \<le> pos + (80 - pos mod 80)" "pos + (80 - pos mod 80) \<le> 1920"
proof -
  have "pos + (80 - pos mod 80) = (pos div 80 + 1) * 80" by (simp add: algebra_simps minus_mod_eq_mult_div[symmetric])
  moreover have "0 \<le> pos div 80" "pos div 80 \<le> 23" using assms by auto
  ultimately show "0 \<le> pos + (80 - pos mod 80)" "pos + (80 - pos mod 80) \<le> 1920" by auto
qed

lemma cgaputc_ok:
  assumes "screen_ok s"
  shows "\<exists>m p. cgaputc c s = Inr (s\<lparr>crt_pos := p, crt := m\<rparr>) \<and> 0 \<le> p \<and> p < 24 * 80 \<and> (\<forall>i. 25 * 80 \<le> i \<longrightarrow> m i = crt s i)"
proof -
  have pos: "0 \<le> crt_pos s" "crt_pos s < 1920" using assms by (simp_all add: screen_ok_def)
  define q m where "q = (if c = 10 then crt_pos s + (80 - crt_pos s mod 80) else if c = BACKSPACE then if crt_pos s > 0 then crt_pos s - 1 else crt_pos s
      else crt_pos s + 1)"
    and "m = (if c = 10 \<or> c = BACKSPACE then crt s else (crt s)(nat (crt_pos s) := of_int c AND 0xff OR 0x0700))"
  have q: "0 \<le> q" "q \<le> 1920" using pos cursor_moves[OF pos] by (auto simp: q_def)
  have m: "m i = crt s i" if "2000 \<le> i" for i using that pos by (auto simp: m_def)
  define m' p where "m' = (if q div 80 \<ge> 24 then (\<lambda>i. if nat (q - 80) \<le> i \<and> i < 24 * 80 then 0 else if i < 23 * 80 then m (i + 80) else m i) else m)"
    and "p = (if q div 80 \<ge> 24 then q - 80 else q)"
  have eq: "cgaputc c s = Inr (s\<lparr>crt_pos := p, crt := m'(nat p := 0x20 OR 0x0700)\<rparr>)"
  proof -
    have 1: "(if c = 10 then (crt_pos s + (80 - crt_pos s mod 80), s) else if c = BACKSPACE then (if crt_pos s > 0 then crt_pos s - 1 else crt_pos s, s)
        else (crt_pos s + 1, s\<lparr>crt := (crt s)(nat (crt_pos s) := of_int c AND 0xff OR 0x0700)\<rparr>)) = (q, s\<lparr>crt := m\<rparr>)"
      by (simp add: q_def m_def)
    show ?thesis using q unfolding cgaputc_def Let_def 1 m'_def p_def by (simp cong: if_cong)
  qed
  have p: "0 \<le> p" "p < 1920" using q by (auto simp: p_def)
  have "m' i = crt s i" if "2000 \<le> i" for i using that m by (auto simp: m'_def)
  then have "\<forall>i. 2000 \<le> i \<longrightarrow> (m'(nat p := 0x20 OR 0x0700)) i = crt s i" using p by auto
  then show ?thesis using eq p by (intro exI[of _ "m'(nat p := 0x20 OR 0x0700)"] exI[of _ p]) simp
qed

text \<open>The bytes that go to the serial port for a character.\<close>

definition serial :: "int \<Rightarrow> uchar list" where
  "serial c = (if c = BACKSPACE then [8, 32, 8] else [of_int c])"

lemma consputc_ok:
  assumes "screen_ok s" "\<not> panicked s"
  shows "\<exists>u m p. consputc c s = Inr (s\<lparr>uart_out := u, crt_pos := p, crt := m\<rparr>) \<and> 0 \<le> p \<and> p < 24 * 80 \<and>
    (\<forall>i. 25 * 80 \<le> i \<longrightarrow> m i = crt s i) \<and> u = uart_out s @ (if uart s then serial c else [])"
proof -
  define t where "t = (if c = BACKSPACE then uartputc 8 (uartputc 32 (uartputc 8 s)) else uartputc c s)"
  have t: "t = s\<lparr>uart_out := uart_out s @ (if uart s then serial c else [])\<rparr>"
    by (simp add: t_def uartputc_def serial_def)
  have "screen_ok t" using assms(1) by (simp add: t screen_ok_def)
  then obtain m p where "cgaputc c t = Inr (t\<lparr>crt_pos := p, crt := m\<rparr>)" "0 \<le> p" "p < 24 * 80" "\<forall>i. 25 * 80 \<le> i \<longrightarrow> m i = crt t i"
    using cgaputc_ok by blast
  then show ?thesis using assms(2) unfolding consputc_def t_def[symmetric] Let_def by (auto simp: t)
qed

text \<open>Console output never leaves the screen: when the cursor is on the first 24 lines, writing any
  characters returns, leaves the cursor on those lines and writes no cell beyond the 25 lines of
  video memory.  The serial port gets the same characters, a backspace as three bytes.\<close>

theorem console_output_bounds:
  assumes "screen_ok s" "\<not> panicked s"
  shows "\<exists>s'. consputs cs s = Inr s' \<and> screen_ok s' \<and> \<not> panicked s' \<and> (\<forall>i. 25 * 80 \<le> i \<longrightarrow> crt s' i = crt s i) \<and>
    uart_out s' = uart_out s @ (if uart s then concat (map serial cs) else []) \<and> inp s' = inp s \<and> procs s' = procs s"
  using assms
proof (induction cs arbitrary: s)
  case (Cons c cs)
  obtain u m p where 1: "consputc c s = Inr (s\<lparr>uart_out := u, crt_pos := p, crt := m\<rparr>)" "0 \<le> p" "p < 24 * 80"
    "\<forall>i. 25 * 80 \<le> i \<longrightarrow> m i = crt s i" "u = uart_out s @ (if uart s then serial c else [])"
    using consputc_ok[OF Cons.prems] by blast
  let ?t = "s\<lparr>uart_out := u, crt_pos := p, crt := m\<rparr>"
  have "screen_ok ?t" "\<not> panicked ?t" using 1(2,3) Cons.prems(2) by (simp_all add: screen_ok_def)
  from Cons.IH[OF this] show ?case using 1 by auto
qed simp

section \<open>Line editing\<close>

text \<open>What has been typed: the part that readers may have, and the line that is being edited.\<close>

definition typed_ready :: "input \<Rightarrow> uchar list" where
  "typed_ready i = ring INPUT_BUF (in_buf i) (in_r i) (in_w i)"

definition editing :: "input \<Rightarrow> uchar list" where
  "editing i = ring INPUT_BUF (in_buf i) (in_w i) (in_e i)"

definition input_ok :: "input \<Rightarrow> bool" where
  "input_ok i \<longleftrightarrow> length (typed_ready i) + length (editing i) \<le> INPUT_BUF \<and> 10 \<notin> set (editing i)"

text \<open>The line editor the code implements, on lists.\<close>

definition edit :: "int \<Rightarrow> uchar list \<times> uchar list \<Rightarrow> uchar list \<times> uchar list" where
  "edit c = (\<lambda>(com, ed).
     if c = 16 then (com, ed)
     else if c = 21 then (com, [])
     else if c = 8 \<or> c = 127 then (com, butlast ed)
     else if c \<noteq> 0 \<and> length com + length ed < INPUT_BUF then
       let c = (if c = 13 then 10 else c); ed = ed @ [of_int c] in
       if c = 10 \<or> c = 4 \<or> length com + length ed = INPUT_BUF then (com @ ed, []) else (com, ed)
     else (com, ed))"

lemma length_typed [simp]: "length (typed_ready i) = unat (in_w i - in_r i)" "length (editing i) = unat (in_e i - in_w i)"
  by (simp_all add: typed_ready_def editing_def)

lemma input_sum:
  assumes "input_ok i"
  shows "unat (in_e i - in_r i) = unat (in_w i - in_r i) + unat (in_e i - in_w i)"
  using assms unat_add_offset[of "in_w i - in_r i" "unat (in_e i - in_w i)"] by (simp add: input_ok_def algebra_simps)

text \<open>One character taken back.\<close>

lemma take_back:
  assumes "input_ok i" "in_e i \<noteq> in_w i"
  shows "input_ok (i\<lparr>in_e := in_e i - 1\<rparr>)" "editing (i\<lparr>in_e := in_e i - 1\<rparr>) = butlast (editing i)"
    "typed_ready (i\<lparr>in_e := in_e i - 1\<rparr>) = typed_ready i"
proof -
  show e: "editing (i\<lparr>in_e := in_e i - 1\<rparr>) = butlast (editing i)"
    using ring_butlast[of "in_w i" "in_e i"] assms(2) by (simp add: editing_def)
  show c: "typed_ready (i\<lparr>in_e := in_e i - 1\<rparr>) = typed_ready i" by (simp add: typed_ready_def)
  show "input_ok (i\<lparr>in_e := in_e i - 1\<rparr>)"
    using assms(1) unfolding input_ok_def e c by (auto dest: in_set_butlastD simp del: length_typed)
qed

text \<open>The console is in order: the screen, and the input buffer.\<close>

definition cons_ok :: "'a cons_scheme \<Rightarrow> bool" where
  "cons_ok s \<longleftrightarrow> screen_ok s \<and> \<not> panicked s \<and> input_ok (inp s)"

lemma consputc_cons:
  assumes "screen_ok s" "\<not> panicked s"
  obtains s' where "consputc c s = Inr s'" "screen_ok s'" "\<not> panicked s'" "inp s' = inp s"
  using consputc_ok[OF assms, of c] that assms(2) by (auto simp: screen_ok_def)

lemma kill_line_ok:
  assumes "cons_ok s" "k = unat (in_e (inp s) - in_w (inp s))"
  shows "\<exists>s'. kill_line k s = Inr s' \<and> cons_ok s' \<and> typed_ready (inp s') = typed_ready (inp s) \<and> editing (inp s') = []"
  using assms
proof (induction k arbitrary: s)
  case 0
  then have "in_e (inp s) = in_w (inp s)" by (simp add: unat_eq_0)
  then show ?case using 0 by (simp add: editing_def ring_empty_iff)
next
  case (Suc k)
  let ?i = "inp s"
  have ne: "in_e ?i \<noteq> in_w ?i" using Suc.prems(2) by auto
  have ok: "input_ok ?i" "screen_ok s" "\<not> panicked s" using Suc.prems(1) by (simp_all add: cons_ok_def)
  have "in_buf ?i (unat (in_e ?i - 1) mod INPUT_BUF) = last (editing ?i)" "editing ?i \<noteq> []"
    using ring_last[of INPUT_BUF "in_w ?i" "in_e ?i" "in_buf ?i"] ne by (simp_all add: editing_def ring_empty_iff)
  then have l: "in_buf ?i (unat (in_e ?i - 1) mod INPUT_BUF) \<noteq> 10" using ok(1) last_in_set[of "editing ?i"] unfolding input_ok_def by metis
  let ?t = "upd_input (\<lambda>i. i\<lparr>in_e := in_e i - 1\<rparr>) s"
  obtain s1 where s1: "consputc BACKSPACE ?t = Inr s1" "screen_ok s1" "\<not> panicked s1" "inp s1 = inp ?t"
    by (rule consputc_cons[of ?t BACKSPACE]) (use ok in \<open>simp_all add: upd_input_def screen_ok_def\<close>)
  note tb = take_back[OF ok(1) ne]
  have i1: "inp s1 = ?i\<lparr>in_e := in_e ?i - 1\<rparr>" using s1(4) by (simp add: upd_input_def)
  have "cons_ok s1" using s1 tb by (simp add: cons_ok_def i1)
  moreover have "k = unat (in_e (inp s1) - in_w (inp s1))"
    using Suc.prems(2) ne unat_minus_one[of "in_e ?i - in_w ?i"] by (simp add: i1 algebra_simps)
  ultimately obtain s' where "kill_line k s1 = Inr s'" "cons_ok s'" "typed_ready (inp s') = typed_ready (inp s1)" "editing (inp s') = []"
    using Suc.IH by blast
  then show ?case using s1(1) ne l tb(3) by (simp add: i1)
qed

text \<open>One character typed, and the line committed.\<close>

lemma type_char:
  fixes i :: input and c :: uchar
  assumes ok: "input_ok i" and room: "length (typed_ready i) + length (editing i) < INPUT_BUF"
  defines "j \<equiv> i\<lparr>in_buf := (in_buf i)(unat (in_e i) mod INPUT_BUF := c), in_e := in_e i + 1\<rparr>"
  shows "typed_ready j = typed_ready i" "editing j = editing i @ [c]"
    "typed_ready (j\<lparr>in_w := in_e j\<rparr>) = typed_ready i @ editing i @ [c]" "editing (j\<lparr>in_w := in_e j\<rparr>) = []"
    "in_e j = in_r j + of_nat INPUT_BUF \<longleftrightarrow> length (typed_ready i) + length (editing i @ [c]) = INPUT_BUF"
proof -
  note sum = input_sum[OF ok]
  have r: "unat (in_e i - in_r i) < 128" "unat (in_e i - in_w i) < 128" using room sum by simp_all
  show c: "typed_ready j = typed_ready i"
    using ring_upd_other[of INPUT_BUF "in_e i" "in_r i" "in_w i"] r sum by (simp add: typed_ready_def j_def)
  show e: "editing j = editing i @ [c]"
    using ring_snoc[of INPUT_BUF "in_e i" "in_w i"] r by (simp add: editing_def j_def)
  have "unat (in_e j - in_w j) = unat (in_e i - in_w i) + 1" using r by (simp add: j_def unat_Suc_diff)
  then have "ring INPUT_BUF (in_buf j) (in_r j) (in_e j) = typed_ready j @ editing j"
    using ring_append[of INPUT_BUF "in_w j" "in_r j" "in_e j"] room by (simp add: typed_ready_def editing_def j_def)
  then show "typed_ready (j\<lparr>in_w := in_e j\<rparr>) = typed_ready i @ editing i @ [c]"
    unfolding c e by (simp add: typed_ready_def)
  show "editing (j\<lparr>in_w := in_e j\<rparr>) = []" by (simp add: editing_def ring_empty_iff)
  have "in_e j = in_r j + of_nat INPUT_BUF \<longleftrightarrow> in_e i + 1 - in_r i = 128"
    by (auto simp: j_def algebra_simps)
  also have "\<dots> \<longleftrightarrow> unat (in_e i + 1 - in_r i) = 128" by (simp add: word_unat_eq_iff)
  also have "\<dots> \<longleftrightarrow> length (typed_ready i) + length (editing i @ [c]) = INPUT_BUF" using r sum by (simp add: unat_Suc_diff)
  finally show "in_e j = in_r j + of_nat INPUT_BUF \<longleftrightarrow> length (typed_ready i) + length (editing i @ [c]) = INPUT_BUF" .
qed

lemma input_room:
  assumes "input_ok i"
  shows "in_e i - in_r i < of_nat INPUT_BUF \<longleftrightarrow> length (typed_ready i) + length (editing i) < INPUT_BUF"
  using input_sum[OF assms] by (simp add: word_less_nat_alt)

lemma byte_eq: "0 \<le> c \<Longrightarrow> c < 256 \<Longrightarrow> 0 \<le> d \<Longrightarrow> d < 256 \<Longrightarrow> (of_int c :: uchar) = of_int d \<longleftrightarrow> c = d"
  by (auto simp: word_of_int_eq_iff take_bit_eq_mod)

lemma consoleintr_char_ok:
  assumes ok: "cons_ok s" and c: "0 \<le> c" "c < 256"
  shows "\<exists>d s'. consoleintr_char c (dump, s) = Inr (d, s') \<and> cons_ok s' \<and>
    (typed_ready (inp s'), editing (inp s')) = edit c (typed_ready (inp s), editing (inp s))"
proof -
  let ?i = "inp s"
  have iok: "input_ok ?i" "screen_ok s" "\<not> panicked s" using ok by (simp_all add: cons_ok_def)
  consider (dump) "c = 16" | (kill) "c = 21" | (bs) "c = 8 \<or> c = 127"
    | (typed) "c \<notin> {16, 21, 8, 127, 0}" "length (typed_ready ?i) + length (editing ?i) < INPUT_BUF"
    | (none) "c \<notin> {16, 21, 8, 127}" "c = 0 \<or> \<not> length (typed_ready ?i) + length (editing ?i) < INPUT_BUF"
    by auto
  then show ?thesis
  proof cases
    case dump
    then have "consoleintr_char c (dump, s) = Inr (True, s)" by (simp add: consoleintr_char_def)
    then show ?thesis using ok dump by (auto simp: edit_def)
  next
    case kill
    then show ?thesis using kill_line_ok[OF ok refl] by (auto simp: consoleintr_char_def edit_def)
  next
    case bs
    show ?thesis
    proof (cases "in_e ?i = in_w ?i")
      case True
      then have "editing ?i = []" by (simp add: editing_def ring_empty_iff)
      then show ?thesis using True bs ok by (auto simp: consoleintr_char_def edit_def)
    next
      case False
      let ?t = "upd_input (\<lambda>i. i\<lparr>in_e := in_e i - 1\<rparr>) s"
      obtain s1 where s1: "consputc BACKSPACE ?t = Inr s1" "screen_ok s1" "\<not> panicked s1" "inp s1 = inp ?t"
        by (rule consputc_cons[of ?t BACKSPACE]) (use iok in \<open>simp_all add: upd_input_def screen_ok_def\<close>)
      have i1: "inp s1 = ?i\<lparr>in_e := in_e ?i - 1\<rparr>" using s1(4) by (simp add: upd_input_def)
      have "consoleintr_char c (dump, s) = Inr (dump, s1)" using bs False s1(1) by (auto simp: consoleintr_char_def)
      moreover have "cons_ok s1" using s1 take_back(1)[OF iok(1) False] by (simp add: cons_ok_def i1)
      ultimately show ?thesis using take_back(2,3)[OF iok(1) False] bs by (auto simp: i1 edit_def)
    qed
  next
    case typed
    let ?c = "if c = 13 then 10 else c"
    let ?j = "?i\<lparr>in_buf := (in_buf ?i)(unat (in_e ?i) mod INPUT_BUF := of_int ?c), in_e := in_e ?i + 1\<rparr>"
    let ?t = "upd_input (\<lambda>i. i\<lparr>in_buf := (in_buf i)(unat (in_e i) mod INPUT_BUF := of_int ?c), in_e := in_e i + 1\<rparr>) s"
    note tc = type_char[OF iok(1) typed(2), of "of_int ?c"]
    obtain s1 where s1: "consputc ?c ?t = Inr s1" "screen_ok s1" "\<not> panicked s1" "inp s1 = inp ?t"
      by (rule consputc_cons[of ?t ?c]) (use iok in \<open>simp_all add: upd_input_def screen_ok_def\<close>)
    have i1: "inp s1 = ?j" using s1(4) by (simp add: upd_input_def)
    have nl: "(of_int ?c :: uchar) = 10 \<longleftrightarrow> ?c = 10" using byte_eq[of ?c 10] c by auto
    let ?done = "?c = 10 \<or> ?c = 4 \<or> in_e ?j = in_r ?j + of_nat INPUT_BUF"
    have step: "consoleintr_char c (dump, s) =
        (if ?done then Inr (dump, wakeup ChanInput (upd_input (\<lambda>i. i\<lparr>in_w := in_e i\<rparr>) s1)) else Inr (dump, s1))"
      using typed input_room[OF iok(1)] s1(1) unfolding consoleintr_char_def Let_def i1[symmetric] by simp
    show ?thesis
    proof (cases ?done)
      case True
      let ?s' = "wakeup ChanInput (upd_input (\<lambda>i. i\<lparr>in_w := in_e i\<rparr>) s1)"
      have i': "inp ?s' = ?j\<lparr>in_w := in_e ?j\<rparr>" by (simp add: wakeup_eq upd_input_def i1)
      have "input_ok (inp ?s')"
        using tc(3,4) typed(2) unfolding i' input_ok_def by (simp del: length_typed)
      then have "cons_ok ?s'" using s1(2,3) by (simp add: cons_ok_def wakeup_eq upd_input_def screen_ok_def)
      moreover have "(typed_ready (inp ?s'), editing (inp ?s')) = edit c (typed_ready ?i, editing ?i)"
        using True tc(5) typed unfolding i' tc(3,4) edit_def by (simp del: length_typed)
      ultimately show ?thesis using step True by auto
    next
      case False
      have "input_ok (inp s1)"
        using tc(1,2) typed(2) iok(1) False nl unfolding i1 input_ok_def by (simp del: length_typed)
      then have "cons_ok s1" using s1(2,3) by (simp add: cons_ok_def)
      moreover have "(typed_ready (inp s1), editing (inp s1)) = edit c (typed_ready ?i, editing ?i)"
        using False tc(5) typed unfolding i1 tc(1,2) edit_def by (simp del: length_typed)
      ultimately show ?thesis using step False by auto
    qed
  next
    case none
    then have "consoleintr_char c (dump, s) = Inr (dump, s)"
      using input_room[OF iok(1)] unfolding consoleintr_char_def Let_def by auto
    then show ?thesis using none ok by (auto simp: edit_def simp del: length_typed)
  qed
qed

text \<open>C17: The console's input buffer implements a line editor.  Whatever is typed, the bytes readers may have and
  the line being edited are those of the editor on lists: a character is appended, backspace removes
  the last one, \<open>^U\<close> the whole line, and a line is handed over when it ends or when the buffer is full.
  The handler always returns.\<close>

theorem console_line_editor:
  assumes "cons_ok s" "\<forall>c\<in>set cs. 0 \<le> c \<and> c < 256"
  shows "\<exists>d s'. consoleintr_loop cs (dump, s) = Inr (d, s') \<and> cons_ok s' \<and>
    (typed_ready (inp s'), editing (inp s')) = fold edit cs (typed_ready (inp s), editing (inp s))"
  using assms
proof (induction cs arbitrary: s dump)
  case (Cons c cs)
  then obtain d s1 where 1: "consoleintr_char c (dump, s) = Inr (d, s1)" "cons_ok s1"
    "(typed_ready (inp s1), editing (inp s1)) = edit c (typed_ready (inp s), editing (inp s))"
    using consoleintr_char_ok[of s c dump] by auto
  then obtain d' s2 where 2: "consoleintr_loop cs (d, s1) = Inr (d', s2)" "cons_ok s2"
    "(typed_ready (inp s2), editing (inp s2)) = fold edit cs (typed_ready (inp s1), editing (inp s1))"
    using Cons.IH[of s1 d] Cons.prems by auto
  then show ?case using 1 by simp
qed simp

text \<open>Typing "lx", backspace, "s" and return gives a reader the line "ls".\<close>

definition input0 :: input where
  "input0 = \<lparr>in_buf = (\<lambda>_. 0), in_r = 0, in_w = 0, in_e = 0\<rparr>"

definition cold_cons :: cons where
  "cold_cons = ftable.extend one_page_proc \<lparr>ticks = 0, first = False, locking = True, panicked = False, uart = False, uart_out = [],
     crt = (\<lambda>_. 0), crt_pos = 0, inp = input0, kshift = 0\<rparr>"

lemma cold_cons_ok: "cons_ok cold_cons" "inp cold_cons = input0"
  by (simp_all add: cons_ok_def cold_cons_def ftable.defs screen_ok_def input_ok_def input0_def editing_def ring_def)

theorem console_output_bounds_witness:
  "\<exists>s'. consputs [104, 10] cold_cons = Inr s' \<and> screen_ok s'"
  using console_output_bounds[of cold_cons "[104, 10]"] cold_cons_ok(1) by (auto simp: cons_ok_def)

theorem console_line_editor_witness:
  "\<exists>d s'. consoleintr_loop [108, 120, 8, 115, 13] (False, cold_cons) = Inr (d, s') \<and> typed_ready (inp s') = [108, 115, 10]"
proof -
  have e: "typed_ready input0 = []" "editing input0 = []" by (simp_all add: typed_ready_def editing_def ring_def input0_def)
  have "fold edit [108, 120, 8, 115, 13] ([], []) = ([108, 115, 10], [])" by (simp add: edit_def)
  then show ?thesis
    using console_line_editor[OF cold_cons_ok(1), of "[108, 120, 8, 115, 13]" False] by (auto simp: cold_cons_ok(2) e)
qed

section \<open>Reading a line\<close>

text \<open>The reader on lists: up to \<open>n\<close> bytes, to the end of the line or to \<open>^D\<close>, which is left for the next
  read when something has been read.\<close>

fun read_line :: "nat \<Rightarrow> bool \<Rightarrow> uchar list \<Rightarrow> uchar list \<times> bool \<times> uchar list" where
  "read_line 0 some com = ([], True, com)"
| "read_line (Suc n) some [] = ([], False, [])"
| "read_line (Suc n) some (c # com) =
     (if c = 4 then ([], True, if some then c # com else com)
      else if c = 10 then ([c], True, com)
      else let (cs, fin, rst) = read_line n True com in (c # cs, fin, rst))"

text \<open>C18: \<^verbatim>\<open>consoleread\<close> takes from the input buffer what the reader on lists takes from the typed bytes, and
  leaves the rest; the line being edited is not touched.\<close>

theorem consoleread_refines:
  assumes "input_ok i"
  shows "case consoleread_loop n some i of (cs, fin, j) \<Rightarrow>
    (cs, fin, typed_ready j) = read_line n some (typed_ready i) \<and> editing j = editing i \<and> input_ok j"
  using assms
proof (induction n arbitrary: some i)
  case (Suc n)
  show ?case
  proof (cases "in_r i = in_w i")
    case True
    then have "typed_ready i = []" by (simp add: typed_ready_def ring_empty_iff)
    then show ?thesis using True Suc.prems by simp
  next
    case False
    let ?c = "in_buf i (unat (in_r i) mod INPUT_BUF)"
    let ?j = "i\<lparr>in_r := in_r i + 1\<rparr>"
    have com: "typed_ready i = ?c # typed_ready ?j"
      using ring_Cons[of INPUT_BUF "in_r i" "in_w i" "in_buf i"] False by (simp add: typed_ready_def)
    then have "length (typed_ready i) = Suc (length (typed_ready ?j))" by (metis length_Cons)
    then have ok: "input_ok ?j" using Suc.prems by (simp add: input_ok_def editing_def)
    have undo: "?j\<lparr>in_r := in_r ?j - 1\<rparr> = i" by simp
    have e: "editing ?j = editing i" by (simp add: editing_def)
    have rl: "read_line (Suc n) some (typed_ready i) = read_line (Suc n) some (?c # typed_ready ?j)" using com by simp
    show ?thesis
      using False Suc.IH[OF ok, of True] Suc.prems ok e com unfolding rl
      by (auto simp: Let_def undo split: prod.splits)
  qed
qed simp

theorem consoleread_refines_witness:
  "fst (consoleread_loop 5 False (input0\<lparr>in_buf := cstr [97, 10], in_w := 2, in_e := 2\<rparr>)) = [97, 10]"
proof -
  let ?i = "input0\<lparr>in_buf := cstr [97, 10], in_w := 2, in_e := 2\<rparr>"
  have t: "typed_ready ?i = [97, 10]" "editing ?i = []"
    by (simp_all add: typed_ready_def editing_def ring_def input0_def cstr_def upt_rec)
  then have ok: "input_ok ?i" using length_typed(1)[of ?i] by (simp add: input_ok_def)
  have "read_line (Suc (Suc k)) False [97, 10] = ([97, 10], True, [])" for k by simp
  from this[of 3] have "read_line 5 False [97, 10] = ([97, 10], True, [])" by simp
  then show ?thesis using consoleread_refines[OF ok, of 5 False] by (auto simp: t split: prod.splits)
qed

end
