(* ===== verification/Trap.thy ===== *)
theory Trap
  imports Console
begin

text \<open>
  Traps and interrupts, \<^verbatim>\<open>trap.c\<close>.  The handler gets the trap frame and what the devices have to offer,
  and yields the frame that is restored on return.  A handler that gives up the CPU stops at
  the switch; \<open>trap_resumed\<close> is what it does when the process runs again.
\<close>

section \<open>The interrupt descriptor table\<close>

record gatedesc =
  g_off_15_0 :: "16 word"
  g_cs :: "16 word"
  g_args :: "5 word"
  g_rsv1 :: "3 word"
  g_type :: "4 word"
  g_s :: "1 word"
  g_dpl :: "2 word"
  g_p :: "1 word"
  g_off_31_16 :: "16 word"

definition STS_IG32 :: "4 word" where [simp]: "STS_IG32 = 0xE"
definition STS_TG32 :: "4 word" where [simp]: "STS_TG32 = 0xF"

definition SETGATE :: "bool \<Rightarrow> uint \<Rightarrow> uint \<Rightarrow> uint \<Rightarrow> gatedesc" where
  "SETGATE istrap sel off d =
     \<lparr>g_off_15_0 = ucast (off AND 0xffff), g_cs = ucast sel, g_args = 0, g_rsv1 = 0,
      g_type = (if istrap then STS_TG32 else STS_IG32), g_s = 0, g_dpl = ucast d, g_p = 1, g_off_31_16 = ucast (drop_bit 16 off)\<rparr>"

definition T_SYSCALL :: uint where [simp]: "T_SYSCALL = 64"
definition T_IRQ0 :: uint where [simp]: "T_IRQ0 = 32"
definition IRQ_TIMER :: uint where [simp]: "IRQ_TIMER = 0"
definition IRQ_KBD :: uint where [simp]: "IRQ_KBD = 1"
definition IRQ_COM1 :: uint where [simp]: "IRQ_COM1 = 4"
definition IRQ_IDE :: uint where [simp]: "IRQ_IDE = 14"
definition IRQ_SPURIOUS :: uint where [simp]: "IRQ_SPURIOUS = 31"

text \<open>The addresses of the 256 entry points come from the generated \<^verbatim>\<open>vectors.S\<close>.\<close>

definition tvinit :: "(nat \<Rightarrow> uint) \<Rightarrow> nat \<Rightarrow> gatedesc" where
  "tvinit vectors =
     (\<lambda>i. SETGATE False (push_bit 3 SEG_KCODE) (vectors i) 0)
       (unat T_SYSCALL := SETGATE True (push_bit 3 SEG_KCODE) (vectors (unat T_SYSCALL)) DPL_USER)"

section \<open>The handler\<close>

text \<open>What the outside world contributes: the CPU's number, the fault address, the clock chip, the scan codes
  and the bytes that have arrived.\<close>

record world =
  w_cpuid :: nat
  w_cr2 :: uint
  w_now :: rtcdate
  w_codes :: "uchar list"
  w_bytes :: "uchar list"

datatype ending = Return | Exited | Yielded

definition user_mode :: "trapframe \<Rightarrow> bool" where
  "user_mode tf \<longleftrightarrow> tf_cs tf AND 3 = 3"

definition has_proc :: "'a ptable_scheme \<Rightarrow> bool" where
  "has_proc s \<longleftrightarrow> c_proc (mycpu s) \<noteq> None"

definition trap_exit :: "trapframe \<Rightarrow> 'a ftable_scheme \<Rightarrow> (trapframe \<times> ending \<times> 'a ftable_scheme) res" where
  "trap_exit tf s = bindr (exit s) (\<lambda>s. Inr (tf, Exited, s))"

definition trap_resumed :: "trapframe \<Rightarrow> 'a ftable_scheme \<Rightarrow> (trapframe \<times> ending \<times> 'a ftable_scheme) res" where
  "trap_resumed tf s =
     (if has_proc s \<and> p_killed (myproc s) \<and> user_mode tf then trap_exit tf s else Inr (tf, Return, s))"

definition trap_tail :: "trapframe \<Rightarrow> 'a ftable_scheme \<Rightarrow> (trapframe \<times> ending \<times> 'a ftable_scheme) res" where
  "trap_tail tf s =
     (if has_proc s \<and> p_killed (myproc s) \<and> user_mode tf then trap_exit tf s
      else if has_proc s \<and> p_state (myproc s) = RUNNING \<and> tf_trapno tf = T_IRQ0 + IRQ_TIMER
      then Inr (tf, Yielded, upd_proc (cur s) (\<lambda>p. p\<lparr>p_state := RUNNABLE\<rparr>) s)
      else trap_resumed tf s)"

definition trap_timer :: "nat \<Rightarrow> trapframe \<Rightarrow> 'a kern_scheme \<Rightarrow> (trapframe \<times> 'a kern_scheme) res" where
  "trap_timer cpu tf s =
     (let s = (if cpu = 0 then wakeup ChanTicks (s\<lparr>ticks := ticks s + 1\<rparr>) else s) in
      if has_proc s \<and> user_mode tf then
        let s = upd_proc (cur s) (\<lambda>p. p\<lparr>p_tick_counts := p_tick_counts p + 1\<rparr>) s in
        if p_tick_counts (myproc s) = p_alarmticks (myproc s) then
          let sp = tf_esp tf - 4 in
          bindr (user_write (word_bytes (tf_eip tf)) sp s) (\<lambda>s.
          Inr (tf\<lparr>tf_esp := sp, tf_eip := p_alarmhandler (myproc s)\<rparr>,
               upd_proc (cur s) (\<lambda>p. p\<lparr>p_tick_counts := 0\<rparr>) s))
        else Inr (tf, s)
      else Inr (tf, s))"

definition trap_syscall :: "'a kern_scheme devsw \<Rightarrow> rtcdate \<Rightarrow> trapframe \<Rightarrow> 'a kern_scheme
    \<Rightarrow> (trapframe \<times> ending \<times> 'a kern_scheme) res" where
  "trap_syscall devsw now tf s =
     (if p_killed (myproc s) then trap_exit tf s
      else
        bindr (syscall devsw now (upd_proc (cur s) (\<lambda>p. p\<lparr>p_tf := tf\<rparr>) s)) (\<lambda>s.
        if p_killed (myproc s) then trap_exit (p_tf (myproc s)) s else Inr (p_tf (myproc s), Return, s)))"

definition trap :: "'a cons_scheme devsw \<Rightarrow> world \<Rightarrow> trapframe \<Rightarrow> 'a cons_scheme
    \<Rightarrow> (trapframe \<times> ending \<times> 'a cons_scheme) res" where
  "trap devsw w tf s =
     (let no = tf_trapno tf in
      if no = T_SYSCALL then trap_syscall devsw (w_now w) tf s
      else if no = T_IRQ0 + IRQ_TIMER then bindr (trap_timer (w_cpuid w) tf s) (\<lambda>(tf, s). trap_tail tf s)
      else if no = T_IRQ0 + IRQ_IDE then bindr (ideintr s) (trap_tail tf)
      else if no = T_IRQ0 + IRQ_IDE + 1 then trap_tail tf s
      else if no = T_IRQ0 + IRQ_KBD then bindr (kbdintr (w_codes w) s) (trap_tail tf)
      else if no = T_IRQ0 + IRQ_COM1 then bindr (uartintr (w_bytes w) s) (trap_tail tf)
      else if no = T_IRQ0 + 7 \<or> no = T_IRQ0 + IRQ_SPURIOUS then
        bindr (cprintf (ascii ''cpu%d: spurious interrupt at %x:%x'' @ [10])
          [ArgInt (of_nat (w_cpuid w)), ArgInt (ucast (tf_cs tf)), ArgInt (tf_eip tf)] s) (trap_tail tf)
      else if \<not> has_proc s \<or> tf_cs tf AND 3 = 0 then
        bindr (cprintf (ascii ''unexpected trap %d from cpu %d eip %x (cr2=0x%x)'' @ [10])
          [ArgInt no, ArgInt (of_nat (w_cpuid w)), ArgInt (tf_eip tf), ArgInt (w_cr2 w)] s) (\<lambda>s.
        Inl (Panic ''trap''))
      else
        bindr (cprintf (ascii ''pid %d %s: trap %d err %d on cpu %d eip 0x%x addr 0x%x--kill proc'' @ [10])
          [ArgInt (of_int (p_pid (myproc s))), ArgStr (Some (cname 16 (p_name (myproc s)))), ArgInt no, ArgInt (tf_err tf),
           ArgInt (of_nat (w_cpuid w)), ArgInt (tf_eip tf), ArgInt (w_cr2 w)] s) (\<lambda>s.
        trap_tail tf (upd_proc (cur s) (\<lambda>p. p\<lparr>p_killed := True\<rparr>) s)))"

section \<open>The alarm\<close>

text \<open>
  The page that \<open>va\<close> lies on is present and writable, and it is neither the page directory nor the page
  table it is mapped by.
\<close>

definition page_of :: "memory \<Rightarrow> uint \<Rightarrow> uint \<Rightarrow> uint" where
  "page_of m d va = P2V (PTE_ADDR (pte_of m d va))"

definition writable_at :: "memory \<Rightarrow> uint \<Rightarrow> uint \<Rightarrow> bool" where
  "writable_at m d va \<longleftrightarrow> aligned 4096 d \<and> load32 m (d + 4 * PDX va) AND PTE_P \<noteq> 0 \<and>
     pte_of m d va AND PTE_P \<noteq> 0 \<and> pte_of m d va AND PTE_W \<noteq> 0 \<and>
     page_of m d va \<noteq> d \<and> page_of m d va \<noteq> P2V (PTE_ADDR (load32 m (d + 4 * PDX va)))"

lemma aligned_frame: "aligned 4096 (P2V (PTE_ADDR e))"
proof -
  have "PTE_ADDR e = PGROUNDDOWN e" by (simp add: PTE_ADDR_def PGROUNDDOWN_def)
  then have a: "unat (PTE_ADDR e) mod 4096 = 0" by (simp add: unat_PGROUNDDOWN minus_mod_eq_div_mult)
  have "unat (P2V (PTE_ADDR e)) mod 4096 = (unat (PTE_ADDR e) + 2147483648) mod 4096"
    using unat_add_mod[of 4096 "PTE_ADDR e" 2147483648] by (simp add: P2V_def)
  also have "\<dots> = 0" using a by (simp add: mod_add_left_eq[symmetric])
  finally show ?thesis by (simp add: aligned_def)
qed

lemma unat_entry: "unat i < 1024 \<Longrightarrow> 4 * (i :: uint) = of_nat (4 * unat i)"
  by simp

lemma entry_byte:
  assumes "unat (i :: uint) < 1024" "j < 4"
  shows "4 * i + of_nat j = of_nat (4 * unat i + j)" "4 * unat i + j < 4096"
  using assms by simp_all

lemma load32_upd_other:
  assumes "aligned 4096 f" "aligned 4096 d" "f \<noteq> d" "k < 4096" "unat (i :: uint) < 1024"
  shows "load32 (m(f + of_nat k := x)) (d + 4 * i) = load32 m (d + 4 * i)"
proof -
  have "d + 4 * i + of_nat j \<noteq> f + of_nat k" if j: "j < 4" for j
  proof -
    have "d + of_nat (4 * unat i + j) \<noteq> f + of_nat k"
      by (rule aligned_apart[OF assms(2,1) _ assms(3)[symmetric] entry_byte(2)[OF assms(5) j] assms(4)]) simp
    then show ?thesis by (simp only: entry_byte(1)[OF assms(5) j, symmetric] add.assoc not_False_eq_True)
  qed
  from this[of 0] this[of 1] this[of 2] this[of 3] show ?thesis by (simp add: load32_def)
qed

lemma PDX_less: "unat (PDX va) < 1024" and PTX_less: "unat (PTX va) < 1024"
  using unat_uint_bound[of va] by (simp_all add: unat_PDX unat_PTX)

text \<open>A write to such a page changes no translation.\<close>

lemma pte_of_upd:
  assumes w: "writable_at m d va" and k: "k < 4096"
  shows "pte_of (m(page_of m d va + of_nat k := x)) d va = pte_of m d va"
    "load32 (m(page_of m d va + of_nat k := x)) (d + 4 * PDX va) = load32 m (d + 4 * PDX va)"
proof -
  let ?f = "page_of m d va" and ?t = "P2V (PTE_ADDR (load32 m (d + 4 * PDX va)))"
  have f: "aligned 4096 ?f" "aligned 4096 ?t" "aligned 4096 d" "?f \<noteq> d" "?f \<noteq> ?t" "load32 m (d + 4 * PDX va) AND PTE_P \<noteq> 0"
    using w by (simp_all add: writable_at_def page_of_def aligned_frame)
  show e: "load32 (m(?f + of_nat k := x)) (d + 4 * PDX va) = load32 m (d + 4 * PDX va)"
    by (rule load32_upd_other[OF f(1,3,4) k PDX_less])
  show "pte_of (m(?f + of_nat k := x)) d va = pte_of m d va"
    using load32_upd_other[OF f(1,2,5) k PTX_less, of m x va] f(6) by (simp add: pte_of_def e Let_def)
qed

lemma writable_at_upd:
  assumes "writable_at m d va" "k < 4096"
  shows "writable_at (m(page_of m d va + of_nat k := x)) d va" "page_of (m(page_of m d va + of_nat k := x)) d va = page_of m d va"
  using assms pte_of_upd[OF assms] by (simp_all add: writable_at_def page_of_def)

text \<open>Addresses on the same page.\<close>

lemma same_page:
  assumes "unat va mod 4096 + j < 4096"
  shows "PDX (va + of_nat j) = PDX va" "PTX (va + of_nat j) = PTX va" "(va + of_nat j) AND 0xFFF = of_nat (unat va mod 4096 + j)"
    "unat (va + of_nat j) mod 4096 = unat va mod 4096 + j"
proof -
  define q r where "q = unat va div 4096" and "r = unat va mod 4096"
  have va: "unat va = 4096 * q + r" by (simp add: q_def r_def)
  have rj: "r + j < 4096" using assms by (simp add: r_def)
  have "q < 1048576" using unat_uint_bound[of va] by (simp add: q_def)
  then have "unat va + j < 2 ^ 32" using va rj by simp
  then have v: "unat (va + of_nat j) = 4096 * q + (r + j)" using unat_add_offset[of va j] va by simp
  have d: "(4096 * q + (r + j)) div 4096 = q" "(4096 * q + (r + j)) mod 4096 = r + j" "(4096 * q + r) div 4096 = q"
    using rj by simp_all
  have "n div 4194304 = n div 4096 div 1024" for n :: nat by (simp add: div_mult2_eq[symmetric])
  then show "PDX (va + of_nat j) = PDX va" by (simp add: word_unat_eq_iff unat_PDX v va d)
  show "PTX (va + of_nat j) = PTX va" by (simp add: word_unat_eq_iff unat_PTX v va d)
  show m: "unat (va + of_nat j) mod 4096 = unat va mod 4096 + j" using rj unfolding v d(2) by (simp add: r_def)
  show "(va + of_nat j) AND 0xFFF = of_nat (unat va mod 4096 + j)"
    using rj unfolding word_unat_eq_iff unat_page_offset m by (subst unat_of_nat) (simp add: r_def)
qed

lemma translate_writable:
  assumes "writable_at m d va" "unat va mod 4096 + j < 4096"
  shows "translate m d (va + of_nat j) = Some (page_of m d va + of_nat (unat va mod 4096 + j))"
    "pte_of m d (va + of_nat j) = pte_of m d va"
proof -
  note sp = same_page[OF assms(2)]
  show p: "pte_of m d (va + of_nat j) = pte_of m d va" by (simp add: pte_of_def sp Let_def)
  show "translate m d (va + of_nat j) = Some (page_of m d va + of_nat (unat va mod 4096 + j))"
    using assms(1) by (simp add: translate_def p sp page_of_def writable_at_def)
qed

text \<open>Writing bytes on one page stores them there.\<close>

lemma user_write_page:
  fixes s :: "'a ptable_scheme"
  assumes "writable_at (mem s) (p_pgdir (myproc s)) va" "unat va mod 4096 + j + length xs \<le> 4096"
  shows "\<exists>m. user_write xs (va + of_nat j) s = Inr (s\<lparr>mem := m\<rparr>) \<and> writable_at m (p_pgdir (myproc s)) va \<and>
    page_of m (p_pgdir (myproc s)) va = page_of (mem s) (p_pgdir (myproc s)) va \<and>
    (\<forall>k<4096. m (page_of (mem s) (p_pgdir (myproc s)) va + of_nat k) =
       (if unat va mod 4096 + j \<le> k \<and> k < unat va mod 4096 + j + length xs then xs ! (k - (unat va mod 4096 + j))
        else mem s (page_of (mem s) (p_pgdir (myproc s)) va + of_nat k)))"
  using assms
proof (induction xs arbitrary: j s)
  case Nil
  then show ?case by (intro exI[of _ "mem s"]) auto
next
  case (Cons x xs)
  let ?d = "p_pgdir (myproc s)" and ?f = "page_of (mem s) (p_pgdir (myproc s)) va" and ?o = "unat va mod 4096 + j"
  have o: "?o < 4096" using Cons.prems(2) by simp
  let ?m = "(mem s)(?f + of_nat ?o := x)" and ?s = "s\<lparr>mem := (mem s)(?f + of_nat ?o := x)\<rparr>"
  note tw = translate_writable[OF Cons.prems(1) o]
  have st: "user_store (va + of_nat j) x s = Inr ?s"
    using Cons.prems(1) by (simp add: user_store_def tw writable_at_def)
  note wu = writable_at_upd[OF Cons.prems(1) o, of x]
  have same: "p_pgdir (myproc ?s) = ?d" by (simp add: myproc_def)
  have len: "unat va mod 4096 + Suc j + length xs \<le> 4096" using Cons.prems(2) by simp
  have ms: "mem ?s = ?m" by simp
  have pg: "page_of (mem ?s) ?d va = ?f" unfolding ms by (rule wu(2))
  have wr: "writable_at (mem ?s) (p_pgdir (myproc ?s)) va" unfolding same ms by (rule wu(1))
  obtain m where m: "user_write xs (va + of_nat (Suc j)) ?s = Inr (?s\<lparr>mem := m\<rparr>)" "writable_at m ?d va" "page_of m ?d va = ?f"
    "\<forall>k<4096. m (?f + of_nat k) = (if unat va mod 4096 + Suc j \<le> k \<and> k < unat va mod 4096 + Suc j + length xs
       then xs ! (k - (unat va mod 4096 + Suc j)) else ?m (?f + of_nat k))"
    using Cons.IH[OF wr len, unfolded same pg, unfolded ms] by (elim exE conjE) (rule that)
  have apart: "?f + of_nat k = ?f + of_nat ?o \<longleftrightarrow> k = ?o" if "k < 4096" for k
    unfolding add_left_cancel using that o by (intro of_nat_uint_inject) simp_all
  have "m (?f + of_nat k) = (if ?o \<le> k \<and> k < ?o + length (x # xs) then (x # xs) ! (k - ?o) else mem s (?f + of_nat k))" if "k < 4096" for k
  proof -
    have mk: "m (?f + of_nat k) = (if unat va mod 4096 + Suc j \<le> k \<and> k < unat va mod 4096 + Suc j + length xs
       then xs ! (k - (unat va mod 4096 + Suc j)) else if k = ?o then x else mem s (?f + of_nat k))"
      using m(4)[rule_format, OF that] apart[OF that] by (simp only: fun_upd_apply)
    show ?thesis
    proof (cases "k \<le> ?o")
      case True
      then show ?thesis unfolding mk by (cases "k = ?o") simp_all
    next
      case False
      then have "k - ?o = Suc (k - (unat va mod 4096 + Suc j))" by simp
      then show ?thesis using False unfolding mk by simp
    qed
  qed
  moreover have "user_write (x # xs) (va + of_nat j) s = Inr (s\<lparr>mem := m\<rparr>)" using st m(1) by (simp add: ac_simps)
  ultimately show ?case using m(2,3) by blast
qed

lemma user_load_page:
  assumes "writable_at (mem s) (p_pgdir (myproc s)) va" "unat va mod 4096 + j < 4096"
  shows "user_load (va + of_nat j) s = Inr (mem s (page_of (mem s) (p_pgdir (myproc s)) va + of_nat (unat va mod 4096 + j)))"
  unfolding user_load_def translate_writable[OF assms] by simp

lemma user_read_word: "user_read 4 va s = user_read (Suc (Suc (Suc (Suc 0)))) va s"
  by (simp add: eval_nat_numeral del: user_read.simps)

lemma user_read_cong:
  "mem s = mem t \<Longrightarrow> p_pgdir (myproc s) = p_pgdir (myproc t) \<Longrightarrow> user_read n va s = user_read n va t"
  by (induction n arbitrary: va) (simp_all add: user_load_def cong: option.case_cong)

lemma user_load32_cong:
  "mem s = mem t \<Longrightarrow> p_pgdir (myproc s) = p_pgdir (myproc t) \<Longrightarrow> user_load32 va s = user_load32 va t"
  unfolding user_load32_def by (subst user_read_cong) simp_all

text \<open>A word pushed on the stack is read back.\<close>

lemma user_word_roundtrip:
  assumes w: "writable_at (mem s) (p_pgdir (myproc s)) va" and o: "unat va mod 4096 + 4 \<le> 4096"
  obtains m where "user_write (word_bytes v) va s = Inr (s\<lparr>mem := m\<rparr>)" "user_load32 va (s\<lparr>mem := m\<rparr>) = Inr v"
    "writable_at m (p_pgdir (myproc s)) va"
proof -
  let ?f = "page_of (mem s) (p_pgdir (myproc s)) va" and ?o = "unat va mod 4096"
  have len: "?o + 0 + length (word_bytes v) \<le> 4096" using o by (simp add: word_bytes_def)
  from user_write_page[OF w len] obtain m where m: "user_write (word_bytes v) va s = Inr (s\<lparr>mem := m\<rparr>)"
    "writable_at m (p_pgdir (myproc s)) va" "page_of m (p_pgdir (myproc s)) va = ?f"
    "\<And>k. k < 4096 \<Longrightarrow> m (?f + of_nat k) = (if ?o \<le> k \<and> k < ?o + length (word_bytes v) then word_bytes v ! (k - ?o) else mem s (?f + of_nat k))"
    by auto
  let ?t = "s\<lparr>mem := m\<rparr>"
  have t: "p_pgdir (myproc ?t) = p_pgdir (myproc s)" "mem ?t = m" by (simp_all add: myproc_def)
  have "user_load (va + of_nat j) ?t = Inr (word_bytes v ! j)" if "j < 4" for j
    using user_load_page[of ?t va j] that o m(2) m(4)[of "?o + j"] unfolding t m(3) by (simp add: word_bytes_def)
  from this[of 0] this[of 1] this[of 2] this[of 3] have "user_load32 va ?t = Inr v"
    unfolding user_load32_def user_read_word by (simp add: word_bytes_def add.assoc)
  from m(1) this m(2) show thesis by (rule that)
qed

text \<open>C16: The alarm fires.  At the tick that completes the interval a process asked for, the handler's
  address is where the process continues, the interrupted address is on the user's stack as the
  return address, and the count starts again.\<close>

theorem alarm_fires:
  assumes "has_proc s" "user_mode tf" "p_tick_counts (myproc s) + 1 = p_alarmticks (myproc s)"
    "writable_at (mem s) (p_pgdir (myproc s)) (tf_esp tf - 4)" "unat (tf_esp tf - 4) mod 4096 + 4 \<le> 4096"
  shows "\<exists>s'. trap_timer cpu tf s = Inr (tf\<lparr>tf_esp := tf_esp tf - 4, tf_eip := p_alarmhandler (myproc s)\<rparr>, s') \<and>
    user_load32 (tf_esp tf - 4) s' = Inr (tf_eip tf) \<and> p_tick_counts (myproc s') = 0"
proof -
  define s1 where "s1 = (if cpu = 0 then wakeup ChanTicks (s\<lparr>ticks := ticks s + 1\<rparr>) else s)"
  define s2 where "s2 = upd_proc (cur s1) (\<lambda>p. p\<lparr>p_tick_counts := p_tick_counts p + 1\<rparr>) s1"
  have 1: "mem s1 = mem s" "has_proc s1" "p_tick_counts (myproc s1) = p_tick_counts (myproc s)" "p_alarmticks (myproc s1) = p_alarmticks (myproc s)"
    "p_alarmhandler (myproc s1) = p_alarmhandler (myproc s)" "p_pgdir (myproc s1) = p_pgdir (myproc s)"
    using assms(1) by (simp_all add: s1_def wakeup_eq has_proc_def myproc_def woken_def Let_def)
  have 2: "mem s2 = mem s" "p_tick_counts (myproc s2) = p_alarmticks (myproc s2)" "p_alarmhandler (myproc s2) = p_alarmhandler (myproc s)"
    "p_pgdir (myproc s2) = p_pgdir (myproc s)"
    using 1 assms(3) by (simp_all add: s2_def upd_proc_def myproc_def)
  from user_word_roundtrip[of s2 "tf_esp tf - 4" "tf_eip tf"] assms(4,5) obtain m
    where m: "user_write (word_bytes (tf_eip tf)) (tf_esp tf - 4) s2 = Inr (s2\<lparr>mem := m\<rparr>)"
      "user_load32 (tf_esp tf - 4) (s2\<lparr>mem := m\<rparr>) = Inr (tf_eip tf)"
    unfolding 2 by metis
  define s3 where "s3 = upd_proc (cur s2) (\<lambda>p. p\<lparr>p_tick_counts := 0\<rparr>) (s2\<lparr>mem := m\<rparr>)"
  have "trap_timer cpu tf s = Inr (tf\<lparr>tf_esp := tf_esp tf - 4, tf_eip := p_alarmhandler (myproc s)\<rparr>, s3)"
    unfolding trap_timer_def Let_def s1_def[symmetric] s2_def[symmetric] using 1(2) assms(2) 2(2,3) m(1)
    by (simp add: s3_def myproc_def)
  moreover have "user_load32 (tf_esp tf - 4) s3 = Inr (tf_eip tf)"
    using user_load32_cong[of s3 "s2\<lparr>mem := m\<rparr>"] m(2) by (simp add: s3_def upd_proc_def myproc_def)
  moreover have "p_tick_counts (myproc s3) = 0" by (simp add: s3_def upd_proc_def myproc_def)
  ultimately show ?thesis by blast
qed

definition alarm_due :: kern where
  "alarm_due = ftable.extend (one_page_proc\<lparr>mycpu := cpu0\<lparr>c_proc := Some 0\<rparr>, procs := (\<lambda>_. proc0\<lparr>p_sz := 4096,
     p_pgdir := 0x80400000, p_alarmticks := 1, p_alarmhandler := 0x40\<rparr>)\<rparr>) \<lparr>ticks = 0, first = False\<rparr>"

lemma alarm_due_fields:
  "mem alarm_due = one_page" "p_pgdir (myproc alarm_due) = 0x80400000" "p_alarmticks (myproc alarm_due) = 1"
  "p_alarmhandler (myproc alarm_due) = 0x40" "p_tick_counts (myproc alarm_due) = 0" "has_proc alarm_due"
  by (simp_all add: alarm_due_def ftable.defs myproc_def has_proc_def one_page_proc_def proc0_def one_page_fields)

lemma one_page_writable: "writable_at one_page 0x80400000 0xF00"
proof -
  have "PDX 0xF00 = 0" "PTX 0xF00 = 0" by (simp_all add: word_unat_eq_iff unat_PDX unat_PTX)
  then show ?thesis
    by (simp add: writable_at_def page_of_def pte_of_def one_page_words aligned_def PTE_P_def PTE_W_def PTE_ADDR_def P2V_def)
qed

theorem alarm_fires_witness:
  "\<exists>s'. trap_timer 0 (tf0\<lparr>tf_cs := 3, tf_esp := 0xF04, tf_eip := 0x123\<rparr>) alarm_due =
     Inr (tf0\<lparr>tf_cs := 3, tf_esp := 0xF00, tf_eip := 0x40\<rparr>, s') \<and> user_load32 0xF00 s' = Inr 0x123"
  using alarm_fires[of alarm_due "tf0\<lparr>tf_cs := 3, tf_esp := 0xF04, tf_eip := 0x123\<rparr>" 0] one_page_writable
  by (auto simp: alarm_due_fields user_mode_def)

end
