(* ===== verification/Smp.thy ===== *)
theory Smp
  imports Boot Trap
begin

text \<open>
  The multiprocessor and its devices: the tables \<^verbatim>\<open>mp.c\<close> reads, the local interrupt controllers and the clock of \<^verbatim>\<open>lapic.c\<close>,
  the I/O interrupt controller \<^verbatim>\<open>ioapic.c\<close>, \<^verbatim>\<open>picirq.c\<close>, the start of the other processors in \<^verbatim>\<open>main.c\<close>, \<^verbatim>\<open>mycpu\<close> of \<^verbatim>\<open>proc.c\<close>, and
  the initialisation of the disk driver \<^verbatim>\<open>ide.c\<close>.

  What the devices answer is an argument, as in the boot loader.  The writes to the local controller are recorded in order; the
  registers of the I/O controller are kept as a map, behind the register that selects one of them.
\<close>

section \<open>State\<close>

record smp_devices = devices +
  lapic_rd :: "(nat \<times> uint) list \<Rightarrow> nat \<Rightarrow> nat \<Rightarrow> uint"

record smp = hw +
  km :: kmem
  lapic :: uint
  lapic_w :: "(nat \<times> uint) list"
  lapic_n :: nat
  cpus :: "nat \<Rightarrow> uchar"
  started :: "nat \<Rightarrow> bool"
  ncpu :: nat
  ioapicid :: uchar
  io_sel :: uint
  io_regs :: "uint \<Rightarrow> uint"

section \<open>The MP tables\<close>

primrec mp_sum :: "memory \<Rightarrow> uint \<Rightarrow> nat \<Rightarrow> uchar" where
  "mp_sum m addr 0 = 0"
| "mp_sum m addr (Suc i) = mp_sum m addr i + m (addr + of_nat i)"

text \<open>\<^verbatim>\<open>memcmp\<close> with the bytes of a string literal.\<close>

definition signature :: "memory \<Rightarrow> uint \<Rightarrow> string \<Rightarrow> bool" where
  "signature m p cs \<longleftrightarrow> map (\<lambda>i. m (p + of_nat i)) [0..<length cs] = map of_char cs"

primrec mpsearch1_loop :: "nat \<Rightarrow> memory \<Rightarrow> uint \<Rightarrow> uint option" where
  "mpsearch1_loop 0 m p = None"
| "mpsearch1_loop (Suc n) m p = (if signature m p ''_MP_'' \<and> mp_sum m p 16 = 0 then Some p else mpsearch1_loop n m (p + 16))"

definition mpsearch1 :: "memory \<Rightarrow> uint \<Rightarrow> nat \<Rightarrow> uint option" where
  "mpsearch1 m a len = mpsearch1_loop ((len + 15) div 16) m (P2V a)"

definition mpsearch :: "memory \<Rightarrow> uint option" where
  "mpsearch m =
     (let bda = P2V 0x400;
          p = push_bit 4 (push_bit 8 (ucast (m (bda + 0x0F))) OR ucast (m (bda + 0x0E)));
          mp = (if p \<noteq> 0 then mpsearch1 m p 1024
                else mpsearch1 m ((push_bit 8 (ucast (m (bda + 0x14))) OR ucast (m (bda + 0x13))) * 1024 - 1024) 1024)
      in case mp of Some mp \<Rightarrow> Some mp | None \<Rightarrow> mpsearch1 m 0xF0000 0x10000)"

text \<open>The fields: \<^verbatim>\<open>physaddr\<close> at 4 and \<^verbatim>\<open>imcrp\<close> at 12 of \<^verbatim>\<open>struct mp\<close>; \<^verbatim>\<open>length\<close> at 4, \<^verbatim>\<open>version\<close> at 6 and \<^verbatim>\<open>lapicaddr\<close> at 36 of
  \<^verbatim>\<open>struct mpconf\<close>, which is 44 bytes long.\<close>

definition mpconfig :: "memory \<Rightarrow> (uint \<times> uint) option" where
  "mpconfig m = (case mpsearch m of None \<Rightarrow> None | Some mp \<Rightarrow>
     if load32 m (mp + 4) = 0 then None
     else let conf = P2V (load32 m (mp + 4)) in
       if \<not> signature m conf ''PCMP'' then None
       else if m (conf + 6) \<noteq> 1 \<and> m (conf + 6) \<noteq> 4 then None
       else if mp_sum m conf (unat (load16 m (conf + 4))) \<noteq> 0 then None
       else Some (mp, conf))"

definition MPPROC :: uchar where [simp]: "MPPROC = 0"
definition MPBUS :: uchar where [simp]: "MPBUS = 1"
definition MPIOAPIC :: uchar where [simp]: "MPIOAPIC = 2"
definition MPIOINTR :: uchar where [simp]: "MPIOINTR = 3"
definition MPLINTR :: uchar where [simp]: "MPLINTR = 4"

text \<open>An unknown entry clears \<^verbatim>\<open>ismp\<close> and leaves the switch, not the loop, with the pointer where it is.\<close>

partial_function (option) mp_entries :: "uint \<Rightarrow> uint \<Rightarrow> bool \<Rightarrow> smp \<Rightarrow> (bool \<times> smp) option" where
  "mp_entries p e ismp s =
     (if p < e then
        let m = mem (km s) in
        if m p = MPPROC then
          mp_entries (p + 20) e ismp (if ncpu s < NCPU then s\<lparr>cpus := (cpus s)(ncpu s := m (p + 1)), ncpu := ncpu s + 1\<rparr> else s)
        else if m p = MPIOAPIC then mp_entries (p + 8) e ismp (s\<lparr>ioapicid := m (p + 1)\<rparr>)
        else if m p = MPBUS \<or> m p = MPIOINTR \<or> m p = MPLINTR then mp_entries (p + 8) e ismp s
        else mp_entries p e False s
      else Some (ismp, s))"

definition mpinit :: "smp_devices \<Rightarrow> smp \<Rightarrow> smp res option" where
  "mpinit dev s = (case mpconfig (mem (km s)) of
     None \<Rightarrow> Some (Inl (Panic ''Expect to run on an SMP''))
   | Some (mp, conf) \<Rightarrow>
       let m = mem (km s); s = s\<lparr>lapic := load32 m (conf + 36)\<rparr> in
       Option.bind (mp_entries (conf + 44) (conf + ucast (load16 m (conf + 4))) True s) (\<lambda>(ismp, s).
       if \<not> ismp then Some (Inl (Panic ''Didn't find a suitable machine''))
       else Some (Inr (if m (mp + 12) \<noteq> 0 then let (r, s) = inb dev 0x23 (outb 0x22 0x70 s) in outb 0x23 (r OR 1) s else s))))"

section \<open>The local controller\<close>

definition ID :: nat where [simp]: "ID = 0x0020 div 4"
definition VER :: nat where [simp]: "VER = 0x0030 div 4"
definition TPR :: nat where [simp]: "TPR = 0x0080 div 4"
definition EOI :: nat where [simp]: "EOI = 0x00B0 div 4"
definition SVR :: nat where [simp]: "SVR = 0x00F0 div 4"
definition ESR :: nat where [simp]: "ESR = 0x0280 div 4"
definition ICRLO :: nat where [simp]: "ICRLO = 0x0300 div 4"
definition ICRHI :: nat where [simp]: "ICRHI = 0x0310 div 4"
definition TIMER :: nat where [simp]: "TIMER = 0x0320 div 4"
definition PCINT :: nat where [simp]: "PCINT = 0x0340 div 4"
definition LINT0 :: nat where [simp]: "LINT0 = 0x0350 div 4"
definition LINT1 :: nat where [simp]: "LINT1 = 0x0360 div 4"
definition ERROR :: nat where [simp]: "ERROR = 0x0370 div 4"
definition TICR :: nat where [simp]: "TICR = 0x0380 div 4"
definition TDCR :: nat where [simp]: "TDCR = 0x03E0 div 4"

definition lapicw :: "smp_devices \<Rightarrow> nat \<Rightarrow> uint \<Rightarrow> smp \<Rightarrow> smp" where
  "lapicw dev index value s = s\<lparr>lapic_w := lapic_w s @ [(index, value)], lapic_n := lapic_n s + 1\<rparr>"

definition lapicr :: "smp_devices \<Rightarrow> nat \<Rightarrow> smp \<Rightarrow> uint \<times> smp" where
  "lapicr dev index s = (lapic_rd dev (lapic_w s) index (lapic_n s), s\<lparr>lapic_n := lapic_n s + 1\<rparr>)"

partial_function (option) lapic_delivered :: "smp_devices \<Rightarrow> smp \<Rightarrow> smp option" where
  "lapic_delivered dev s = (let (r, s) = lapicr dev ICRLO s in if r AND 0x1000 \<noteq> 0 then lapic_delivered dev s else Some s)"

definition lapicinit :: "smp_devices \<Rightarrow> smp \<Rightarrow> smp option" where
  "lapicinit dev s =
     (if lapic s = 0 then Some s
      else
        let s = lapicw dev SVR (0x100 OR (T_IRQ0 + IRQ_SPURIOUS)) s;
            s = lapicw dev TDCR 0xB s;
            s = lapicw dev TIMER (0x20000 OR (T_IRQ0 + IRQ_TIMER)) s;
            s = lapicw dev TICR 10000000 s;
            s = lapicw dev LINT0 0x10000 s;
            s = lapicw dev LINT1 0x10000 s;
            (ver, s) = lapicr dev VER s;
            s = (if drop_bit 16 ver AND 0xFF \<ge> 4 then lapicw dev PCINT 0x10000 s else s);
            s = lapicw dev ERROR (T_IRQ0 + 19) s;
            s = lapicw dev ESR 0 s;
            s = lapicw dev ESR 0 s;
            s = lapicw dev EOI 0 s;
            s = lapicw dev ICRHI 0 s;
            s = lapicw dev ICRLO (0x80000 OR 0x500 OR 0x8000) s
        in map_option (lapicw dev TPR 0) (lapic_delivered dev s))"

definition lapicid :: "smp_devices \<Rightarrow> smp \<Rightarrow> uint \<times> smp" where
  "lapicid dev s = (if lapic s = 0 then (0, s) else let (r, s) = lapicr dev ID s in (drop_bit 24 r, s))"

definition lapiceoi :: "smp_devices \<Rightarrow> smp \<Rightarrow> smp" where
  "lapiceoi dev s = (if lapic s \<noteq> 0 then lapicw dev EOI 0 s else s)"

text \<open>Starting another processor; \<^verbatim>\<open>microdelay\<close> does nothing.\<close>

definition microdelay :: "int \<Rightarrow> 'a \<Rightarrow> 'a" where
  "microdelay us s = s"

definition store16 :: "memory \<Rightarrow> uint \<Rightarrow> ushort \<Rightarrow> memory" where
  "store16 m a v = m(a := ucast v, a + 1 := ucast (drop_bit 8 v))"

definition startup_ipi :: "smp_devices \<Rightarrow> uchar \<Rightarrow> uint \<Rightarrow> smp \<Rightarrow> smp" where
  "startup_ipi dev apicid addr s =
     microdelay 200 (lapicw dev ICRLO (0x600 OR drop_bit 12 addr) (lapicw dev ICRHI (push_bit 24 (ucast apicid)) s))"

definition lapicstartap :: "smp_devices \<Rightarrow> uchar \<Rightarrow> uint \<Rightarrow> smp \<Rightarrow> smp" where
  "lapicstartap dev apicid addr s =
     (let s = outb 0x71 0x0A (outb 0x70 0xF s);
          wrv = P2V (push_bit 4 0x40 OR 0x67);
          s = s\<lparr>km := (km s)\<lparr>mem := store16 (store16 (mem (km s)) wrv 0) (wrv + 2) (ucast (drop_bit 4 addr))\<rparr>\<rparr>;
          s = lapicw dev ICRHI (push_bit 24 (ucast apicid)) s;
          s = lapicw dev ICRLO (0x500 OR 0x8000 OR 0x4000) s;
          s = microdelay 200 s;
          s = lapicw dev ICRLO (0x500 OR 0x8000) s;
          s = microdelay 100 s
      in startup_ipi dev apicid addr (startup_ipi dev apicid addr s))"

section \<open>The clock\<close>

definition cmos_read :: "'b devices_scheme \<Rightarrow> uint \<Rightarrow> 'a hw_scheme \<Rightarrow> uint \<times> 'a hw_scheme" where
  "cmos_read dev reg s = (let (r, s) = inb dev 0x71 (microdelay 200 (outb 0x70 (ucast reg) s)) in (ucast r, s))"

definition fill_rtcdate :: "'b devices_scheme \<Rightarrow> 'a hw_scheme \<Rightarrow> rtcdate \<times> 'a hw_scheme" where
  "fill_rtcdate dev s =
     (let (sec, s) = cmos_read dev 0x00 s;
          (mint, s) = cmos_read dev 0x02 s;
          (hour, s) = cmos_read dev 0x04 s;
          (day, s) = cmos_read dev 0x07 s;
          (month, s) = cmos_read dev 0x08 s;
          (year, s) = cmos_read dev 0x09 s
      in (\<lparr>r_second = sec, r_minute = mint, r_hour = hour, r_day = day, r_month = month, r_year = year\<rparr>, s))"

partial_function (option) cmostime_loop :: "'b devices_scheme \<Rightarrow> 'a hw_scheme \<Rightarrow> (rtcdate \<times> 'a hw_scheme) option" where
  "cmostime_loop dev s =
     (let (t1, s) = fill_rtcdate dev s; (a, s) = cmos_read dev 0x0A s in
      if a AND 0x80 \<noteq> 0 then cmostime_loop dev s
      else let (t2, s) = fill_rtcdate dev s in if t1 = t2 then Some (t1, s) else cmostime_loop dev s)"

definition CONV :: "uint \<Rightarrow> uint" where
  "CONV x = drop_bit 4 x * 10 + (x AND 0xf)"

definition cmostime :: "'b devices_scheme \<Rightarrow> 'a hw_scheme \<Rightarrow> (rtcdate \<times> 'a hw_scheme) option" where
  "cmostime dev s =
     (let (sb, s) = cmos_read dev 0x0B s; bcd = (sb AND push_bit 2 1 = 0) in
      map_option (\<lambda>(t, s).
        let t = (if bcd then \<lparr>r_second = CONV (r_second t), r_minute = CONV (r_minute t), r_hour = CONV (r_hour t),
                              r_day = CONV (r_day t), r_month = CONV (r_month t), r_year = CONV (r_year t)\<rparr> else t)
        in (t\<lparr>r_year := r_year t + 2000\<rparr>, s)) (cmostime_loop dev s))"

section \<open>The I/O controller and the old one\<close>

definition ioapicread :: "uint \<Rightarrow> smp \<Rightarrow> uint \<times> smp" where
  "ioapicread reg s = (io_regs s reg, s\<lparr>io_sel := reg\<rparr>)"

definition ioapicwrite :: "uint \<Rightarrow> uint \<Rightarrow> smp \<Rightarrow> smp" where
  "ioapicwrite reg data s = s\<lparr>io_sel := reg, io_regs := (io_regs s)(reg := data)\<rparr>"

definition REG_TABLE :: uint where [simp]: "REG_TABLE = 0x10"

primrec ioapicinit_loop :: "nat \<Rightarrow> smp \<Rightarrow> smp" where
  "ioapicinit_loop 0 s = s"
| "ioapicinit_loop (Suc i) s =
     (let s = ioapicinit_loop i s in
      ioapicwrite (REG_TABLE + 2 * of_nat i + 1) 0 (ioapicwrite (REG_TABLE + 2 * of_nat i) (0x10000 OR (T_IRQ0 + of_nat i)) s))"

text \<open>The flag tells that the identifier differs from the one in the MP tables, which is only reported.\<close>

definition ioapicinit :: "smp \<Rightarrow> bool \<times> smp" where
  "ioapicinit s =
     (let (ver, s) = ioapicread 1 s; (id, s) = ioapicread 0 s
      in (drop_bit 24 id \<noteq> ucast (ioapicid s), ioapicinit_loop (unat (drop_bit 16 ver AND 0xFF) + 1) s))"

definition ioapicenable :: "uint \<Rightarrow> uint \<Rightarrow> smp \<Rightarrow> smp" where
  "ioapicenable irq cpunum s = ioapicwrite (REG_TABLE + 2 * irq + 1) (push_bit 24 cpunum) (ioapicwrite (REG_TABLE + 2 * irq) (T_IRQ0 + irq) s)"

definition picinit :: "'a hw_scheme \<Rightarrow> 'a hw_scheme" where
  "picinit s = outb 0xA1 0xFF (outb 0x21 0xFF s)"

section \<open>Processors\<close>

text \<open>\<^verbatim>\<open>mycpu\<close> finds the entry of the processor it runs on; \<open>fl\<close> is the interrupt flag.\<close>

definition mycpu_index :: "smp_devices \<Rightarrow> bool \<Rightarrow> smp \<Rightarrow> (nat \<times> smp) res" where
  "mycpu_index dev fl s =
     (if fl then Inl (Panic ''mycpu called with interrupts enabled'')
      else let (apicid, s) = lapicid dev s in
        case find (\<lambda>i. ucast (cpus s i) = apicid) [0..<ncpu s] of Some i \<Rightarrow> Inr (i, s) | None \<Rightarrow> Inl (Panic ''unknown apicid''))"

definition cpuid :: "smp_devices \<Rightarrow> bool \<Rightarrow> smp \<Rightarrow> (nat \<times> smp) res" where
  "cpuid dev fl s = mycpu_index dev fl s"

text \<open>
  \<open>up c\<close> says that the processor \<open>c\<close> comes up and reaches \<^verbatim>\<open>mpmain\<close>, which sets its flag; the wait for one that does not never ends.
\<close>

definition mpmain_started :: "nat \<Rightarrow> smp \<Rightarrow> smp" where
  "mpmain_started c s = s\<lparr>started := (started s)(c := True)\<rparr>"

definition startother :: "smp_devices \<Rightarrow> (nat \<Rightarrow> bool) \<Rightarrow> nat \<Rightarrow> smp \<Rightarrow> smp option" where
  "startother dev up c s =
     (let code = P2V 0x7000;
          (stack, k) = kalloc (km s);
          m = store32 (mem k) (code - 4) (stack + of_nat KSTACKSIZE);
          m = store32 m (code - 8) (ksym k ''mpenter'');
          m = store32 m (code - 12) (V2P (ksym k ''entrypgdir''));
          s = lapicstartap dev (cpus s c) (V2P code) (s\<lparr>km := k\<lparr>mem := m\<rparr>\<rparr>)
      in if up c then Some (mpmain_started c s) else None)"

primrec startothers_loop :: "smp_devices \<Rightarrow> (nat \<Rightarrow> bool) \<Rightarrow> nat \<Rightarrow> nat list \<Rightarrow> smp \<Rightarrow> smp option" where
  "startothers_loop dev up me [] s = Some s"
| "startothers_loop dev up me (c # cs) s =
     (if c = me then startothers_loop dev up me cs s
      else Option.bind (startother dev up c s) (startothers_loop dev up me cs))"

definition startothers :: "smp_devices \<Rightarrow> (nat \<Rightarrow> bool) \<Rightarrow> nat \<Rightarrow> uint \<Rightarrow> smp \<Rightarrow> smp option" where
  "startothers dev up me sz s =
     (let k = km s; code = P2V 0x7000;
          s = s\<lparr>km := k\<lparr>mem := memmove (mem k) code (ksym k ''_binary_entryother_start'') sz\<rparr>\<rparr>
      in startothers_loop dev up me [0..<ncpu s] s)"

section \<open>The disk driver\<close>

partial_function (option) idewait :: "'b devices_scheme \<Rightarrow> bool \<Rightarrow> 'a hw_scheme \<Rightarrow> (int \<times> 'a hw_scheme) option" where
  "idewait dev checkerr s =
     (let (r, s) = inb dev 0x1f7 s in
      if r AND (0x80 OR 0x40) \<noteq> 0x40 then idewait dev checkerr s
      else if checkerr \<and> r AND (0x20 OR 0x01) \<noteq> 0 then Some (-1, s) else Some (0, s))"

primrec probe_disk1 :: "nat \<Rightarrow> 'b devices_scheme \<Rightarrow> 'a hw_scheme \<Rightarrow> bool \<times> 'a hw_scheme" where
  "probe_disk1 0 dev s = (False, s)"
| "probe_disk1 (Suc n) dev s = (let (r, s) = inb dev 0x1f7 s in if r \<noteq> 0 then (True, s) else probe_disk1 n dev s)"

definition ideinit :: "smp_devices \<Rightarrow> smp \<Rightarrow> (bool \<times> smp) option" where
  "ideinit dev s =
     (let s = ioapicenable IRQ_IDE (of_nat (ncpu s) - 1) s in
      map_option (\<lambda>(r, s).
        let (d1, s) = probe_disk1 1000 dev (outb 0x1f6 (0xe0 OR push_bit 4 1) s)
        in (d1, outb 0x1f6 (0xe0 OR push_bit 4 0) s)) (idewait dev False s))"

section \<open>Detecting processors\<close>

text \<open>A table of entries, each given by its type and the byte behind it.\<close>

definition entry_size :: "uchar \<Rightarrow> nat" where
  "entry_size t = (if t = MPPROC then 20 else 8)"

primrec table_at :: "memory \<Rightarrow> uint \<Rightarrow> (uchar \<times> uchar) list \<Rightarrow> bool" where
  "table_at m p [] \<longleftrightarrow> True"
| "table_at m p (x # xs) \<longleftrightarrow> m p = fst x \<and> m (p + 1) = snd x \<and> fst x \<le> MPLINTR \<and> table_at m (p + of_nat (entry_size (fst x))) xs"

definition table_size :: "(uchar \<times> uchar) list \<Rightarrow> nat" where
  "table_size xs = sum_list (map (entry_size \<circ> fst) xs)"

definition of_type :: "uchar \<Rightarrow> (uchar \<times> uchar) list \<Rightarrow> uchar list" where
  "of_type t xs = map snd (filter (\<lambda>x. fst x = t) xs)"

text \<open>The processors are entered in the order of the table, as many as there is room for.\<close>

definition detected :: "(uchar \<times> uchar) list \<Rightarrow> smp \<Rightarrow> smp" where
  "detected xs s = (let n = min NCPU (ncpu s + length (of_type MPPROC xs)) in
     s\<lparr>cpus := (\<lambda>i. if ncpu s \<le> i \<and> i < n then of_type MPPROC xs ! (i - ncpu s) else cpus s i), ncpu := n,
       ioapicid := last (ioapicid s # of_type MPIOAPIC xs)\<rparr>)"

lemma type_cases:
  fixes t :: uchar
  assumes "t \<le> MPLINTR"
  obtains "t = MPPROC" | "t = MPIOAPIC" | "t = MPBUS \<or> t = MPIOINTR \<or> t = MPLINTR"
proof -
  have "unat t \<le> 4" using assms by (simp add: word_le_nat_alt)
  then have "unat t = 0 \<or> unat t = 1 \<or> unat t = 2 \<or> unat t = 3 \<or> unat t = 4" by linarith
  then have "t = 0 \<or> t = 1 \<or> t = 2 \<or> t = 3 \<or> t = 4" by (auto simp: word_unat_eq_iff)
  then show thesis using that by auto
qed

lemma empty_range [simp]: "(\<lambda>i. if n \<le> i \<and> i < n then f i else g i) = g" for n :: nat
  by (auto simp: fun_eq_iff)

lemma detected_nil [simp]: "ncpu s \<le> NCPU \<Longrightarrow> detected [] s = s"
  by (simp add: detected_def of_type_def Let_def)

lemma detected_cons: "ncpu s \<le> NCPU \<Longrightarrow> detected xs (detected [x] s) = detected (x # xs) s"
proof (cases "fst x = MPPROC")
  case True
  assume "ncpu s \<le> NCPU"
  then show ?thesis using True by (auto simp: detected_def Let_def of_type_def fun_eq_iff nth_Cons' min_def)
next
  case False
  assume "ncpu s \<le> NCPU"
  then show ?thesis using False by (auto simp: detected_def Let_def of_type_def fun_eq_iff min_def)
qed

lemma detected_one:
  "ncpu s \<le> NCPU \<Longrightarrow> detected [(MPPROC, b)] s = (if ncpu s < NCPU then s\<lparr>cpus := (cpus s)(ncpu s := b), ncpu := ncpu s + 1\<rparr> else s)"
  "ncpu s \<le> NCPU \<Longrightarrow> detected [(MPIOAPIC, b)] s = s\<lparr>ioapicid := b\<rparr>"
  "ncpu s \<le> NCPU \<Longrightarrow> t \<noteq> MPPROC \<Longrightarrow> t \<noteq> MPIOAPIC \<Longrightarrow> detected [(t, b)] s = s"
  by (cases s; auto simp: detected_def Let_def of_type_def fun_eq_iff min_def)+

lemma mp_entries_step:
  assumes n: "ncpu s \<le> NCPU" and p: "p < e" "mem (km s) p = fst x" "mem (km s) (p + 1) = snd x" "fst x \<le> MPLINTR"
  shows "mp_entries p e ismp s = mp_entries (p + of_nat (entry_size (fst x))) e ismp (detected [x] s)"
  using p(4)
proof (cases rule: type_cases)
  case 1
  then have x: "detected [x] s = detected [(MPPROC, snd x)] s" by (metis prod.collapse)
  show ?thesis unfolding x detected_one(1)[OF n] using 1 p(1-3) by (subst mp_entries.simps) (simp add: Let_def entry_size_def)
next
  case 2
  then have x: "detected [x] s = detected [(MPIOAPIC, snd x)] s" by (metis prod.collapse)
  show ?thesis unfolding x detected_one(2)[OF n] using 2 p(1-3) by (subst mp_entries.simps) (simp add: Let_def entry_size_def)
next
  case 3
  then have x: "detected [x] s = s" using detected_one(3)[OF n, of "fst x" "snd x"] by auto
  show ?thesis unfolding x using 3 p(1-3) by (subst mp_entries.simps) (auto simp: Let_def entry_size_def)
qed

lemma mp_entries_run:
  assumes "table_at (mem (km s)) p xs" "ncpu s \<le> NCPU" "unat p + table_size xs \<le> unat e"
  shows "mp_entries p e ismp s = mp_entries (p + of_nat (table_size xs)) e ismp (detected xs s)"
  using assms
proof (induction xs arbitrary: p s)
  case Nil
  then show ?case by (simp add: table_size_def del: NCPU_def)
next
  case (Cons x xs)
  let ?n = "entry_size (fst x)"
  have ts: "table_size (x # xs) = ?n + table_size xs" by (simp add: table_size_def)
  have n: "0 < ?n" by (simp add: entry_size_def)
  have p: "p < e" using Cons.prems(3) n ts by (simp add: word_less_nat_alt)
  have u: "unat (p + of_nat ?n) = unat p + ?n" using Cons.prems(3) ts unat_uint_bound[of e] by (intro unat_add_offset) linarith
  define s1 where "s1 = detected [x] s"
  have k: "km s1 = km s" "ncpu s1 \<le> NCPU" by (simp_all add: s1_def detected_def Let_def)
  have "mp_entries p e ismp s = mp_entries (p + of_nat ?n) e ismp s1"
    unfolding s1_def by (rule mp_entries_step[OF Cons.prems(2) p]) (use Cons.prems(1) in auto)
  also have "\<dots> = mp_entries (p + of_nat ?n + of_nat (table_size xs)) e ismp (detected xs s1)"
    by (rule Cons.IH) (use Cons.prems k u ts in auto)
  also have "detected xs s1 = detected (x # xs) s" unfolding s1_def by (rule detected_cons[OF Cons.prems(2)])
  finally show ?case by (simp add: ts add.assoc)
qed

lemma mp_entries_stuck:
  assumes "p < e" "MPLINTR < mem (km s) p"
  shows "mp_entries p e ismp s = None"
proof (rule ccontr)
  assume "mp_entries p e ismp s \<noteq> None"
  then obtain r where "mp_entries p e ismp s = Some r" by auto
  then have "\<not> (p < e \<and> MPLINTR < mem (km s) p)"
    by (rule mp_entries.raw_induct[where P = "\<lambda>p e _ s _. \<not> (p < e \<and> MPLINTR < mem (km s) p)", rotated]) (auto simp: Let_def split: if_splits)
  then show False using assms by simp
qed

text \<open>The table \<open>xs\<close> of entries of known types stands behind the header of the configuration table found.\<close>

definition mp_table :: "memory \<Rightarrow> uint \<Rightarrow> uint \<Rightarrow> (uchar \<times> uchar) list \<Rightarrow> bool" where
  "mp_table m mp conf xs \<longleftrightarrow> mpconfig m = Some (mp, conf) \<and> table_at m (conf + 44) xs \<and> unat conf + unat (load16 m (conf + 4)) < 2 ^ 32 \<and>
     44 + table_size xs \<le> unat (load16 m (conf + 4))"

lemma mp_table_run:
  assumes t: "mp_table m mp conf xs" and s: "mem (km s) = m" "ncpu s \<le> NCPU"
  shows "mp_entries (conf + 44) (conf + ucast (load16 m (conf + 4))) True s =
    mp_entries (conf + of_nat (44 + table_size xs)) (conf + ucast (load16 m (conf + 4))) True (detected xs s)"
    "unat (conf + of_nat (44 + table_size xs)) = unat conf + 44 + table_size xs"
    "unat (conf + ucast (load16 m (conf + 4))) = unat conf + unat (load16 m (conf + 4))"
proof -
  let ?n = "unat (load16 m (conf + 4))"
  have b: "unat conf + ?n < 2 ^ 32" "44 + table_size xs \<le> ?n" using t by (auto simp: mp_table_def)
  have "ucast (load16 m (conf + 4)) = (of_nat ?n :: uint)" by simp
  then show e: "unat (conf + ucast (load16 m (conf + 4))) = unat conf + ?n" using unat_add_offset[OF b(1)] by simp
  show "unat (conf + of_nat (44 + table_size xs)) = unat conf + 44 + table_size xs" using unat_add_offset[of conf "44 + table_size xs"] b by simp
  have p: "unat (conf + 44) = unat conf + 44" using unat_add_offset[of conf 44] b by simp
  show "mp_entries (conf + 44) (conf + ucast (load16 m (conf + 4))) True s =
    mp_entries (conf + of_nat (44 + table_size xs)) (conf + ucast (load16 m (conf + 4))) True (detected xs s)"
    using mp_entries_run[of s "conf + 44" xs "conf + ucast (load16 m (conf + 4))" True] t s p e b by (simp add: mp_table_def add.assoc)
qed

text \<open>C23: with a table of entries of the known types, all of its length, \<^verbatim>\<open>mpinit\<close> returns with the processors of the table in order, the first eight if there are more,
  and the address of the local controller.\<close>

theorem mpinit_detects:
  assumes t: "mp_table (mem (km s)) mp conf xs" "unat (load16 (mem (km s)) (conf + 4)) = 44 + table_size xs" and s: "ncpu s = 0"
  shows "\<exists>s'. mpinit dev s = Some (Inr s') \<and> ncpu s' = min NCPU (length (of_type MPPROC xs)) \<and> (\<forall>i<ncpu s'. cpus s' i = of_type MPPROC xs ! i) \<and>
    lapic s' = load32 (mem (km s)) (conf + 36) \<and> (of_type MPIOAPIC xs \<noteq> [] \<longrightarrow> ioapicid s' = last (of_type MPIOAPIC xs)) \<and> km s' = km s"
proof -
  let ?m = "mem (km s)" and ?s = "s\<lparr>lapic := load32 (mem (km s)) (conf + 36)\<rparr>"
  let ?e = "conf + ucast (load16 ?m (conf + 4))"
  have c: "mpconfig ?m = Some (mp, conf)" using t(1) by (simp add: mp_table_def)
  note r = mp_table_run[OF t(1), of ?s]
  have "conf + of_nat (44 + table_size xs) = ?e" using r(2,3) t(2) s by (simp add: word_unat_eq_iff)
  then have "mp_entries (conf + 44) ?e True ?s = mp_entries ?e ?e True (detected xs ?s)" using r(1) s by simp
  then have me: "mp_entries (conf + 44) ?e True ?s = Some (True, detected xs ?s)" by (simp add: mp_entries.simps[of ?e])
  define s' where "s' = (if ?m (mp + 12) \<noteq> 0 then let (r, s) = inb dev 0x23 (outb 0x22 0x70 (detected xs ?s)) in outb 0x23 (r OR 1) s else detected xs ?s)"
  have "mpinit dev s = Some (Inr s')" using me by (simp add: mpinit_def c Let_def s'_def)
  moreover have "ncpu s' = ncpu (detected xs ?s)" "cpus s' = cpus (detected xs ?s)" "lapic s' = lapic (detected xs ?s)" "ioapicid s' = ioapicid (detected xs ?s)" "km s' = km (detected xs ?s)"
    by (simp_all add: s'_def outb_def inb_def)
  ultimately show ?thesis using s by (auto simp: detected_def Let_def)
qed

text \<open>C24: an entry of an unknown type is where \<^verbatim>\<open>mpinit\<close> never returns: the pointer is not advanced, so that the check behind the loop, which
  is to report that no suitable machine was found, is not reached.\<close>

theorem mpinit_unknown_hangs:
  assumes t: "mp_table (mem (km s)) mp conf xs" and s: "ncpu s = 0"
    and u: "44 + table_size xs < unat (load16 (mem (km s)) (conf + 4))" "MPLINTR < mem (km s) (conf + of_nat (44 + table_size xs))"
  shows "mpinit dev s = None"
proof -
  let ?m = "mem (km s)" and ?s = "s\<lparr>lapic := load32 (mem (km s)) (conf + 36)\<rparr>"
  have c: "mpconfig ?m = Some (mp, conf)" using t by (simp add: mp_table_def)
  note r = mp_table_run[OF t, of ?s]
  have "mp_entries (conf + of_nat (44 + table_size xs)) (conf + ucast (load16 ?m (conf + 4))) True (detected xs ?s) = None"
    by (rule mp_entries_stuck) (use r(2,3) u s in \<open>simp_all add: word_less_nat_alt detected_def Let_def\<close>)
  then show ?thesis using r(1) s by (simp add: mpinit_def c Let_def)
qed

text \<open>A machine for the witnesses: one processor, and an entry of type \<open>t\<close>.\<close>

definition small_mp :: "uchar \<Rightarrow> uchar \<Rightarrow> memory" where
  "small_mp t ck = (\<lambda>_. 0)(0x8000040E := 0xC0, 0x8000040F := 0x9F,
     0x8009FC00 := 0x5F, 0x8009FC01 := 0x4D, 0x8009FC02 := 0x50, 0x8009FC03 := 0x5F, 0x8009FC05 := 0xFD, 0x8009FC06 := 9, 0x8009FC08 := 1, 0x8009FC09 := 4,
     0x8009FC0A := 0x9A, 0x8009FD00 := 0x50, 0x8009FD01 := 0x43, 0x8009FD02 := 0x4D, 0x8009FD03 := 0x50, 0x8009FD04 := 72, 0x8009FD06 := 4, 0x8009FD07 := ck,
     0x8009FD22 := 2, 0x8009FD26 := 0xE0, 0x8009FD27 := 0xFE, 0x8009FD2D := 1, 0x8009FD40 := t, 0x8009FD41 := 5)"

lemma mp_sum_numeral: "mp_sum m a (numeral k) = mp_sum m a (pred_numeral k) + m (a + of_nat (pred_numeral k))"
  by (simp add: numeral_eq_Suc)

lemma small_mp_first: "mpsearch1_loop (Suc n) (small_mp t ck) 0x8009FC00 = Some 0x8009FC00"
proof -
  have 1: "signature (small_mp t ck) 0x8009FC00 ''_MP_''" by (simp add: signature_def upt_conv_Cons small_mp_def)
  have 2: "mp_sum (small_mp t ck) 0x8009FC00 16 = 0" unfolding small_mp_def by (simp add: mp_sum_numeral)
  show ?thesis using 1 2 by simp
qed

lemma small_mp_search: "mpsearch (small_mp t ck) = Some 0x8009FC00"
proof -
  have "small_mp t ck 0x8000040F = 0x9F" "small_mp t ck 0x8000040E = 0xC0" by (simp_all add: small_mp_def)
  moreover have "mpsearch1 (small_mp t ck) 0x9FC00 1024 = Some 0x8009FC00" using small_mp_first[of 63] by (simp add: mpsearch1_def P2V_def)
  ultimately show ?thesis by (simp add: mpsearch_def P2V_def)
qed

lemma small_mp_sum: "mp_sum (small_mp t ck) 0x8009FD00 72 = 0x62 + ck + t"
  unfolding small_mp_def by (simp add: mp_sum_numeral)

lemma small_mp_config:
  assumes "0x62 + ck + t = 0"
  shows "mpconfig (small_mp t ck) = Some (0x8009FC00, 0x8009FD00)" "load16 (small_mp t ck) 0x8009FD04 = 72"
proof -
  have 1: "load32 (small_mp t ck) 0x8009FC04 = 0x9FD00" by (simp add: load32_def join32_def small_mp_def)
  have 2: "signature (small_mp t ck) 0x8009FD00 ''PCMP''" by (simp add: signature_def upt_conv_Cons small_mp_def)
  show 3: "load16 (small_mp t ck) 0x8009FD04 = 72" by (simp add: load16_def join16_def small_mp_def)
  have 4: "small_mp t ck 0x8009FD06 = 4" by (simp add: small_mp_def)
  show "mpconfig (small_mp t ck) = Some (0x8009FC00, 0x8009FD00)"
    using 1 2 3 4 small_mp_sum[of t ck] assms by (simp add: mpconfig_def small_mp_search P2V_def)
qed

definition small_smp :: "uchar \<Rightarrow> uchar \<Rightarrow> smp" where
  "small_smp t ck = \<lparr>outs = [], nin = 0, km = \<lparr>mem = small_mp t ck, freelist = 0, use_lock = False, kend = 0, kdata = 0, ksym = (\<lambda>_. 0)\<rparr>,
     lapic = 0, lapic_w = [], lapic_n = 0, cpus = (\<lambda>_. 0), started = (\<lambda>_. False), ncpu = 0, ioapicid = 0, io_sel = 0, io_regs = (\<lambda>_. 0)\<rparr>"

definition small_smp_dev :: smp_devices where
  "small_smp_dev = \<lparr>dv_in = (\<lambda>_ _ _. 0), dv_data = (\<lambda>_ _. 0), lapic_rd = (\<lambda>_ _ _. 0)\<rparr>"

theorem mpinit_detects_witness:
  "\<exists>s'. mpinit small_smp_dev (small_smp 2 0x9C) = Some (Inr s') \<and> ncpu s' = 1 \<and> cpus s' 0 = 1 \<and> ioapicid s' = 5"
proof -
  have "mp_table (small_mp 2 0x9C) 0x8009FC00 0x8009FD00 [(0, 1), (2, 5)]"
    using small_mp_config[of "0x9C" 2] by (simp add: mp_table_def table_size_def entry_size_def) (simp add: small_mp_def)
  then show ?thesis
    using mpinit_detects[of "small_smp 2 0x9C" "0x8009FC00" "0x8009FD00" "[(0, 1), (2, 5)]" small_smp_dev] small_mp_config(2)[of "0x9C" 2]
    by (auto simp: small_smp_def table_size_def entry_size_def of_type_def)
qed

theorem mpinit_unknown_hangs_witness: "mpinit small_smp_dev (small_smp 127 0x1F) = None"
proof -
  have "mp_table (small_mp 127 0x1F) 0x8009FC00 0x8009FD00 [(0, 1)]"
    using small_mp_config[of "0x1F" 127] by (simp add: mp_table_def table_size_def entry_size_def) (simp add: small_mp_def)
  moreover have "MPLINTR < small_mp 127 0x1F 0x8009FD40" by (simp add: small_mp_def)
  ultimately show ?thesis
    using mpinit_unknown_hangs[of "small_smp 127 0x1F" "0x8009FC00" "0x8009FD00" "[(0, 1)]" small_smp_dev] small_mp_config(2)[of "0x1F" 127]
    by (simp add: small_smp_def table_size_def entry_size_def)
qed

section \<open>Reading the clock\<close>

text \<open>The clock stands at the date \<open>d\<close>, given for the number of each register, in binary or in two decimal digits; an update ends at some time.\<close>

definition bcd :: "nat \<Rightarrow> nat" where
  "bcd x = 16 * (x div 10) + x mod 10"

definition clock_at :: "'b devices_scheme \<Rightarrow> bool \<Rightarrow> (uchar \<Rightarrow> nat) \<Rightarrow> bool" where
  "clock_at dev binary d \<longleftrightarrow>
     (\<forall>tr n. \<forall>r\<in>{0, 2, 4, 7, 8, 9}. dv_in dev (tr @ [(0x70, r)]) 0x71 n = of_nat (if binary then d r else bcd (d r))) \<and>
     (\<forall>tr n. bit (dv_in dev (tr @ [(0x70, 0x0B)]) 0x71 n) 2 = binary) \<and>
     (\<exists>N. \<forall>tr. \<forall>n\<ge>N. \<not> bit (dv_in dev (tr @ [(0x70, 0x0A)]) 0x71 n) 7)"

lemma CONV_unat: "unat x < 256 \<Longrightarrow> unat (CONV x) = 10 * (unat x div 16) + unat x mod 16"
proof -
  assume x: "unat x < 256"
  have d: "unat (drop_bit 4 x) = unat x div 16" by (simp add: drop_bit_eq_div unat_div)
  have "x AND 0xf = take_bit 4 x" by (simp add: take_bit_eq_mask mask_eq_exp_minus_1)
  then have m: "unat (x AND 0xf) = unat x mod 16" by (simp add: take_bit_eq_mod unat_mod)
  have "unat x div 16 < 16" "unat x mod 16 < 16" using x by (simp_all add: less_mult_imp_div_less)
  then show ?thesis unfolding CONV_def by (simp add: unat_word_ariths(1,2) d m)
qed

lemma conv_bcd:
  assumes "x < 100"
  shows "CONV (ucast (of_nat (bcd x) :: uchar)) = of_nat x"
proof -
  have b: "bcd x < 256" using assms by (simp add: bcd_def)
  have dm: "bcd x div 16 = x div 10" "bcd x mod 16 = x mod 10" by (simp_all add: bcd_def)
  have n: "unat (ucast (of_nat (bcd x) :: uchar) :: uint) = bcd x" using b by (simp add: unsigned_of_nat take_bit_nat_eq_self)
  have "unat (CONV (ucast (of_nat (bcd x) :: uchar))) = x" using CONV_unat[of "ucast (of_nat (bcd x) :: uchar)"] unfolding n dm using b by simp
  then show ?thesis using assms by (simp add: word_unat_eq_iff unat_of_nat)
qed

lemma cmos_read_eq: "cmos_read dev reg s = (ucast (dv_in dev (outs s @ [(0x70, ucast reg)]) 0x71 (nin s)), s\<lparr>outs := outs s @ [(0x70, ucast reg)], nin := nin s + 1\<rparr>)"
  by (simp add: cmos_read_def inb_def outb_def microdelay_def)

definition shown :: "bool \<Rightarrow> (uchar \<Rightarrow> nat) \<Rightarrow> uchar \<Rightarrow> uint" where
  "shown binary d r = ucast (of_nat (if binary then d r else bcd (d r)) :: uchar)"

lemma fill_rtcdate_at:
  assumes "clock_at dev binary d"
  shows "\<exists>o'. fill_rtcdate dev s = (\<lparr>r_second = shown binary d 0, r_minute = shown binary d 2, r_hour = shown binary d 4, r_day = shown binary d 7,
    r_month = shown binary d 8, r_year = shown binary d 9\<rparr>, s\<lparr>outs := o', nin := nin s + 6\<rparr>)"
proof -
  have c: "dv_in dev (tr @ [(0x70, r)]) 0x71 n = of_nat (if binary then d r else bcd (d r))" if "r \<in> {0, 2, 4, 7, 8, 9}" for tr n r
    using assms that unfolding clock_at_def by blast
  show ?thesis
    by (rule exI[of _ "outs s @ [(0x70, 0), (0x70, 2), (0x70, 4), (0x70, 7), (0x70, 8), (0x70, 9)]"])
      (simp add: fill_rtcdate_def cmos_read_eq c[of 0] c[of 2] c[of 4] c[of 7] c[of 8] c[of 9] shown_def Let_def)
qed

lemma cmostime_loop_at:
  assumes c: "clock_at dev binary d"
  shows "\<exists>s'. cmostime_loop dev s = Some (\<lparr>r_second = shown binary d 0, r_minute = shown binary d 2, r_hour = shown binary d 4, r_day = shown binary d 7,
    r_month = shown binary d 8, r_year = shown binary d 9\<rparr>, s')"
proof -
  obtain N where N: "\<And>tr n. n \<ge> N \<Longrightarrow> \<not> bit (dv_in dev (tr @ [(0x70, 0x0A)]) 0x71 n) 7" using c unfolding clock_at_def by blast
  show ?thesis
  proof (induction "N - nin s" arbitrary: s rule: less_induct)
    case less
    obtain o1 where f1: "fill_rtcdate dev s = (\<lparr>r_second = shown binary d 0, r_minute = shown binary d 2, r_hour = shown binary d 4, r_day = shown binary d 7,
      r_month = shown binary d 8, r_year = shown binary d 9\<rparr>, s\<lparr>outs := o1, nin := nin s + 6\<rparr>)" using fill_rtcdate_at[OF c] by blast
    let ?a = "dv_in dev (o1 @ [(0x70, 0x0A)]) 0x71 (nin s + 6)" and ?s2 = "s\<lparr>outs := o1 @ [(0x70, 0x0A)], nin := 7 + nin s\<rparr>"
    have u: "ucast ?a AND (0x80 :: uint) = 0 \<longleftrightarrow> \<not> bit ?a 7"
      using and_exp_eq_0_iff_not_bit[of "ucast ?a :: uint" 7] by (simp add: bit_unsigned_iff)
    show ?case
    proof (cases "bit ?a 7")
      case True
      then have "\<not> nin s + 6 \<ge> N" using N by blast
      moreover have "cmostime_loop dev s = cmostime_loop dev ?s2" using True u f1 by (subst cmostime_loop.simps) (simp add: cmos_read_eq Let_def)
      ultimately show ?thesis using less[of ?s2] by simp
    next
      case False
      then show ?thesis using u f1 fill_rtcdate_at[OF c, of ?s2] by (subst cmostime_loop.simps) (auto simp: cmos_read_eq Let_def)
    qed
  qed
qed

text \<open>C25: when the clock stands at a date, \<^verbatim>\<open>cmostime\<close> returns, with that date, whether the clock counts in binary or in decimal digits, and the year in this century.\<close>

theorem cmostime_reads:
  assumes c: "clock_at dev binary d" and d: "\<forall>r. d r < 100"
  shows "\<exists>s'. cmostime dev s = Some (\<lparr>r_second = of_nat (d 0), r_minute = of_nat (d 2), r_hour = of_nat (d 4), r_day = of_nat (d 7),
    r_month = of_nat (d 8), r_year = 2000 + of_nat (d 9)\<rparr>, s')"
proof -
  let ?b = "dv_in dev (outs s @ [(0x70, 0x0B)]) 0x71 (nin s)" and ?s1 = "s\<lparr>outs := outs s @ [(0x70, 0x0B)], nin := nin s + 1\<rparr>"
  obtain s' where s': "cmostime_loop dev ?s1 = Some (\<lparr>r_second = shown binary d 0, r_minute = shown binary d 2, r_hour = shown binary d 4, r_day = shown binary d 7,
    r_month = shown binary d 8, r_year = shown binary d 9\<rparr>, s')" using cmostime_loop_at[OF c] by blast
  have "bit ?b 2 = binary" using c unfolding clock_at_def by blast
  then have sb: "ucast ?b AND (4 :: uint) = 0 \<longleftrightarrow> \<not> binary"
    using and_exp_eq_0_iff_not_bit[of "ucast ?b :: uint" 2] by (simp add: bit_unsigned_iff)
  have "CONV (shown False d r) = of_nat (d r)" "shown True d r = of_nat (d r)" for r
    using conv_bcd d less_trans[OF spec[OF d, of r]] by (auto simp: shown_def unsigned_of_nat take_bit_nat_eq_self)
  then show ?thesis using s' sb by (cases binary) (simp_all add: cmostime_def cmos_read_eq Let_def)
qed

theorem cmostime_reads_witness:
  "\<exists>s'. cmostime \<lparr>dv_in = (\<lambda>tr _ _. if snd (last tr) \<in> {0, 2, 4, 7, 8, 9} then 0x12 else 0), dv_data = (\<lambda>_ _. 0)\<rparr> \<lparr>outs = [], nin = 0\<rparr> =
     Some (\<lparr>r_second = 12, r_minute = 12, r_hour = 12, r_day = 12, r_month = 12, r_year = 2012\<rparr>, s')"
  using cmostime_reads[of "\<lparr>dv_in = (\<lambda>tr _ _. if snd (last tr) \<in> {0, 2, 4, 7, 8, 9} then 0x12 else 0), dv_data = (\<lambda>_ _. 0)\<rparr>" False "\<lambda>_. 12" "\<lparr>outs = [], nin = 0\<rparr>"]
  by (simp add: clock_at_def bcd_def)

section \<open>Interrupt routing and processor numbers\<close>

lemma table_reg:
  assumes "i < 256" "j < 256"
  shows "REG_TABLE + 2 * of_nat i = REG_TABLE + 2 * of_nat j \<longleftrightarrow> i = j" "REG_TABLE + 2 * of_nat i + 1 = REG_TABLE + 2 * of_nat j + 1 \<longleftrightarrow> i = j"
    "REG_TABLE + 2 * of_nat i \<noteq> REG_TABLE + 2 * of_nat j + 1" "REG_TABLE + 2 * of_nat j + 1 \<noteq> REG_TABLE + 2 * of_nat i"
proof -
  have u: "unat (REG_TABLE + 2 * of_nat k) = 16 + 2 * k" "unat (REG_TABLE + 2 * of_nat k + 1) = 17 + 2 * k" if "k < 256" for k
    using that by (simp_all add: unat_word_ariths unat_of_nat)
  show "REG_TABLE + 2 * of_nat i = REG_TABLE + 2 * of_nat j \<longleftrightarrow> i = j" "REG_TABLE + 2 * of_nat i + 1 = REG_TABLE + 2 * of_nat j + 1 \<longleftrightarrow> i = j"
    unfolding word_unat_eq_iff u[OF assms(1)] u[OF assms(2)] by simp_all
  show "REG_TABLE + 2 * of_nat i \<noteq> REG_TABLE + 2 * of_nat j + 1" "REG_TABLE + 2 * of_nat j + 1 \<noteq> REG_TABLE + 2 * of_nat i"
    unfolding word_unat_eq_iff u[OF assms(1)] u[OF assms(2)] by presburger+
qed

lemma ioapicinit_masks:
  assumes "n \<le> 256" "i < n"
  shows "io_regs (ioapicinit_loop n s) (REG_TABLE + 2 * of_nat i) = 0x10000 OR (T_IRQ0 + of_nat i)" "io_regs (ioapicinit_loop n s) (REG_TABLE + 2 * of_nat i + 1) = 0"
  using assms
proof (induction n)
  case (Suc n)
  {
    case 1
    then show ?case using Suc.IH(1) table_reg[of i n] by (cases "i = n") (simp_all add: Let_def ioapicwrite_def del: REG_TABLE_def T_IRQ0_def)
  next
    case 2
    then show ?case using Suc.IH(2) table_reg[of i n] table_reg[of n i] by (cases "i = n") (simp_all add: Let_def ioapicwrite_def del: REG_TABLE_def T_IRQ0_def)
  }
qed simp_all

text \<open>\<^verbatim>\<open>mycpu\<close> returns the entry of the processor whose identifier the local controller reports, when the identifiers of the table differ.\<close>

lemma ucast_inj: "ucast x = (ucast y :: uint) \<Longrightarrow> x = y" for x y :: uchar
proof (rule bit_word_eqI)
  fix n assume e: "ucast x = (ucast y :: uint)" and n: "n < LENGTH(8)"
  have "bit (ucast x :: uint) n = bit (ucast y :: uint) n" by (simp only: e)
  then show "bit x n = bit y n" using n by (simp add: bit_unsigned_iff)
qed

lemma mycpu_own:
  assumes "lapicid dev s = (a, s1)" "i < ncpu s" "ucast (cpus s i) = a" "inj_on (cpus s) {..<ncpu s}"
  shows "mycpu_index dev False s = Inr (i, s1)"
proof -
  have k: "cpus s1 = cpus s" "ncpu s1 = ncpu s" using assms(1) by (auto simp: lapicid_def lapicr_def split: if_splits)
  have "find (\<lambda>j. ucast (cpus s j) = a) [0..<ncpu s] = Some i"
    unfolding find_Some_iff
  proof (intro exI[of _ i] conjI allI impI)
    fix j assume "j < i"
    then have "cpus s j \<noteq> cpus s i" using assms(2,4) by (auto simp: inj_on_def)
    then show "ucast (cpus s ([0..<ncpu s] ! j)) \<noteq> a" using assms(2,3) \<open>j < i\<close> ucast_inj by auto
  qed (use assms in simp_all)
  then show ?thesis using assms(1) k by (simp add: mycpu_index_def)
qed

end
