(* ===== verification/Sched.thy ===== *)
theory Sched
  imports Proc
begin

text \<open>
  The scheduler of \<^verbatim>\<open>proc.c\<close> and the context switch of \<^verbatim>\<open>swtch.S\<close>, on all CPUs at once.

  Every CPU is either in its scheduler loop or runs the kernel code of one process; \<open>kstep\<close> is one step
  of one CPU, from one operation on a shared lock to the next, and \<open>sched_step\<close> interleaves the CPUs.
  Two locks are shared: the lock of the process table, which the scheduler and a process
  hand to each other across the switch, and the lock of a condition that processes wait for with
  \<^verbatim>\<open>sleep\<close> and that others signal with \<^verbatim>\<open>wakeup\<close>, the way pipes, the log, the disk driver and
  the console do.  That \<^verbatim>\<open>acquire\<close> gives a lock to one CPU at a time is shown in \<^verbatim>\<open>Spinlock\<close>; here an
  acquire that finds the lock taken leaves the state as it is.
\<close>

section \<open>The context switch\<close>

text \<open>The registers \<^verbatim>\<open>swtch\<close> works on; \<open>r_eip\<close> is the instruction pointer after its \<^verbatim>\<open>ret\<close>.\<close>

record regs =
  r_edi :: uint
  r_esi :: uint
  r_ebx :: uint
  r_ebp :: uint
  r_esp :: uint
  r_eax :: uint
  r_edx :: uint
  r_eip :: uint

definition pushl :: "uint \<Rightarrow> regs \<times> memory \<Rightarrow> regs \<times> memory" where
  "pushl v = (\<lambda>(r, m). (r\<lparr>r_esp := r_esp r - 4\<rparr>, store32 m (r_esp r - 4) v))"

definition popl :: "(uint \<Rightarrow> regs \<Rightarrow> regs) \<Rightarrow> regs \<times> memory \<Rightarrow> regs \<times> memory" where
  "popl f = (\<lambda>(r, m). (f (load32 m (r_esp r)) (r\<lparr>r_esp := r_esp r + 4\<rparr>), m))"

definition swtch :: "regs \<times> memory \<Rightarrow> regs \<times> memory" where
  "swtch = (\<lambda>(r, m).
     let r = r\<lparr>r_eax := load32 m (r_esp r + 4)\<rparr>;
         r = r\<lparr>r_edx := load32 m (r_esp r + 8)\<rparr>;
         (r, m) = pushl (r_ebp r) (r, m);
         (r, m) = pushl (r_ebx r) (r, m);
         (r, m) = pushl (r_esi r) (r, m);
         (r, m) = pushl (r_edi r) (r, m);
         m = store32 m (r_eax r) (r_esp r);
         r = r\<lparr>r_esp := r_edx r\<rparr>
     in popl (\<lambda>v. r_eip_update (\<lambda>_. v))
          (popl (\<lambda>v. r_ebp_update (\<lambda>_. v))
          (popl (\<lambda>v. r_ebx_update (\<lambda>_. v))
          (popl (\<lambda>v. r_esi_update (\<lambda>_. v))
          (popl (\<lambda>v. r_edi_update (\<lambda>_. v)) (r, m))))))"

section \<open>The machine\<close>

datatype lockid = Ptable_lock | Cond_lock

text \<open>Where a process is in the kernel.  After \<open>Yield1\<close>, \<open>Sleep2\<close>, \<open>Wait1\<close> and \<open>Exit1\<close> it is switched away; \<open>Forkret\<close>,
  \<open>Yield2\<close>, \<open>Sleep3\<close> and \<open>Wait2\<close> are where it goes on when it is switched to.\<close>

datatype kpc = User | Forkret | Yield0 | Yield1 | Yield2
  | Cond0 | Cond1 | Sleep0 | Sleep1 | Sleep2 | Sleep3 | Sleep4
  | Signal0 | Signal1 | Signal2 | Signal3
  | Wait0 | Wait1 | Wait2 | Kill0 int | Fork0 uint | Fork1 nat uint | Exit0 | Exit1 | Exit2

text \<open>Where a CPU is in \<^verbatim>\<open>scheduler\<close>: at the top of the loop, about to look at a slot of the table, back from
  the process of a slot, or inside the call of \<^verbatim>\<open>swtch\<close> that runs the process of a slot.\<close>

datatype cpu_at = Top | Scan nat | Back nat | In nat

record mach = ptable +
  m_cpus :: "nat \<Rightarrow> cpu"
  m_locks :: "lockid \<Rightarrow> spinlock"
  m_at :: "nat \<Rightarrow> cpu_at"
  m_pc :: "nat \<Rightarrow> kpc"
  m_intena :: "nat \<Rightarrow> bool"
  m_cond :: bool

definition goto :: "nat \<Rightarrow> kpc \<Rightarrow> mach \<Rightarrow> mach" where
  "goto j q s = s\<lparr>m_pc := (m_pc s)(j := q)\<rparr>"

definition moveto :: "nat \<Rightarrow> cpu_at \<Rightarrow> mach \<Rightarrow> mach" where
  "moveto i a s = s\<lparr>m_at := (m_at s)(i := a)\<rparr>"

definition put_cpu :: "nat \<Rightarrow> cpu \<Rightarrow> mach \<Rightarrow> mach" where
  "put_cpu i c s = s\<lparr>m_cpus := (m_cpus s)(i := c)\<rparr>"

definition put_lock :: "lockid \<Rightarrow> spinlock \<Rightarrow> mach \<Rightarrow> mach" where
  "put_lock l k s = s\<lparr>m_locks := (m_locks s)(l := k)\<rparr>"

text \<open>An operation on the CPU it runs on.\<close>

definition on_cpu :: "nat \<Rightarrow> (mach \<Rightarrow> mach res) \<Rightarrow> mach \<Rightarrow> mach res" where
  "on_cpu i f s = bindr (f (s\<lparr>mycpu := m_cpus s i\<rparr>)) (\<lambda>s. Inr (put_cpu i (mycpu s) s))"

definition acquire :: "lockid \<Rightarrow> nat \<Rightarrow> mach \<Rightarrow> mach option res" where
  "acquire l i s =
     bindr (holding i (m_locks s l) (pushcli (m_cpus s i))) (\<lambda>(h, c).
     if h then Inl (Panic ''acquire'')
     else if lk_locked (m_locks s l) then Inr None
     else Inr (Some (put_lock l \<lparr>lk_locked = True, lk_cpu = Some i\<rparr> (put_cpu i c s))))"

definition release :: "lockid \<Rightarrow> nat \<Rightarrow> mach \<Rightarrow> mach res" where
  "release l i s =
     bindr (holding i (m_locks s l) (m_cpus s i)) (\<lambda>(h, c).
     if \<not> h then Inl (Panic ''release'')
     else bindr (popcli c) (\<lambda>c. Inr (put_lock l \<lparr>lk_locked = False, lk_cpu = None\<rparr> (put_cpu i c s))))"

text \<open>The rest of a step once the lock is there.\<close>

definition with_lock :: "lockid \<Rightarrow> nat \<Rightarrow> (mach \<Rightarrow> mach res) \<Rightarrow> mach \<Rightarrow> mach res" where
  "with_lock l i f s = bindr (acquire l i s) (\<lambda>r. case r of None \<Rightarrow> Inr s | Some s \<Rightarrow> f s)"

section \<open>The scheduler\<close>

definition scheduler :: "nat \<Rightarrow> mach \<Rightarrow> mach res" where
  "scheduler i s = (case m_at s i of
     Top \<Rightarrow> with_lock Ptable_lock i (\<lambda>s. Inr (moveto i (Scan 0) s)) (put_cpu i ((m_cpus s i)\<lparr>c_if := True\<rparr>) s)
   | Scan p \<Rightarrow>
       if p < NPROC then
         if p_state (procs s p) \<noteq> RUNNABLE then Inr (moveto i (Scan (Suc p)) s)
         else
           bindr (on_cpu i (switchuvm (Some p)) (put_cpu i ((m_cpus s i)\<lparr>c_proc := Some p\<rparr>) s)) (\<lambda>s.
           Inr (moveto i (In p) (upd_proc p (\<lambda>x. x\<lparr>p_state := RUNNING\<rparr>) s)))
       else bindr (release Ptable_lock i s) (\<lambda>s. Inr (moveto i Top s))
   | Back p \<Rightarrow>
       bindr (on_cpu i (\<lambda>s. Inr (switchkvm s)) s) (\<lambda>s.
       Inr (moveto i (Scan (Suc p)) (put_cpu i ((m_cpus s i)\<lparr>c_proc := None\<rparr>) s)))
   | In p \<Rightarrow> Inr s)"

text \<open>\<^verbatim>\<open>sched\<close> up to the switch, after which process \<open>j\<close> is to go on at \<open>q\<close>; and what it does then.\<close>

definition sched :: "nat \<Rightarrow> nat \<Rightarrow> kpc \<Rightarrow> mach \<Rightarrow> mach res" where
  "sched i j q s =
     bindr (holding i (m_locks s Ptable_lock) (m_cpus s i)) (\<lambda>(h, c).
     if \<not> h then Inl (Panic ''sched ptable.lock'')
     else if c_ncli c \<noteq> 1 then Inl (Panic ''sched locks'')
     else if p_state (procs s j) = RUNNING then Inl (Panic ''sched running'')
     else if c_if c then Inl (Panic ''sched interruptible'')
     else Inr (moveto i (Back j) (goto j q ((put_cpu i c s)\<lparr>m_intena := (m_intena s)(j := c_intena c)\<rparr>))))"

definition sched_return :: "nat \<Rightarrow> nat \<Rightarrow> mach \<Rightarrow> mach" where
  "sched_return i j s = put_cpu i ((m_cpus s i)\<lparr>c_intena := m_intena s j\<rparr>) s"

section \<open>Processes in the kernel\<close>

definition forkret_step :: "nat \<Rightarrow> nat \<Rightarrow> mach \<Rightarrow> mach res" where
  "forkret_step i j s = bindr (release Ptable_lock i s) (\<lambda>s. Inr (goto j User s))"

definition yield_lock :: "nat \<Rightarrow> nat \<Rightarrow> mach \<Rightarrow> mach res" where
  "yield_lock i j = with_lock Ptable_lock i (\<lambda>s. Inr (goto j Yield1 s))"

definition yield_sched :: "nat \<Rightarrow> nat \<Rightarrow> mach \<Rightarrow> mach res" where
  "yield_sched i j s = sched i j Yield2 (upd_proc j (\<lambda>x. x\<lparr>p_state := RUNNABLE\<rparr>) s)"

definition yield_return :: "nat \<Rightarrow> nat \<Rightarrow> mach \<Rightarrow> mach res" where
  "yield_return i j s = bindr (release Ptable_lock i (sched_return i j s)) (\<lambda>s. Inr (goto j User s))"

text \<open>Waiting for the condition: under its lock, \<^verbatim>\<open>while(!cond) sleep(chan, lk)\<close>, then the condition is used up.\<close>

definition cond_lock :: "nat \<Rightarrow> nat \<Rightarrow> mach \<Rightarrow> mach res" where
  "cond_lock i j = with_lock Cond_lock i (\<lambda>s. Inr (goto j Cond1 s))"

definition cond_test :: "nat \<Rightarrow> nat \<Rightarrow> mach \<Rightarrow> mach res" where
  "cond_test i j s =
     (if m_cond s then bindr (release Cond_lock i (s\<lparr>m_cond := False\<rparr>)) (\<lambda>s. Inr (goto j User s))
      else Inr (goto j Sleep0 s))"

definition sleep_lock :: "nat \<Rightarrow> nat \<Rightarrow> mach \<Rightarrow> mach res" where
  "sleep_lock i j = with_lock Ptable_lock i (\<lambda>s. Inr (goto j Sleep1 s))"

definition sleep_unlock :: "nat \<Rightarrow> nat \<Rightarrow> mach \<Rightarrow> mach res" where
  "sleep_unlock i j s = bindr (release Cond_lock i s) (\<lambda>s. Inr (goto j Sleep2 s))"

definition sleep_sched :: "nat \<Rightarrow> nat \<Rightarrow> chan \<Rightarrow> kpc \<Rightarrow> mach \<Rightarrow> mach res" where
  "sleep_sched i j ch q s = sched i j q (upd_proc j (\<lambda>x. x\<lparr>p_chan := Some ch, p_state := SLEEPING\<rparr>) s)"

definition sleep_return :: "nat \<Rightarrow> nat \<Rightarrow> mach \<Rightarrow> mach" where
  "sleep_return i j s = upd_proc j (\<lambda>x. x\<lparr>p_chan := None\<rparr>) (sched_return i j s)"

definition sleep_release :: "nat \<Rightarrow> nat \<Rightarrow> mach \<Rightarrow> mach res" where
  "sleep_release i j s = bindr (release Ptable_lock i (sleep_return i j s)) (\<lambda>s. Inr (goto j Sleep4 s))"

definition signal_lock :: "nat \<Rightarrow> nat \<Rightarrow> mach \<Rightarrow> mach res" where
  "signal_lock i j = with_lock Cond_lock i (\<lambda>s. Inr (goto j Signal1 s))"

text \<open>A section under the lock of the process table.\<close>

definition ptable_section :: "nat \<Rightarrow> nat \<Rightarrow> (mach \<Rightarrow> mach \<times> kpc) \<Rightarrow> mach \<Rightarrow> mach res" where
  "ptable_section i j f = with_lock Ptable_lock i (\<lambda>s.
     let (s, q) = f s in bindr (release Ptable_lock i s) (\<lambda>s. Inr (goto j q s)))"

definition signal_wakeup :: "chan \<Rightarrow> nat \<Rightarrow> nat \<Rightarrow> mach \<Rightarrow> mach res" where
  "signal_wakeup ch i j = ptable_section i j (\<lambda>s. (wakeup1 ch s, Signal3))"

definition signal_unlock :: "nat \<Rightarrow> nat \<Rightarrow> mach \<Rightarrow> mach res" where
  "signal_unlock i j s = bindr (release Cond_lock i s) (\<lambda>s. Inr (goto j User s))"

text \<open>
  \<^verbatim>\<open>wait\<close> sleeps with the lock of the process table.  What it does with the pages of an exited child is
  in \<^verbatim>\<open>Proc\<close>; here the child's slot becomes free.
\<close>

definition reap :: "nat \<Rightarrow> mach \<Rightarrow> mach" where
  "reap p = upd_proc p (\<lambda>x. x\<lparr>p_kstack := 0, p_pid := 0, p_parent := None, p_name := (p_name x)(0 := 0), p_killed := False,
     p_state := UNUSED\<rparr>)"

definition wait_lock :: "nat \<Rightarrow> nat \<Rightarrow> mach \<Rightarrow> mach res" where
  "wait_lock i j = with_lock Ptable_lock i (\<lambda>s. Inr (goto j Wait1 s))"

definition wait_scan :: "nat \<Rightarrow> nat \<Rightarrow> mach \<Rightarrow> mach res" where
  "wait_scan i j s =
     (let kid = (\<lambda>p. p_parent (procs s p) = Some j) in
      case List.find (\<lambda>p. kid p \<and> p_state (procs s p) = ZOMBIE) [0..<NPROC] of
        Some p \<Rightarrow> bindr (release Ptable_lock i (reap p s)) (\<lambda>s. Inr (goto j User s))
      | None \<Rightarrow>
          if list_all (\<lambda>p. \<not> kid p) [0..<NPROC] \<or> p_killed (procs s j)
          then bindr (release Ptable_lock i s) (\<lambda>s. Inr (goto j User s))
          else sleep_sched i j (ChanProc j) Wait2 s)"

definition kill_section :: "int \<Rightarrow> nat \<Rightarrow> nat \<Rightarrow> mach \<Rightarrow> mach res" where
  "kill_section pid i j = ptable_section i j (\<lambda>s. (snd (kill pid s), User))"

text \<open>
  \<^verbatim>\<open>fork\<close>: a slot, then, with the page directory \<open>d\<close> made for it, the child becomes runnable.  Its page
  directory and its parent are set before the lock is taken; no other code reads them of an embryo, only the
  parent's own \<^verbatim>\<open>wait\<close> and \<^verbatim>\<open>exit\<close> do, so they are set here with its state.
\<close>

definition fork_alloc :: "uint \<Rightarrow> nat \<Rightarrow> nat \<Rightarrow> mach \<Rightarrow> mach res" where
  "fork_alloc d i j = ptable_section i j (\<lambda>s. case allocproc s of (None, s) \<Rightarrow> (s, User) | (Some q, s) \<Rightarrow> (s, Fork1 q d))"

definition fork_publish :: "nat \<Rightarrow> uint \<Rightarrow> nat \<Rightarrow> nat \<Rightarrow> mach \<Rightarrow> mach res" where
  "fork_publish q d i j = ptable_section i j (\<lambda>s.
     (goto q Forkret (upd_proc q (\<lambda>x. x\<lparr>p_pgdir := d, p_parent := Some j, p_state := RUNNABLE\<rparr>) s), User))"

definition exit_lock :: "nat \<Rightarrow> nat \<Rightarrow> mach \<Rightarrow> mach res" where
  "exit_lock i j s =
     (if initproc s = Some j then Inl (Panic ''init exiting'') else with_lock Ptable_lock i (\<lambda>s. Inr (goto j Exit1 s)) s)"

definition exit_sched :: "nat \<Rightarrow> nat \<Rightarrow> mach \<Rightarrow> mach res" where
  "exit_sched i j s =
     (let s = wakeup_proc (p_parent (procs s j)) s;
          s = reparent NPROC 0 (s\<lparr>cur := j\<rparr>)
      in sched i j Exit2 (upd_proc j (\<lambda>x. x\<lparr>p_state := ZOMBIE\<rparr>) s))"

definition proc_step :: "chan \<Rightarrow> nat \<Rightarrow> nat \<Rightarrow> mach \<Rightarrow> mach res" where
  "proc_step ch i j s = (case m_pc s j of
     User \<Rightarrow> Inr s
   | Forkret \<Rightarrow> forkret_step i j s
   | Yield0 \<Rightarrow> yield_lock i j s | Yield1 \<Rightarrow> yield_sched i j s | Yield2 \<Rightarrow> yield_return i j s
   | Cond0 \<Rightarrow> cond_lock i j s | Cond1 \<Rightarrow> cond_test i j s
   | Sleep0 \<Rightarrow> sleep_lock i j s | Sleep1 \<Rightarrow> sleep_unlock i j s | Sleep2 \<Rightarrow> sleep_sched i j ch Sleep3 s
   | Sleep3 \<Rightarrow> sleep_release i j s | Sleep4 \<Rightarrow> cond_lock i j s
   | Signal0 \<Rightarrow> signal_lock i j s | Signal1 \<Rightarrow> Inr (goto j Signal2 (s\<lparr>m_cond := True\<rparr>))
   | Signal2 \<Rightarrow> signal_wakeup ch i j s | Signal3 \<Rightarrow> signal_unlock i j s
   | Wait0 \<Rightarrow> wait_lock i j s | Wait1 \<Rightarrow> wait_scan i j s | Wait2 \<Rightarrow> Inr (goto j Wait1 (sleep_return i j s))
   | Kill0 pid \<Rightarrow> kill_section pid i j s
   | Fork0 d \<Rightarrow> fork_alloc d i j s | Fork1 q d \<Rightarrow> fork_publish q d i j s
   | Exit0 \<Rightarrow> exit_lock i j s | Exit1 \<Rightarrow> exit_sched i j s | Exit2 \<Rightarrow> Inl (Panic ''zombie exit''))"

definition kstep :: "chan \<Rightarrow> nat \<Rightarrow> mach \<Rightarrow> mach res" where
  "kstep ch i s = (case m_at s i of In j \<Rightarrow> proc_step ch i j s | _ \<Rightarrow> scheduler i s)"

text \<open>
  A process outside these operations may start any of them, and its CPU's interrupts may be on or off.
  The first process does not exit.
\<close>

definition entry :: "nat option \<Rightarrow> nat \<Rightarrow> kpc \<Rightarrow> bool" where
  "entry init j q \<longleftrightarrow> q \<in> {Yield0, Cond0, Signal0, Wait0} \<or> q = Exit0 \<and> init \<noteq> Some j \<or> (\<exists>pid. q = Kill0 pid) \<or> (\<exists>d. d \<noteq> 0 \<and> q = Fork0 d)"

inductive sched_step :: "chan \<Rightarrow> mach \<Rightarrow> mach \<Rightarrow> bool" for ch where
  run: "i < NCPU \<Longrightarrow> kstep ch i s = Inr t \<Longrightarrow> sched_step ch s t"
| call: "i < NCPU \<Longrightarrow> m_at s i = In j \<Longrightarrow> m_pc s j = User \<Longrightarrow> entry (initproc s) j q \<Longrightarrow> sched_step ch s (goto j q s)"
| sti_cli: "i < NCPU \<Longrightarrow> m_at s i = In j \<Longrightarrow> m_pc s j = User \<Longrightarrow> sched_step ch s (put_cpu i ((m_cpus s i)\<lparr>c_if := b\<rparr>) s)"

section \<open>Invariants\<close>

text \<open>Where a process on a CPU holds which lock.\<close>

definition zone :: "lockid \<Rightarrow> kpc \<Rightarrow> bool" where
  "zone l q = (case l of
     Ptable_lock \<Rightarrow> q \<in> {Forkret, Yield1, Yield2, Sleep1, Sleep2, Sleep3, Wait1, Wait2, Exit1, Exit2}
   | Cond_lock \<Rightarrow> q \<in> {Cond1, Sleep0, Sleep1, Signal1, Signal2, Signal3})"

type_synonym places = "nat \<Rightarrow> cpu_at"
type_synonym pcs = "nat \<Rightarrow> kpc"

definition holder :: "lockid \<Rightarrow> places \<Rightarrow> pcs \<Rightarrow> nat \<Rightarrow> bool" where
  "holder l at pc i = (case at i of Top \<Rightarrow> False | In j \<Rightarrow> zone l (pc j) | _ \<Rightarrow> l = Ptable_lock)"

definition runs :: "places \<Rightarrow> nat \<Rightarrow> nat \<Rightarrow> bool" where
  "runs at i j \<longleftrightarrow> i < NCPU \<and> at i = In j"

text \<open>A CPU counts the locks it holds, and knows the process it runs.\<close>

definition cpus_ok :: "places \<Rightarrow> pcs \<Rightarrow> (nat \<Rightarrow> cpu) \<Rightarrow> bool" where
  "cpus_ok at pc cs \<longleftrightarrow> (\<forall>i<NCPU. cpu_ok (cs i) \<and>
     c_ncli (cs i) = of_bool (holder Ptable_lock at pc i) + of_bool (holder Cond_lock at pc i) \<and>
     (\<forall>j. at i = In j \<longrightarrow> c_proc (cs i) = Some j))"

text \<open>A lock is taken exactly by the CPU that is where the code holds it.\<close>

definition locks_ok :: "places \<Rightarrow> pcs \<Rightarrow> (lockid \<Rightarrow> spinlock) \<Rightarrow> bool" where
  "locks_ok at pc L \<longleftrightarrow> (\<forall>l. (\<forall>i<NCPU. holder l at pc i \<longleftrightarrow> lk_cpu (L l) = Some i) \<and>
     (lk_locked (L l) \<longleftrightarrow> lk_cpu (L l) \<noteq> None) \<and> (\<forall>i. lk_cpu (L l) = Some i \<longrightarrow> i < NCPU))"

text \<open>What the table says of a process fits where its code stands.\<close>

definition proc_fits :: "chan \<Rightarrow> nat \<Rightarrow> proc \<Rightarrow> kpc \<Rightarrow> bool" where
  "proc_fits ch j p q \<longleftrightarrow>
     (p_state p \<in> {RUNNABLE, SLEEPING, RUNNING} \<longrightarrow> p_kstack p \<noteq> 0 \<and> p_pgdir p \<noteq> 0) \<and>
     (p_state p = RUNNABLE \<longrightarrow> q \<in> {Forkret, Yield2, Sleep3, Wait2}) \<and>
     (p_state p = SLEEPING \<longrightarrow> q = Sleep3 \<and> p_chan p = Some ch \<or> q = Wait2 \<and> p_chan p = Some (ChanProc j))"

definition table_ok :: "chan \<Rightarrow> places \<Rightarrow> pcs \<Rightarrow> (nat \<Rightarrow> proc) \<Rightarrow> bool" where
  "table_ok ch at pc ps \<longleftrightarrow> (\<forall>i j. runs at i j \<longrightarrow> j < NPROC \<and> p_state (ps j) = RUNNING \<and> pc j \<noteq> Exit2) \<and>
     (\<forall>i i' j. runs at i j \<longrightarrow> runs at i' j \<longrightarrow> i = i') \<and> (\<forall>j<NPROC. proc_fits ch j (ps j) (pc j))"

text \<open>A slot that is being filled belongs to one \<^verbatim>\<open>fork\<close>.\<close>

definition forks_ok :: "places \<Rightarrow> pcs \<Rightarrow> (nat \<Rightarrow> proc) \<Rightarrow> bool" where
  "forks_ok at pc ps \<longleftrightarrow>
     (\<forall>i k q d. runs at i k \<longrightarrow> pc k = Fork1 q d \<longrightarrow> q < NPROC \<and> p_state (ps q) = EMBRYO \<and> p_kstack (ps q) \<noteq> 0 \<and> d \<noteq> 0) \<and>
     (\<forall>i k i' k' q d d'. runs at i k \<longrightarrow> runs at i' k' \<longrightarrow> pc k = Fork1 q d \<longrightarrow> pc k' = Fork1 q d' \<longrightarrow> k = k') \<and>
     (\<forall>i k d. runs at i k \<longrightarrow> pc k = Fork0 d \<longrightarrow> d \<noteq> 0)"

text \<open>A process that sleeps for the condition, or is about to, although it holds will be woken: a signaller has yet to call
  \<^verbatim>\<open>wakeup\<close>.\<close>

definition waiting :: "chan \<Rightarrow> places \<Rightarrow> pcs \<Rightarrow> (nat \<Rightarrow> proc) \<Rightarrow> nat \<Rightarrow> bool" where
  "waiting ch at pc ps j \<longleftrightarrow> j < NPROC \<and>
     (p_state (ps j) = SLEEPING \<and> p_chan (ps j) = Some ch \<or> (\<exists>i. runs at i j \<and> pc j = Sleep2))"

definition cond_ok :: "chan \<Rightarrow> places \<Rightarrow> pcs \<Rightarrow> (nat \<Rightarrow> proc) \<Rightarrow> bool \<Rightarrow> bool" where
  "cond_ok ch at pc ps b \<longleftrightarrow> (\<forall>i j. runs at i j \<longrightarrow> pc j \<in> {Sleep0, Sleep1} \<longrightarrow> \<not> b) \<and>
     (b \<longrightarrow> (\<exists>j. waiting ch at pc ps j) \<longrightarrow> (\<exists>i k. runs at i k \<and> pc k = Signal2))"

text \<open>No parent sleeps in \<^verbatim>\<open>wait\<close> while a child of it has exited.\<close>

definition zombies_ok :: "(nat \<Rightarrow> proc) \<Rightarrow> bool" where
  "zombies_ok ps \<longleftrightarrow> (\<forall>q<NPROC. \<forall>j<NPROC. p_state (ps q) = ZOMBIE \<longrightarrow> p_parent (ps q) = Some j \<longrightarrow>
     \<not> (p_state (ps j) = SLEEPING \<and> p_chan (ps j) = Some (ChanProc j)))"

text \<open>No process is its own parent, and the first process has no parent and does not exit.\<close>

definition parents_ok :: "nat option \<Rightarrow> places \<Rightarrow> pcs \<Rightarrow> (nat \<Rightarrow> proc) \<Rightarrow> bool" where
  "parents_ok init at pc ps \<longleftrightarrow> (\<forall>j<NPROC. p_parent (ps j) \<noteq> Some j) \<and>
     (\<forall>k. init = Some k \<longrightarrow> k < NPROC \<and> p_parent (ps k) = None \<and> p_state (ps k) \<in> {RUNNABLE, SLEEPING, RUNNING}) \<and>
     (\<forall>i j. runs at i j \<longrightarrow> pc j \<in> {Exit0, Exit1} \<longrightarrow> init \<noteq> Some j)"

definition sched_inv :: "chan \<Rightarrow> mach \<Rightarrow> bool" where
  "sched_inv ch s \<longleftrightarrow> cpus_ok (m_at s) (m_pc s) (m_cpus s) \<and> locks_ok (m_at s) (m_pc s) (m_locks s) \<and>
     table_ok ch (m_at s) (m_pc s) (procs s) \<and> forks_ok (m_at s) (m_pc s) (procs s) \<and>
     cond_ok ch (m_at s) (m_pc s) (procs s) (m_cond s) \<and> zombies_ok (procs s) \<and>
     parents_ok (initproc s) (m_at s) (m_pc s) (procs s)"

section \<open>Locks\<close>

lemma acquire_cases:
  assumes "cpu_ok (m_cpus s i)" "lk_cpu (m_locks s l) \<noteq> Some i"
  obtains (busy) "lk_locked (m_locks s l)" "acquire l i s = Inr None"
  | (got) c where "\<not> lk_locked (m_locks s l)" "acquire l i s = Inr (Some (put_lock l \<lparr>lk_locked = True, lk_cpu = Some i\<rparr> (put_cpu i c s)))"
      "cpu_ok c" "c_ncli c = c_ncli (m_cpus s i) + 1" "c_proc c = c_proc (m_cpus s i)"
proof -
  have p: "cpu_ok (pushcli (m_cpus s i))" using assms(1) by simp
  obtain b where h: "holding i (m_locks s l) (pushcli (m_cpus s i)) = Inr (False, (pushcli (m_cpus s i))\<lparr>c_intena := b\<rparr>)"
    using holding_ok[OF p, of i "m_locks s l"] assms(2) by auto
  show ?thesis
  proof (cases "lk_locked (m_locks s l)")
    case True
    then show ?thesis using busy h by (simp add: acquire_def)
  next
    case False
    let ?c = "(pushcli (m_cpus s i))\<lparr>c_intena := b\<rparr>"
    have "acquire l i s = Inr (Some (put_lock l \<lparr>lk_locked = True, lk_cpu = Some i\<rparr> (put_cpu i ?c s)))"
      using False h by (simp add: acquire_def)
    moreover have "cpu_ok ?c" "c_ncli ?c = c_ncli (m_cpus s i) + 1" "c_proc ?c = c_proc (m_cpus s i)"
      using p by (simp_all add: cpu_ok_def pushcli_def Let_def)
    ultimately show ?thesis using got[OF False] by blast
  qed
qed

lemma release_ok:
  assumes "cpu_ok (m_cpus s i)" "0 < c_ncli (m_cpus s i)" "lk_cpu (m_locks s l) = Some i" "lk_locked (m_locks s l)"
  obtains c where "release l i s = Inr (put_lock l \<lparr>lk_locked = False, lk_cpu = None\<rparr> (put_cpu i c s))"
    "cpu_ok c" "c_ncli c = c_ncli (m_cpus s i) - 1" "c_proc c = c_proc (m_cpus s i)"
proof -
  obtain b where h: "holding i (m_locks s l) (m_cpus s i) = Inr (True, (m_cpus s i)\<lparr>c_intena := b\<rparr>)"
    using holding_ok[OF assms(1), of i "m_locks s l"] assms(3,4) by auto
  have "cpu_ok ((m_cpus s i)\<lparr>c_intena := b\<rparr>)" "0 < c_ncli ((m_cpus s i)\<lparr>c_intena := b\<rparr>)" using assms by (simp_all add: cpu_ok_def)
  from popcli_ok[OF this] obtain c where c: "popcli ((m_cpus s i)\<lparr>c_intena := b\<rparr>) = Inr c" "cpu_ok c" "c_ncli c = c_ncli (m_cpus s i) - 1"
    by auto
  then have "c_proc c = c_proc (m_cpus s i)" by (auto simp: popcli_def Let_def split: if_splits)
  then show ?thesis using that[of c] c h by (simp add: release_def)
qed

section \<open>Steps of one CPU\<close>

lemma zone_simps [simp]:
  "zone Ptable_lock q \<longleftrightarrow> q \<in> {Forkret, Yield1, Yield2, Sleep1, Sleep2, Sleep3, Wait1, Wait2, Exit1, Exit2}"
  "zone Cond_lock q \<longleftrightarrow> q \<in> {Cond1, Sleep0, Sleep1, Signal1, Signal2, Signal3}"
  by (simp_all add: zone_def)

lemma mach_defs:
  "m_pc (goto j q s) = (m_pc s)(j := q)" "m_at (goto j q s) = m_at s" "m_cpus (goto j q s) = m_cpus s" "m_locks (goto j q s) = m_locks s"
  "procs (goto j q s) = procs s" "m_cond (goto j q s) = m_cond s" "m_intena (goto j q s) = m_intena s"
  "m_pc (moveto i a s) = m_pc s" "m_at (moveto i a s) = (m_at s)(i := a)" "m_cpus (moveto i a s) = m_cpus s" "m_locks (moveto i a s) = m_locks s"
  "procs (moveto i a s) = procs s" "m_cond (moveto i a s) = m_cond s"
  "m_pc (put_cpu i c s) = m_pc s" "m_at (put_cpu i c s) = m_at s" "m_cpus (put_cpu i c s) = (m_cpus s)(i := c)" "m_locks (put_cpu i c s) = m_locks s"
  "procs (put_cpu i c s) = procs s" "m_cond (put_cpu i c s) = m_cond s" "m_intena (put_cpu i c s) = m_intena s"
  "m_pc (put_lock l k s) = m_pc s" "m_at (put_lock l k s) = m_at s" "m_cpus (put_lock l k s) = m_cpus s" "m_locks (put_lock l k s) = (m_locks s)(l := k)"
  "procs (put_lock l k s) = procs s" "m_cond (put_lock l k s) = m_cond s" "m_intena (put_lock l k s) = m_intena s"
  "initproc (goto j q s) = initproc s" "initproc (moveto i a s) = initproc s" "initproc (put_cpu i c s) = initproc s"
  "initproc (put_lock l k s) = initproc s" "initproc (upd_proc p f s) = initproc s"
  "m_pc (upd_proc p f s) = m_pc s" "m_at (upd_proc p f s) = m_at s" "m_cpus (upd_proc p f s) = m_cpus s" "m_locks (upd_proc p f s) = m_locks s"
  "procs (upd_proc p f s) = (procs s)(p := f (procs s p))" "m_cond (upd_proc p f s) = m_cond s" "m_intena (upd_proc p f s) = m_intena s"
  by (simp_all add: goto_def moveto_def put_cpu_def put_lock_def upd_proc_def)

lemma only_cpu: "table_ok ch at pc ps \<Longrightarrow> runs at i j \<Longrightarrow> runs at i' j \<Longrightarrow> i' = i"
  unfolding table_ok_def by blast

lemma holder_upd:
  assumes "table_ok ch at pc ps" "runs at i j" "i' < NCPU"
  shows "holder l at (pc(j := q)) i' = (if i' = i then zone l q else holder l at pc i')"
proof (cases "i' = i")
  case True
  then show ?thesis using assms(2) by (simp add: holder_def runs_def del: zone_simps)
next
  case False
  then have "at i' \<noteq> In j" using only_cpu[OF assms(1,2), of i'] assms(3) by (auto simp: runs_def)
  then show ?thesis using False by (simp add: holder_def split: cpu_at.split del: zone_simps)
qed

lemma one_holder:
  assumes "locks_ok at pc L" "runs at i j" "runs at i' j'" "zone l (pc j)" "zone l (pc j')"
  shows "i' = i"
proof -
  have "holder l at pc i" "holder l at pc i'" using assms(2-5) by (simp_all add: holder_def runs_def del: zone_simps)
  then show ?thesis using assms(1-3) unfolding locks_ok_def runs_def by (metis option.inject)
qed

text \<open>The lock table after the CPU at \<open>i\<close> has moved from one place to another, with \<open>h\<close> telling which locks it holds before and \<open>h'\<close> after.\<close>

definition relocked :: "nat \<Rightarrow> (lockid \<Rightarrow> bool) \<Rightarrow> (lockid \<Rightarrow> bool) \<Rightarrow> (lockid \<Rightarrow> spinlock) \<Rightarrow> (lockid \<Rightarrow> spinlock) \<Rightarrow> bool" where
  "relocked i h h' L L' \<longleftrightarrow> (\<forall>l. (h' l \<longrightarrow> \<not> h l \<longrightarrow> \<not> lk_locked (L l)) \<and>
     L' l = (if h l = h' l then L l else if h' l then \<lparr>lk_locked = True, lk_cpu = Some i\<rparr> else \<lparr>lk_locked = False, lk_cpu = None\<rparr>))"

lemma locks_moved:
  assumes "locks_ok at pc L" "relocked i (\<lambda>l. holder l at pc i) h' L L'" "i < NCPU"
    "\<And>i' l. i' < NCPU \<Longrightarrow> holder l at' pc' i' = (if i' = i then h' l else holder l at pc i')"
  shows "locks_ok at' pc' L'"
  unfolding locks_ok_def
proof (intro allI conjI impI)
  fix l i' assume i': "i' < NCPU"
  have o: "holder l at pc k \<longleftrightarrow> lk_cpu (L l) = Some k" if "k < NCPU" for k
    using assms(1) that by (simp add: locks_ok_def)
  have n: "lk_locked (L l) \<longleftrightarrow> lk_cpu (L l) \<noteq> None" using assms(1) by (simp add: locks_ok_def)
  have r: "h' l \<longrightarrow> \<not> holder l at pc i \<longrightarrow> \<not> lk_locked (L l)"
    "L' l = (if holder l at pc i = h' l then L l else if h' l then \<lparr>lk_locked = True, lk_cpu = Some i\<rparr> else \<lparr>lk_locked = False, lk_cpu = None\<rparr>)"
    using assms(2) unfolding relocked_def by blast+
  show "holder l at' pc' i' \<longleftrightarrow> lk_cpu (L' l) = Some i'"
    using o[OF i'] o[OF assms(3)] n r assms(4)[OF i', of l] by (cases "i' = i") auto
next
  fix l
  show "lk_locked (L' l) \<longleftrightarrow> lk_cpu (L' l) \<noteq> None" using assms(1,2) by (simp add: locks_ok_def relocked_def)
next
  fix l k assume "lk_cpu (L' l) = Some k"
  then show "k < NCPU" using assms(1-3) by (auto simp: locks_ok_def relocked_def split: if_splits)
qed

lemma cpus_moved:
  assumes "cpus_ok at pc cs" "i < NCPU" "cpu_ok c" "c_ncli c = of_bool (h' Ptable_lock) + of_bool (h' Cond_lock)"
    "\<And>j. at' i = In j \<Longrightarrow> c_proc c = Some j" "\<And>i'. i' \<noteq> i \<Longrightarrow> at' i' = at i'"
    "\<And>i' l. i' < NCPU \<Longrightarrow> holder l at' pc' i' = (if i' = i then h' l else holder l at pc i')"
  shows "cpus_ok at' pc' (cs(i := c))"
  using assms unfolding cpus_ok_def by auto

text \<open>A process moves on, with the locks its new place asks for; the table stays.\<close>

lemma proc_moves:
  assumes inv: "sched_inv ch s" and r: "runs (m_at s) i j" and c: "cpu_ok c" "c_ncli c = of_bool (zone Ptable_lock q) + of_bool (zone Cond_lock q)"
    "c_proc c = c_proc (m_cpus s i)" and L: "relocked i (\<lambda>l. zone l (m_pc s j)) (\<lambda>l. zone l q) (m_locks s) L"
    and q: "q \<noteq> Exit2" "\<And>p d. q = Fork1 p d \<Longrightarrow> p < NPROC \<and> p_state (procs s p) = EMBRYO \<and> p_kstack (procs s p) \<noteq> 0 \<and> d \<noteq> 0 \<and>
        (\<forall>i k d'. runs (m_at s) i k \<longrightarrow> m_pc s k \<noteq> Fork1 p d')"
      "\<And>d. q = Fork0 d \<Longrightarrow> d \<noteq> 0" "q \<in> {Sleep0, Sleep1, Sleep2} \<Longrightarrow> \<not> b"
      "q \<in> {Exit0, Exit1} \<Longrightarrow> initproc s \<noteq> Some j"
    and b: "b \<noteq> m_cond s \<Longrightarrow> zone Cond_lock (m_pc s j)" and b2: "b \<Longrightarrow> \<not> m_cond s \<Longrightarrow> q = Signal2"
    and w: "m_pc s j = Signal2 \<Longrightarrow> q = Signal2 \<or> (\<forall>k. \<not> waiting ch (m_at s) (m_pc s) (procs s) k)"
    and t: "m_at t = m_at s" "m_pc t = (m_pc s)(j := q)" "m_cpus t = (m_cpus s)(i := c)" "m_locks t = L" "procs t = procs s" "m_cond t = b" "initproc t = initproc s"
  shows "sched_inv ch t"
proof -
  have I: "cpus_ok (m_at s) (m_pc s) (m_cpus s)" "locks_ok (m_at s) (m_pc s) (m_locks s)" "table_ok ch (m_at s) (m_pc s) (procs s)"
    "forks_ok (m_at s) (m_pc s) (procs s)" "cond_ok ch (m_at s) (m_pc s) (procs s) (m_cond s)" "zombies_ok (procs s)"
    "parents_ok (initproc s) (m_at s) (m_pc s) (procs s)"
    using inv by (simp_all add: sched_inv_def)
  have i: "i < NCPU" "m_at s i = In j" using r by (simp_all add: runs_def)
  note hu = holder_upd[OF I(3) r]
  have h: "holder l (m_at s) (m_pc s) i = zone l (m_pc s j)" for l using i by (simp add: holder_def del: zone_simps)
  have st: "j < NPROC" "p_state (procs s j) = RUNNING" using I(3) r by (auto simp: table_ok_def)
  have "cpus_ok (m_at s) ((m_pc s)(j := q)) ((m_cpus s)(i := c))"
    by (rule cpus_moved[OF I(1) i(1) c(1,2)]) (use hu i c(3) I(1) in \<open>auto simp: cpus_ok_def simp del: zone_simps\<close>)
  moreover have "locks_ok (m_at s) ((m_pc s)(j := q)) L"
    by (rule locks_moved[OF I(2) _ i(1)]) (use L hu h in \<open>auto simp del: zone_simps\<close>)
  moreover have "table_ok ch (m_at s) ((m_pc s)(j := q)) (procs s)"
    using I(3) q(1) st by (auto simp: table_ok_def proc_fits_def)
  moreover have "forks_ok (m_at s) ((m_pc s)(j := q)) (procs s)"
    using I(4) q(2,3) unfolding forks_ok_def by (simp add: fun_upd_def) blast
  moreover have "cond_ok ch (m_at s) ((m_pc s)(j := q)) (procs s) b"
    unfolding cond_ok_def
  proof (intro conjI allI impI)
    fix i' j' assume a: "runs (m_at s) i' j'" "((m_pc s)(j := q)) j' \<in> {Sleep0, Sleep1}"
    show "\<not> b"
    proof (cases "j' = j")
      case False
      then have z: "zone Cond_lock (m_pc s j')" "\<not> m_cond s" using a I(5) by (auto simp: cond_ok_def)
      show ?thesis
      proof
        assume b
        then have "zone Cond_lock (m_pc s j)" using b z(2) by simp
        then have "i' = i" using one_holder[OF I(2) r a(1)] z(1) by blast
        then show False using a(1) r False by (simp add: runs_def)
      qed
    qed (use a q(4) in auto)
  next
    assume b: b and "\<exists>j'. waiting ch (m_at s) ((m_pc s)(j := q)) (procs s) j'"
    then obtain j' where "waiting ch (m_at s) ((m_pc s)(j := q)) (procs s) j'" by blast
    then have o: "waiting ch (m_at s) (m_pc s) (procs s) j'" using q(4) b st by (auto simp: waiting_def split: if_splits)
    show "\<exists>i k. runs (m_at s) i k \<and> ((m_pc s)(j := q)) k = Signal2"
    proof (cases "m_cond s")
      case True
      then obtain i' k where k: "runs (m_at s) i' k" "m_pc s k = Signal2" using I(5) o unfolding cond_ok_def by blast
      then show ?thesis using w o r by (cases "k = j") auto
    qed (use b b2 r in auto)
  qed
  moreover have "parents_ok (initproc s) (m_at s) ((m_pc s)(j := q)) (procs s)"
    using I(7) q(5) unfolding parents_ok_def by (auto split: if_splits)
  ultimately show ?thesis using I(6) by (simp add: sched_inv_def t)
qed

text \<open>Sleepers become runnable, and what the table says of a running process may change in other ways.\<close>

definition nudged :: "(nat \<Rightarrow> proc) \<Rightarrow> (nat \<Rightarrow> proc) \<Rightarrow> bool" where
  "nudged ps qs \<longleftrightarrow> (\<forall>k. p_kstack (qs k) = p_kstack (ps k) \<and> p_pgdir (qs k) = p_pgdir (ps k) \<and>
     (p_state (ps k) \<noteq> RUNNING \<longrightarrow> p_chan (qs k) = p_chan (ps k)) \<and>
     (p_state (qs k) = p_state (ps k) \<or> p_state (ps k) = SLEEPING \<and> p_state (qs k) = RUNNABLE))"

lemma nudged_refl [simp]: "nudged ps ps"
  by (simp add: nudged_def)

lemma nudged_trans: "nudged ps qs \<Longrightarrow> nudged qs rs \<Longrightarrow> nudged ps rs"
  unfolding nudged_def by (metis procstate.distinct)

lemma nudged_inv:
  assumes inv: "sched_inv ch s" and n: "nudged (procs s) qs" and z: "zombies_ok qs" "parents_ok (initproc s) (m_at s) (m_pc s) qs"
    and t: "m_at t = m_at s" "m_pc t = m_pc s" "m_cpus t = m_cpus s" "m_locks t = m_locks s" "procs t = qs" "m_cond t = m_cond s" "initproc t = initproc s"
  shows "sched_inv ch t"
proof -
  have st: "p_state (procs s k) = SLEEPING \<or> p_state (qs k) = p_state (procs s k)" "p_state (qs k) = SLEEPING \<Longrightarrow> p_state (procs s k) = SLEEPING"
    "p_state (qs k) \<noteq> p_state (procs s k) \<Longrightarrow> p_state (qs k) = RUNNABLE" "p_kstack (qs k) = p_kstack (procs s k)" "p_pgdir (qs k) = p_pgdir (procs s k)"
    "p_state (procs s k) = SLEEPING \<Longrightarrow> p_chan (qs k) = p_chan (procs s k)" for k
    using n[unfolded nudged_def, rule_format, of k] by auto
  have run: "p_state (qs k) = p_state (procs s k)" if "p_state (procs s k) \<noteq> SLEEPING" for k using st(1) that by blast
  have "table_ok ch (m_at s) (m_pc s) qs"
  proof -
    have "proc_fits ch j (qs j) (m_pc s j)" if "proc_fits ch j (procs s j) (m_pc s j)" for j
      using that st[of j] by (cases "p_state (qs j) = p_state (procs s j)") (auto simp: proc_fits_def)
    then show ?thesis using inv run unfolding sched_inv_def table_ok_def by (metis procstate.distinct(21))
  qed
  moreover have "forks_ok (m_at s) (m_pc s) qs"
    using inv run st(4) unfolding sched_inv_def forks_ok_def by (metis procstate.distinct(11))
  moreover have "waiting ch (m_at s) (m_pc s) qs k \<Longrightarrow> waiting ch (m_at s) (m_pc s) (procs s) k" for k
    using st(2,6)[of k] by (auto simp: waiting_def)
  then have "cond_ok ch (m_at s) (m_pc s) qs (m_cond s)"
    using inv unfolding sched_inv_def cond_ok_def by blast
  ultimately show ?thesis using inv z by (simp add: sched_inv_def t)
qed

text \<open>A slot that no CPU runs is filled or emptied.\<close>

lemma slot_changed:
  assumes inv: "sched_inv ch s" and p: "p_state (procs s p) \<notin> {RUNNABLE, SLEEPING, RUNNING}" "\<And>i k d. runs (m_at s) i k \<Longrightarrow> m_pc s k \<noteq> Fork1 p d"
    and x: "proc_fits ch p x q" "p_state x \<notin> {SLEEPING, ZOMBIE, RUNNING}" "p_parent x \<noteq> Some p"
    and t: "m_at t = m_at s" "m_pc t = (m_pc s)(p := q)" "m_cpus t = m_cpus s" "m_locks t = m_locks s" "procs t = (procs s)(p := x)" "m_cond t = m_cond s" "initproc t = initproc s"
  shows "sched_inv ch t"
proof -
  have I: "cpus_ok (m_at s) (m_pc s) (m_cpus s)" "locks_ok (m_at s) (m_pc s) (m_locks s)" "table_ok ch (m_at s) (m_pc s) (procs s)"
    "forks_ok (m_at s) (m_pc s) (procs s)" "cond_ok ch (m_at s) (m_pc s) (procs s) (m_cond s)" "zombies_ok (procs s)"
    "parents_ok (initproc s) (m_at s) (m_pc s) (procs s)"
    using inv by (simp_all add: sched_inv_def)
  have nr: "\<not> runs (m_at s) i p" for i using I(3) p(1) by (auto simp: table_ok_def)
  then have h: "holder l (m_at s) ((m_pc s)(p := q)) i = holder l (m_at s) (m_pc s) i" if "i < NCPU" for l i
    using that by (auto simp: holder_def runs_def split: cpu_at.split)
  have "cpus_ok (m_at s) ((m_pc s)(p := q)) (m_cpus s)" "locks_ok (m_at s) ((m_pc s)(p := q)) (m_locks s)"
    using I(1,2) h by (simp_all add: cpus_ok_def locks_ok_def)
  moreover have "table_ok ch (m_at s) ((m_pc s)(p := q)) ((procs s)(p := x))"
    using I(3) nr x(1) unfolding table_ok_def by (auto simp: fun_upd_def)
  moreover have "forks_ok (m_at s) ((m_pc s)(p := q)) ((procs s)(p := x))"
    using I(4) nr p(2) unfolding forks_ok_def by (auto simp: fun_upd_def)
  moreover have "waiting ch (m_at s) ((m_pc s)(p := q)) ((procs s)(p := x)) k \<Longrightarrow> waiting ch (m_at s) (m_pc s) (procs s) k" for k
    using nr x(2) by (auto simp: waiting_def split: if_splits)
  then have "cond_ok ch (m_at s) ((m_pc s)(p := q)) ((procs s)(p := x)) (m_cond s)"
    using I(5) nr unfolding cond_ok_def by (metis fun_upd_apply)
  moreover have "zombies_ok ((procs s)(p := x))" using I(6) x(2) by (auto simp: zombies_ok_def)
  moreover have "parents_ok (initproc s) (m_at s) ((m_pc s)(p := q)) ((procs s)(p := x))"
    using I(7) p(1) x(3) nr unfolding parents_ok_def by (auto split: if_splits)
  ultimately show ?thesis by (simp add: sched_inv_def t)
qed

text \<open>A CPU moves in its scheduler loop.\<close>

definition in_loop :: "cpu_at \<Rightarrow> bool" where
  "in_loop a \<longleftrightarrow> (\<forall>j. a \<noteq> In j)"

lemma loop_moves:
  assumes inv: "sched_inv ch s" and i: "i < NCPU" and a: "in_loop (m_at s i)" "in_loop a" and c: "cpu_ok c" "c_ncli c = of_bool (a \<noteq> Top)"
    and L: "relocked i (\<lambda>l. l = Ptable_lock \<and> m_at s i \<noteq> Top) (\<lambda>l. l = Ptable_lock \<and> a \<noteq> Top) (m_locks s) L"
    and t: "m_at t = (m_at s)(i := a)" "m_pc t = m_pc s" "m_cpus t = (m_cpus s)(i := c)" "m_locks t = L" "procs t = procs s" "m_cond t = m_cond s" "initproc t = initproc s"
  shows "sched_inv ch t"
proof -
  have I: "cpus_ok (m_at s) (m_pc s) (m_cpus s)" "locks_ok (m_at s) (m_pc s) (m_locks s)" "table_ok ch (m_at s) (m_pc s) (procs s)"
    "forks_ok (m_at s) (m_pc s) (procs s)" "cond_ok ch (m_at s) (m_pc s) (procs s) (m_cond s)" "zombies_ok (procs s)"
    "parents_ok (initproc s) (m_at s) (m_pc s) (procs s)"
    using inv by (simp_all add: sched_inv_def)
  have r: "runs ((m_at s)(i := a)) = runs (m_at s)" using a by (auto simp: runs_def in_loop_def fun_eq_iff)
  have hb: "holder l (m_at s) (m_pc s) i \<longleftrightarrow> l = Ptable_lock \<and> m_at s i \<noteq> Top" for l
    using a(1) by (auto simp: holder_def in_loop_def split: cpu_at.split)
  have h: "holder l ((m_at s)(i := a)) (m_pc s) i' = (if i' = i then l = Ptable_lock \<and> a \<noteq> Top else holder l (m_at s) (m_pc s) i')" for l i'
    using a(2) by (auto simp: holder_def in_loop_def split: cpu_at.split)
  have "cpus_ok ((m_at s)(i := a)) (m_pc s) ((m_cpus s)(i := c))"
    by (rule cpus_moved[OF I(1) i c(1), where h' = "\<lambda>l. l = Ptable_lock \<and> a \<noteq> Top"]) (use c(2) h a in \<open>auto simp: in_loop_def\<close>)
  moreover have "locks_ok ((m_at s)(i := a)) (m_pc s) L"
    by (rule locks_moved[OF I(2) _ i]) (use L h hb in auto)
  ultimately show ?thesis
    using I r by (simp add: sched_inv_def t table_ok_def forks_ok_def cond_ok_def waiting_def parents_ok_def)
qed

lemma forks_mono:
  assumes f: "forks_ok at pc ps" and r: "\<And>i k. runs at' i k \<Longrightarrow> (runs at i k \<and> pc' k = pc k) \<or> ((\<forall>q d. pc' k \<noteq> Fork1 q d) \<and> (\<forall>d. pc' k \<noteq> Fork0 d))"
    and p: "\<And>q. p_state (ps q) = EMBRYO \<Longrightarrow> p_state (ps' q) = EMBRYO \<and> p_kstack (ps' q) = p_kstack (ps q)"
  shows "forks_ok at' pc' ps'"
proof -
  have 1: "runs at i k \<and> pc k = Fork1 q d" if "runs at' i k" "pc' k = Fork1 q d" for i k q d using r that by metis
  have 0: "runs at i k \<and> pc k = Fork0 d" if "runs at' i k" "pc' k = Fork0 d" for i k d using r that by metis
  show ?thesis unfolding forks_ok_def
  proof (intro conjI allI impI)
    fix i k q d assume "runs at' i k" "pc' k = Fork1 q d"
    then have k: "q < NPROC" "p_state (ps q) = EMBRYO" "p_kstack (ps q) \<noteq> 0" "d \<noteq> 0"
      using 1[of i k q d] f unfolding forks_ok_def by blast+
    then show "q < NPROC" "p_state (ps' q) = EMBRYO" "p_kstack (ps' q) \<noteq> 0" "d \<noteq> 0" using p[OF k(2)] by simp_all
  next
    fix i k i' k' q d d' assume "runs at' i k" "runs at' i' k'" "pc' k = Fork1 q d" "pc' k' = Fork1 q d'"
    then have "runs at i k" "pc k = Fork1 q d" "runs at i' k'" "pc k' = Fork1 q d'" using 1 by blast+
    then show "k = k'" using f[unfolded forks_ok_def, THEN conjunct2, THEN conjunct1, rule_format] by metis
  next
    fix i k d assume "runs at' i k" "pc' k = Fork0 d"
    then have "runs at i k" "pc k = Fork0 d" using 0 by blast+
    then show "d \<noteq> 0" using f[unfolded forks_ok_def, THEN conjunct2, THEN conjunct2, rule_format] by metis
  qed
qed

text \<open>A process gives its CPU back to the scheduler, and the scheduler gives its CPU to a process.\<close>

lemma switch_out:
  assumes inv: "sched_inv ch s" and r: "runs (m_at s) i j" and z: "zone Ptable_lock (m_pc s j)" "\<not> zone Cond_lock (m_pc s j)"
    and x: "p_state x \<noteq> RUNNING" "proc_fits ch j x q" "p_state x = SLEEPING \<Longrightarrow> p_chan x = Some ch \<Longrightarrow> m_pc s j = Sleep2 \<or> \<not> m_cond s"
      "p_parent x \<noteq> Some j" "initproc s = Some j \<Longrightarrow> p_parent x = None \<and> p_state x \<in> {RUNNABLE, SLEEPING}"
    and zo: "zombies_ok ((procs s)(j := x))" and c: "cpu_ok c" "c_ncli c = 1"
    and t: "m_at t = (m_at s)(i := Back j)" "m_pc t = (m_pc s)(j := q)" "m_cpus t = (m_cpus s)(i := c)" "m_locks t = m_locks s"
      "procs t = (procs s)(j := x)" "m_cond t = m_cond s" "initproc t = initproc s"
  shows "sched_inv ch t"
proof -
  have I: "cpus_ok (m_at s) (m_pc s) (m_cpus s)" "locks_ok (m_at s) (m_pc s) (m_locks s)" "table_ok ch (m_at s) (m_pc s) (procs s)"
    "forks_ok (m_at s) (m_pc s) (procs s)" "cond_ok ch (m_at s) (m_pc s) (procs s) (m_cond s)"
    "parents_ok (initproc s) (m_at s) (m_pc s) (procs s)"
    using inv by (simp_all add: sched_inv_def)
  have i: "i < NCPU" "m_at s i = In j" using r by (simp_all add: runs_def)
  have st: "j < NPROC" "p_state (procs s j) = RUNNING" using I(3) r by (auto simp: table_ok_def)
  let ?at = "(m_at s)(i := Back j)" and ?pc = "(m_pc s)(j := q)" and ?ps = "(procs s)(j := x)"
  have ra: "runs ?at i' k \<longleftrightarrow> runs (m_at s) i' k \<and> k \<noteq> j" for i' k
  proof (cases "i' = i")
    case False
    then have "\<not> runs (m_at s) i' j" using only_cpu[OF I(3) r, of i'] by blast
    then show ?thesis using False by (auto simp: runs_def)
  qed (use i in \<open>simp add: runs_def\<close>)
  have hb: "holder l (m_at s) (m_pc s) i \<longleftrightarrow> l = Ptable_lock" for l
    using z i(2) by (cases l) (simp_all add: holder_def)
  have h: "holder l ?at ?pc i' = (if i' = i then l = Ptable_lock else holder l (m_at s) (m_pc s) i')" if "i' < NCPU" for l i'
  proof (cases "i' = i")
    case False
    then have "m_at s i' \<noteq> In j" using only_cpu[OF I(3) r, of i'] that by (auto simp: runs_def)
    then show ?thesis using False by (simp add: holder_def split: cpu_at.split del: zone_simps)
  qed (simp add: holder_def)
  have "cpus_ok ?at ?pc ((m_cpus s)(i := c))"
    by (rule cpus_moved[OF I(1) i(1) c(1), where h' = "\<lambda>l. l = Ptable_lock"]) (use c(2) h in auto)
  moreover have "locks_ok ?at ?pc (m_locks s)"
    by (rule locks_moved[OF I(2) _ i(1), where h' = "\<lambda>l. l = Ptable_lock"]) (use h hb in \<open>auto simp: relocked_def\<close>)
  moreover have "table_ok ch ?at ?pc ?ps"
    using I(3) x(2) unfolding table_ok_def ra by (auto simp: fun_upd_def)
  moreover have "forks_ok ?at ?pc ?ps"
    by (rule forks_mono[OF I(4)]) (use st(2) in \<open>auto simp: ra\<close>)
  moreover have "cond_ok ch ?at ?pc ?ps (m_cond s)"
  proof -
    have "waiting ch ?at ?pc ?ps k \<Longrightarrow> \<not> m_cond s \<or> waiting ch (m_at s) (m_pc s) (procs s) k" for k
      using x(3) st(1) r unfolding waiting_def ra by (auto split: if_splits)
    moreover have "m_pc s j \<noteq> Signal2" using z(2) by auto
    ultimately show ?thesis using I(5) unfolding cond_ok_def ra by (metis fun_upd_other)
  qed
  moreover have "parents_ok (initproc s) ?at ?pc ?ps"
    using I(6) x(4,5) unfolding parents_ok_def ra by (auto split: if_splits)
  ultimately show ?thesis using zo by (simp add: sched_inv_def t)
qed

lemma switch_in:
  assumes inv: "sched_inv ch s" and i: "i < NCPU" "m_at s i = Scan p" and p: "p < NPROC" "p_state (procs s p) = RUNNABLE"
    and c: "cpu_ok c" "c_ncli c = 1" "c_proc c = Some p"
    and t: "m_at t = (m_at s)(i := In p)" "m_pc t = m_pc s" "m_cpus t = (m_cpus s)(i := c)" "m_locks t = m_locks s"
      "procs t = (procs s)(p := (procs s p)\<lparr>p_state := RUNNING\<rparr>)" "m_cond t = m_cond s" "initproc t = initproc s"
  shows "sched_inv ch t"
proof -
  have I: "cpus_ok (m_at s) (m_pc s) (m_cpus s)" "locks_ok (m_at s) (m_pc s) (m_locks s)" "table_ok ch (m_at s) (m_pc s) (procs s)"
    "forks_ok (m_at s) (m_pc s) (procs s)" "cond_ok ch (m_at s) (m_pc s) (procs s) (m_cond s)" "zombies_ok (procs s)"
    "parents_ok (initproc s) (m_at s) (m_pc s) (procs s)"
    using inv by (simp_all add: sched_inv_def)
  let ?at = "(m_at s)(i := In p)" and ?ps = "(procs s)(p := (procs s p)\<lparr>p_state := RUNNING\<rparr>)"
  have q: "m_pc s p \<in> {Forkret, Yield2, Sleep3, Wait2}" "p_kstack (procs s p) \<noteq> 0" "p_pgdir (procs s p) \<noteq> 0"
    using I(3) p by (auto simp: table_ok_def proc_fits_def)
  have nr: "\<not> runs (m_at s) i' p" for i' using I(3) p(2) by (auto simp: table_ok_def)
  have ra: "runs ?at i' k \<longleftrightarrow> runs (m_at s) i' k \<or> i' = i \<and> k = p" for i' k
    using i by (auto simp: runs_def)
  have hb: "holder l (m_at s) (m_pc s) i \<longleftrightarrow> l = Ptable_lock" for l
    using i(2) by (simp add: holder_def)
  have h: "holder l ?at (m_pc s) i' = (if i' = i then l = Ptable_lock else holder l (m_at s) (m_pc s) i')" for l i'
    using q(1) by (cases l) (auto simp: holder_def split: cpu_at.split)
  have "cpus_ok ?at (m_pc s) ((m_cpus s)(i := c))"
    by (rule cpus_moved[OF I(1) i(1) c(1), where h' = "\<lambda>l. l = Ptable_lock"]) (use c(2,3) h in auto)
  moreover have "locks_ok ?at (m_pc s) (m_locks s)"
    by (rule locks_moved[OF I(2) _ i(1), where h' = "\<lambda>l. l = Ptable_lock"]) (use h hb in \<open>auto simp: relocked_def\<close>)
  moreover have "table_ok ch ?at (m_pc s) ?ps"
    using I(3) p(1) q nr unfolding table_ok_def ra by (auto simp: fun_upd_def proc_fits_def)
  moreover have "forks_ok ?at (m_pc s) ?ps"
    by (rule forks_mono[OF I(4)]) (use p(2) q(1) in \<open>auto simp: ra\<close>)
  moreover have "cond_ok ch ?at (m_pc s) ?ps (m_cond s)"
  proof -
    have "waiting ch ?at (m_pc s) ?ps k \<Longrightarrow> waiting ch (m_at s) (m_pc s) (procs s) k" for k
      using q(1) unfolding waiting_def ra by (auto split: if_splits)
    moreover have "m_pc s p \<notin> {Sleep0, Sleep1}" using q(1) by auto
    ultimately show ?thesis using I(5) unfolding cond_ok_def ra by blast
  qed
  moreover have "zombies_ok ?ps" using I(6) by (auto simp: zombies_ok_def)
  moreover have "parents_ok (initproc s) ?at (m_pc s) ?ps"
    using I(7) q(1) unfolding parents_ok_def ra by (auto split: if_splits)
  ultimately show ?thesis by (simp add: sched_inv_def t)
qed

section \<open>Every step keeps the invariants\<close>

lemma runs_facts:
  assumes "sched_inv ch s" "runs (m_at s) i j"
  shows "cpu_ok (m_cpus s i)" "c_ncli (m_cpus s i) = of_bool (zone Ptable_lock (m_pc s j)) + of_bool (zone Cond_lock (m_pc s j))"
    "lk_cpu (m_locks s l) = Some i \<longleftrightarrow> zone l (m_pc s j)" "zone l (m_pc s j) \<Longrightarrow> lk_locked (m_locks s l)" "i < NCPU"
    "j < NPROC" "p_state (procs s j) = RUNNING" "proc_fits ch j (procs s j) (m_pc s j)"
proof -
  have i: "i < NCPU" "m_at s i = In j" using assms(2) by (simp_all add: runs_def)
  have h: "holder l (m_at s) (m_pc s) i = zone l (m_pc s j)" for l using i by (simp add: holder_def del: zone_simps)
  have C: "cpus_ok (m_at s) (m_pc s) (m_cpus s)" and L: "locks_ok (m_at s) (m_pc s) (m_locks s)" and T: "table_ok ch (m_at s) (m_pc s) (procs s)"
    using assms(1) by (simp_all add: sched_inv_def)
  show "cpu_ok (m_cpus s i)" "c_ncli (m_cpus s i) = of_bool (zone Ptable_lock (m_pc s j)) + of_bool (zone Cond_lock (m_pc s j))"
    using C i(1) unfolding cpus_ok_def h[symmetric] by blast+
  show o: "lk_cpu (m_locks s l) = Some i \<longleftrightarrow> zone l (m_pc s j)" for l using L i(1) unfolding locks_ok_def h[symmetric] by blast
  show "lk_locked (m_locks s l)" if "zone l (m_pc s j)" using L o[of l] that unfolding locks_ok_def by auto
  show "i < NCPU" by (rule i(1))
  show "j < NPROC" "p_state (procs s j) = RUNNING" using T assms(2) unfolding table_ok_def by blast+
  then show "proc_fits ch j (procs s j) (m_pc s j)" using T unfolding table_ok_def by blast
qed

lemma lock_moves:
  assumes inv: "sched_inv ch s" and r: "runs (m_at s) i j" and z: "\<not> zone l (m_pc s j)" "\<And>l'. zone l' q \<longleftrightarrow> zone l' (m_pc s j) \<or> l' = l"
    and q: "q \<noteq> Exit2" "\<And>p d. q \<noteq> Fork1 p d" "\<And>d. q \<noteq> Fork0 d" "q \<in> {Sleep0, Sleep1, Sleep2} \<Longrightarrow> \<not> m_cond s"
      "q \<in> {Exit0, Exit1} \<Longrightarrow> initproc s \<noteq> Some j" "m_pc s j \<noteq> Signal2"
  shows "\<exists>t. with_lock l i (\<lambda>s. Inr (goto j q s)) s = Inr t \<and> sched_inv ch t \<and> (lk_locked (m_locks s l) \<or> m_pc t j = q)"
proof -
  note f = runs_facts[OF inv r]
  have nl: "lk_cpu (m_locks s l) \<noteq> Some i" using f(3) z(1) by blast
  from f(1) nl show ?thesis
  proof (cases rule: acquire_cases)
    case busy
    then show ?thesis using inv by (simp add: with_lock_def)
  next
    case (got c)
    let ?t = "goto j q (put_lock l \<lparr>lk_locked = True, lk_cpu = Some i\<rparr> (put_cpu i c s))"
    have "of_bool (zone Ptable_lock q) + of_bool (zone Cond_lock q) = (of_bool (zone Ptable_lock (m_pc s j)) + of_bool (zone Cond_lock (m_pc s j)) + 1 :: int)"
      unfolding z(2) using z(1) by (cases l) (simp_all del: zone_simps)
    then have n: "c_ncli c = of_bool (zone Ptable_lock q) + of_bool (zone Cond_lock q)" using got(4) f(2) by linarith
    have "sched_inv ch ?t"
      by (rule proc_moves[OF inv r got(3) n got(5), where b = "m_cond s" and L = "(m_locks s)(l := \<lparr>lk_locked = True, lk_cpu = Some i\<rparr>)"])
        (use q got(1) z in \<open>auto simp: relocked_def mach_defs simp del: zone_simps\<close>)
    then show ?thesis using got(2) by (simp add: with_lock_def mach_defs)
  qed
qed

lemma unlock_moves:
  assumes inv: "sched_inv ch s" and r: "runs (m_at s) i j" and z: "zone l (m_pc s j)" "\<And>l'. zone l' q \<longleftrightarrow> zone l' (m_pc s j) \<and> l' \<noteq> l"
    and q: "q \<noteq> Exit2" "\<And>p d. q \<noteq> Fork1 p d" "\<And>d. q \<noteq> Fork0 d" "q \<in> {Sleep0, Sleep1, Sleep2} \<Longrightarrow> \<not> m_cond s"
      "q \<notin> {Exit0, Exit1}" "m_pc s j \<noteq> Signal2"
  shows "\<exists>t. release l i s = Inr t \<and> sched_inv ch (goto j q t)"
proof -
  note f = runs_facts[OF inv r]
  have c0: "of_bool (zone Ptable_lock q) + of_bool (zone Cond_lock q) = (of_bool (zone Ptable_lock (m_pc s j)) + of_bool (zone Cond_lock (m_pc s j)) - 1 :: int)"
    unfolding z(2) using z(1) by (cases l) (simp_all del: zone_simps)
  have "0 < c_ncli (m_cpus s i)" using f(2) z(1) by (cases l) (simp_all del: zone_simps)
  from release_ok[OF f(1) this f(3)[THEN iffD2, OF z(1)] f(4)[OF z(1)]] obtain c
    where c: "release l i s = Inr (put_lock l \<lparr>lk_locked = False, lk_cpu = None\<rparr> (put_cpu i c s))"
      "cpu_ok c" "c_ncli c = c_ncli (m_cpus s i) - 1" "c_proc c = c_proc (m_cpus s i)" by blast
  let ?t = "goto j q (put_lock l \<lparr>lk_locked = False, lk_cpu = None\<rparr> (put_cpu i c s))"
  have n: "c_ncli c = of_bool (zone Ptable_lock q) + of_bool (zone Cond_lock q)" using c(3) f(2) c0 by linarith
  have "sched_inv ch ?t"
    by (rule proc_moves[OF inv r c(2) n c(4), where b = "m_cond s" and L = "(m_locks s)(l := \<lparr>lk_locked = False, lk_cpu = None\<rparr>)"])
      (use q z in \<open>auto simp: relocked_def mach_defs simp del: zone_simps\<close>)
  then show ?thesis using c(1) by blast
qed

text \<open>A section under the lock of the process table: the lock is taken, or the lock is as before.\<close>

lemma section_cases:
  assumes inv: "sched_inv ch s" and r: "runs (m_at s) i j" and z: "\<not> zone Ptable_lock (m_pc s j)"
    and fr: "\<And>s0. m_cpus (fst (f s0)) = m_cpus s0 \<and> m_locks (fst (f s0)) = m_locks s0"
  obtains (busy) "lk_locked (m_locks s Ptable_lock)" "ptable_section i j f s = Inr s"
  | (go) s0 t c where "\<not> lk_locked (m_locks s Ptable_lock)" "procs s0 = procs s" "m_pc s0 = m_pc s" "m_at s0 = m_at s" "m_cond s0 = m_cond s"
      "initproc s0 = initproc s" "ptable_section i j f s = Inr (goto j (snd (f s0)) t)"
      "m_cpus t = (m_cpus s)(i := c)" "m_locks t = m_locks s" "m_at t = m_at (fst (f s0))" "m_pc t = m_pc (fst (f s0))"
      "procs t = procs (fst (f s0))" "m_cond t = m_cond (fst (f s0))" "initproc t = initproc (fst (f s0))"
      "cpu_ok c" "c_ncli c = c_ncli (m_cpus s i)" "c_proc c = c_proc (m_cpus s i)"
proof -
  note f = runs_facts[OF inv r]
  have nl: "lk_cpu (m_locks s Ptable_lock) \<noteq> Some i" using f(3) z by blast
  from f(1) nl show ?thesis
  proof (cases rule: acquire_cases)
    case b: busy
    show ?thesis by (rule busy) (use b in \<open>simp_all add: ptable_section_def with_lock_def\<close>)
  next
    case (got c)
    let ?s0 = "put_lock Ptable_lock \<lparr>lk_locked = True, lk_cpu = Some i\<rparr> (put_cpu i c s)"
    let ?s1 = "fst (f ?s0)"
    have m: "m_cpus ?s1 = (m_cpus s)(i := c)" "m_locks ?s1 = (m_locks s)(Ptable_lock := \<lparr>lk_locked = True, lk_cpu = Some i\<rparr>)"
      using fr[of ?s0] by (simp_all add: mach_defs)
    have n: "0 \<le> c_ncli (m_cpus s i)" using f(1) by (simp add: cpu_ok_def)
    obtain c' where c': "release Ptable_lock i ?s1 = Inr (put_lock Ptable_lock \<lparr>lk_locked = False, lk_cpu = None\<rparr> (put_cpu i c' ?s1))"
      "cpu_ok c'" "c_ncli c' = c_ncli c - 1" "c_proc c' = c_proc c"
      using release_ok[of ?s1 i Ptable_lock] got(3,4) n by (auto simp: m)
    have free: "m_locks s Ptable_lock = \<lparr>lk_locked = False, lk_cpu = None\<rparr>"
    proof -
      have "lk_cpu (m_locks s Ptable_lock) = None" using inv got(1) by (auto simp: sched_inv_def locks_ok_def)
      then show ?thesis using got(1) by (cases "m_locks s Ptable_lock") simp
    qed
    have "m_locks (put_lock Ptable_lock \<lparr>lk_locked = False, lk_cpu = None\<rparr> (put_cpu i c' ?s1)) = m_locks s"
      using free by (simp add: mach_defs m fun_upd_idem)
    then show ?thesis
      using go[OF got(1), of ?s0 "put_lock Ptable_lock \<lparr>lk_locked = False, lk_cpu = None\<rparr> (put_cpu i c' ?s1)" c'] got(2,4,5) c'
      by (simp add: mach_defs m ptable_section_def with_lock_def case_prod_beta)
  qed
qed

text \<open>What the operations on the table do to it.\<close>

lemma nudged_woken: "nudged ps (woken ch ps)"
  by (simp add: nudged_def woken_def Let_def)

lemma wakeup_proc_frame: "\<exists>ps. wakeup_proc p s = s\<lparr>procs := ps\<rparr>"
  by (cases p) (auto simp: wakeup_proc_def wakeup1_def)

lemma reparent_frame: "\<exists>ps. reparent k p s = s\<lparr>procs := ps\<rparr>"
proof (induction k arbitrary: p s)
  case 0
  show ?case by (rule exI[of _ "procs s"]) simp
next
  case (Suc k)
  let ?s = "if p_parent (procs s p) = Some (cur s) then
      let s = upd_proc p (\<lambda>x. x\<lparr>p_parent := initproc s\<rparr>) s in if p_state (procs s p) = ZOMBIE then wakeup_proc (initproc s) s else s else s"
  have "\<exists>ps. s = s\<lparr>procs := ps\<rparr>" by (rule exI[of _ "procs s"]) simp
  then have "\<exists>ps. ?s = s\<lparr>procs := ps\<rparr>"
    using wakeup_proc_frame[of "initproc s" "upd_proc p (\<lambda>x. x\<lparr>p_parent := initproc s\<rparr>) s"] by (auto simp: Let_def upd_proc_def)
  then obtain ps where "?s = s\<lparr>procs := ps\<rparr>" by blast
  moreover obtain qs where "reparent k (Suc p) (s\<lparr>procs := ps\<rparr>) = s\<lparr>procs := qs\<rparr>" using Suc.IH[of "Suc p" "s\<lparr>procs := ps\<rparr>"] by auto
  ultimately have "reparent (Suc k) p s = s\<lparr>procs := qs\<rparr>" by simp
  then show ?case by blast
qed

definition naps :: "(nat \<Rightarrow> proc) \<Rightarrow> nat \<Rightarrow> bool" where
  "naps ps j \<longleftrightarrow> p_state (ps j) = SLEEPING \<and> p_chan (ps j) = Some (ChanProc j)"

lemma zombies_naps: "zombies_ok ps \<longleftrightarrow> (\<forall>q<NPROC. \<forall>j<NPROC. p_state (ps q) = ZOMBIE \<longrightarrow> p_parent (ps q) = Some j \<longrightarrow> \<not> naps ps j)"
  by (simp add: zombies_ok_def naps_def)

lemma wakeup_proc_effect:
  "nudged (procs s) (procs (wakeup_proc p s))" "p_parent (procs (wakeup_proc p s) k) = p_parent (procs s k)"
  "naps (procs (wakeup_proc p s)) k \<Longrightarrow> naps (procs s) k \<and> (k < NPROC \<longrightarrow> p \<noteq> Some k)"
  "p_state (procs (wakeup_proc p s) k) = ZOMBIE \<longleftrightarrow> p_state (procs s k) = ZOMBIE"
  by (cases p; auto simp: wakeup_proc_def wakeup1_def nudged_def woken_def Let_def naps_def split: if_splits)+

definition family_ok :: "nat option \<Rightarrow> (nat \<Rightarrow> proc) \<Rightarrow> bool" where
  "family_ok init ps \<longleftrightarrow> zombies_ok ps \<and> (\<forall>j<NPROC. p_parent (ps j) \<noteq> Some j) \<and> (\<forall>m. init = Some m \<longrightarrow> m < NPROC \<and> p_parent (ps m) = None)"

lemma adopt_effect:
  fixes s :: "'a ptable_scheme"
  assumes "family_ok (initproc s) (procs s)" and p: "p_parent (procs s p) = Some (cur s)"
  defines "s1 \<equiv> upd_proc p (\<lambda>x. x\<lparr>p_parent := initproc s\<rparr>) s"
  defines "t \<equiv> if p_state (procs s1 p) = ZOMBIE then wakeup_proc (initproc s1) s1 else s1"
  shows "family_ok (initproc s) (procs t)" "nudged (procs s) (procs t)" "naps (procs t) k \<Longrightarrow> naps (procs s) k"
    "p_parent (procs t k) = p_parent (procs s k) \<or> p_parent (procs s k) = Some (cur s)"
proof -
  have s1: "p_state (procs s1 k) = p_state (procs s k)" "naps (procs s1) k = naps (procs s) k" "p_parent (procs s1 k) = (if k = p then initproc s else p_parent (procs s k))"
    "initproc s1 = initproc s" for k
    by (simp_all add: s1_def upd_proc_def naps_def)
  have n1: "nudged (procs s) (procs s1)" by (simp add: s1_def upd_proc_def nudged_def)
  have par: "p_parent (procs t k) = p_parent (procs s1 k)" for k by (simp add: t_def wakeup_proc_effect(2))
  have zom: "p_state (procs t k) = ZOMBIE \<longleftrightarrow> p_state (procs s k) = ZOMBIE" for k using s1(1) by (simp add: t_def wakeup_proc_effect(4))
  show nap: "naps (procs s) k" if "naps (procs t) k" for k
    using that wakeup_proc_effect(3)[of "initproc s1" s1 k] s1(2) by (auto simp: t_def split: if_splits)
  show "nudged (procs s) (procs t)" using nudged_trans[OF n1] wakeup_proc_effect(1)[of s1 "initproc s1"] n1 by (simp add: t_def)
  show "p_parent (procs t k) = p_parent (procs s k) \<or> p_parent (procs s k) = Some (cur s)" using p by (simp add: par s1)
  have "zombies_ok (procs t)"
    unfolding zombies_naps
  proof (intro allI impI)
    fix q j assume q: "q < NPROC" "j < NPROC" "p_state (procs t q) = ZOMBIE" "p_parent (procs t q) = Some j"
    show "\<not> naps (procs t) j"
    proof (cases "q = p")
      case True
      then have "p_state (procs s1 p) = ZOMBIE" "initproc s1 = Some j" using q(3,4) by (simp_all add: par s1 zom)
      then show ?thesis using wakeup_proc_effect(3)[of "initproc s1" s1 j] q(2) by (auto simp: t_def)
    next
      case False
      then show ?thesis using q assms(1) nap by (auto simp: family_ok_def zombies_naps par s1 zom)
    qed
  qed
  moreover have "p_parent (procs t m) = None" "m < NPROC" if "initproc s = Some m" for m
    using assms(1) that p by (auto simp: family_ok_def par s1)
  moreover have "p_parent (procs t j) \<noteq> Some j" if "j < NPROC" for j
    using assms(1) that p by (auto simp: family_ok_def par s1)
  ultimately show "family_ok (initproc s) (procs t)" by (simp add: family_ok_def)
qed

lemma reparent_effect:
  fixes s :: "'a ptable_scheme"
  assumes "family_ok (initproc s) (procs s)"
  shows "family_ok (initproc s) (procs (reparent k p s)) \<and> nudged (procs s) (procs (reparent k p s)) \<and>
    (\<forall>j. naps (procs (reparent k p s)) j \<longrightarrow> naps (procs s) j) \<and>
    (\<forall>j. p_parent (procs (reparent k p s) j) = p_parent (procs s j) \<or> p_parent (procs s j) = Some (cur s))"
  using assms
proof (induction k arbitrary: p s)
  case (Suc k)
  show ?case
  proof (cases "p_parent (procs s p) = Some (cur s)")
    case True
    let ?s1 = "upd_proc p (\<lambda>x. x\<lparr>p_parent := initproc s\<rparr>) s"
    let ?t = "if p_state (procs ?s1 p) = ZOMBIE then wakeup_proc (initproc ?s1) ?s1 else ?s1"
    note a = adopt_effect[OF Suc.prems True]
    obtain ps0 where w: "wakeup_proc (initproc ?s1) ?s1 = ?s1\<lparr>procs := ps0\<rparr>"
      using wakeup_proc_frame by blast
    define ps where "ps = (if p_state (procs ?s1 p) = ZOMBIE then ps0 else procs ?s1)"
    have ps: "?t = s\<lparr>procs := ps\<rparr>" unfolding w by (simp add: ps_def upd_proc_def)
    have t: "initproc ?t = initproc s" "cur ?t = cur s" by (simp_all add: ps)
    have r: "reparent (Suc k) p s = reparent k (Suc p) ?t" using True by (simp add: Let_def)
    have b: "family_ok (initproc ?t) (procs ?t)" unfolding t by (rule a(1))
    show ?thesis
      unfolding r using Suc.IH[OF b, of "Suc p"] nudged_trans[OF a(2)] a(3,4) unfolding t by metis
  next
    case False
    then have r: "reparent (Suc k) p s = reparent k (Suc p) s" by simp
    show ?thesis unfolding r by (rule Suc.IH[OF Suc.prems])
  qed
qed (simp)

lemma sched_out:
  assumes inv: "sched_inv ch s" and r: "runs (m_at s) i j" and z: "zone Ptable_lock (m_pc s j)" "\<not> zone Cond_lock (m_pc s j)"
    and x: "p_state (f (procs s j)) \<noteq> RUNNING" "proc_fits ch j (f (procs s j)) q"
      "p_state (f (procs s j)) = SLEEPING \<Longrightarrow> p_chan (f (procs s j)) = Some ch \<Longrightarrow> m_pc s j = Sleep2 \<or> \<not> m_cond s"
      "p_parent (f (procs s j)) \<noteq> Some j" "initproc s = Some j \<Longrightarrow> p_parent (f (procs s j)) = None \<and> p_state (f (procs s j)) \<in> {RUNNABLE, SLEEPING}"
      "zombies_ok ((procs s)(j := f (procs s j)))"
  shows "\<exists>t. sched i j q (upd_proc j f s) = Inr t \<and> sched_inv ch t \<and> m_at t i = Back j"
proof -
  note f = runs_facts[OF inv r]
  obtain b where h: "holding i (m_locks s Ptable_lock) (m_cpus s i) = Inr (True, (m_cpus s i)\<lparr>c_intena := b\<rparr>)"
    using holding_ok[OF f(1), of i "m_locks s Ptable_lock"] f(3,4)[of Ptable_lock] z(1) by auto
  let ?c = "(m_cpus s i)\<lparr>c_intena := b\<rparr>"
  have c: "cpu_ok ?c" "c_ncli ?c = 1" "\<not> c_if ?c" using f(1,2) z by (simp_all add: cpu_ok_def del: zone_simps)
  let ?t = "moveto i (Back j) (goto j q ((put_cpu i ?c (upd_proc j f s))\<lparr>m_intena := (m_intena s)(j := c_intena ?c)\<rparr>))"
  have "sched i j q (upd_proc j f s) = Inr ?t"
    unfolding sched_def mach_defs h using x(1) c(2,3) by simp
  moreover have "sched_inv ch ?t"
    by (rule switch_out[OF inv r z x(1-5), where c = ?c]) (use x(6) c in \<open>simp_all add: mach_defs\<close>)
  ultimately show ?thesis by (auto simp: mach_defs)
qed

lemma intena_inv:
  assumes "sched_inv ch s"
  shows "sched_inv ch (put_cpu i ((m_cpus s i)\<lparr>c_intena := b\<rparr>) s)"
  using assms unfolding sched_inv_def mach_defs cpus_ok_def by (simp add: cpu_ok_def fun_upd_def)

lemma sched_return_inv: "sched_inv ch s \<Longrightarrow> sched_inv ch (sched_return i j s)"
  by (simp add: sched_return_def intena_inv)

lemma sleep_return_inv:
  assumes "sched_inv ch s" "runs (m_at s) i j"
  shows "sched_inv ch (sleep_return i j s)"
proof -
  note s1 = sched_return_inv[OF assms(1), of i j]
  have p: "procs (sched_return i j s) = procs s" "m_at (sched_return i j s) = m_at s" "m_pc (sched_return i j s) = m_pc s"
    "initproc (sched_return i j s) = initproc s" by (simp_all add: sched_return_def mach_defs)
  have st: "p_state (procs s j) = RUNNING" using runs_facts(7)[OF assms] .
  show ?thesis
  proof (rule nudged_inv[OF s1, where qs = "(procs s)(j := (procs s j)\<lparr>p_chan := None\<rparr>)"])
    show "zombies_ok ((procs s)(j := (procs s j)\<lparr>p_chan := None\<rparr>))" using assms(1) by (auto simp: sched_inv_def zombies_ok_def)
  qed (use st assms(1) in \<open>auto simp: sched_inv_def sleep_return_def mach_defs p nudged_def parents_ok_def\<close>)
qed

lemma return_fields:
  "m_at (sched_return i j s) = m_at s" "m_pc (sched_return i j s) = m_pc s" "m_at (sleep_return i j s) = m_at s" "m_pc (sleep_return i j s) = m_pc s"
  by (simp_all add: sched_return_def sleep_return_def mach_defs)

text \<open>The steps that take a lock, and those that give one back.\<close>

lemma zone_one:
  "zone l User = False" "zone l Yield0 = False" "zone l Cond0 = False" "zone l Sleep4 = False" "zone l Signal0 = False" "zone l Wait0 = False" "zone l Exit0 = False"
  "zone l (Kill0 pid) = False" "zone l (Fork0 d) = False" "zone l (Fork1 p d) = False"
  "zone l Forkret = (l = Ptable_lock)" "zone l Yield1 = (l = Ptable_lock)" "zone l Yield2 = (l = Ptable_lock)" "zone l Sleep2 = (l = Ptable_lock)"
  "zone l Sleep3 = (l = Ptable_lock)" "zone l Wait1 = (l = Ptable_lock)" "zone l Wait2 = (l = Ptable_lock)" "zone l Exit1 = (l = Ptable_lock)"
  "zone l Cond1 = (l = Cond_lock)" "zone l Sleep0 = (l = Cond_lock)" "zone l Signal1 = (l = Cond_lock)" "zone l Signal2 = (l = Cond_lock)" "zone l Signal3 = (l = Cond_lock)"
  "zone l Sleep1 = True"
  by (cases l; simp)+

lemma locking_steps:
  assumes inv: "sched_inv ch s" and r: "runs (m_at s) i j"
  shows "m_pc s j = Yield0 \<Longrightarrow> \<exists>t. yield_lock i j s = Inr t \<and> sched_inv ch t"
    "m_pc s j \<in> {Cond0, Sleep4} \<Longrightarrow> \<exists>t. cond_lock i j s = Inr t \<and> sched_inv ch t"
    "m_pc s j = Sleep0 \<Longrightarrow> \<exists>t. sleep_lock i j s = Inr t \<and> sched_inv ch t"
    "m_pc s j = Signal0 \<Longrightarrow> \<exists>t. signal_lock i j s = Inr t \<and> sched_inv ch t"
    "m_pc s j = Wait0 \<Longrightarrow> \<exists>t. wait_lock i j s = Inr t \<and> sched_inv ch t"
    "m_pc s j = Exit0 \<Longrightarrow> \<exists>t. exit_lock i j s = Inr t \<and> sched_inv ch t"
proof -
  note m = lock_moves[OF inv r]
  have c: "m_pc s j \<in> {Sleep0, Sleep1} \<Longrightarrow> \<not> m_cond s" using inv r by (auto simp: sched_inv_def cond_ok_def)
  have e: "m_pc s j \<in> {Exit0, Exit1} \<Longrightarrow> initproc s \<noteq> Some j" using inv r by (auto simp: sched_inv_def parents_ok_def)
  show "\<exists>t. yield_lock i j s = Inr t \<and> sched_inv ch t" if "m_pc s j = Yield0"
    using m[of Ptable_lock Yield1] that unfolding yield_lock_def by (auto simp: zone_one simp del: zone_simps)
  show "\<exists>t. cond_lock i j s = Inr t \<and> sched_inv ch t" if "m_pc s j \<in> {Cond0, Sleep4}"
    using m[of Cond_lock Cond1] that unfolding cond_lock_def by (auto simp: zone_one simp del: zone_simps)
  show "\<exists>t. sleep_lock i j s = Inr t \<and> sched_inv ch t" if "m_pc s j = Sleep0"
    using m[of Ptable_lock Sleep1] that c unfolding sleep_lock_def by (auto simp: zone_one simp del: zone_simps intro: lockid.exhaust)
  show "\<exists>t. signal_lock i j s = Inr t \<and> sched_inv ch t" if "m_pc s j = Signal0"
    using m[of Cond_lock Signal1] that unfolding signal_lock_def by (auto simp: zone_one simp del: zone_simps)
  show "\<exists>t. wait_lock i j s = Inr t \<and> sched_inv ch t" if "m_pc s j = Wait0"
    using m[of Ptable_lock Wait1] that unfolding wait_lock_def by (auto simp: zone_one simp del: zone_simps)
  show "\<exists>t. exit_lock i j s = Inr t \<and> sched_inv ch t" if "m_pc s j = Exit0"
    using m[of Ptable_lock Exit1] that e unfolding exit_lock_def by (auto simp: zone_one simp del: zone_simps)
qed

lemma unlocking_steps:
  assumes inv: "sched_inv ch s" and r: "runs (m_at s) i j"
  shows "m_pc s j = Forkret \<Longrightarrow> \<exists>t. forkret_step i j s = Inr t \<and> sched_inv ch t"
    "m_pc s j = Yield2 \<Longrightarrow> \<exists>t. yield_return i j s = Inr t \<and> sched_inv ch t"
    "m_pc s j = Sleep1 \<Longrightarrow> \<exists>t. sleep_unlock i j s = Inr t \<and> sched_inv ch t"
    "m_pc s j = Sleep3 \<Longrightarrow> \<exists>t. sleep_release i j s = Inr t \<and> sched_inv ch t"
    "m_pc s j = Signal3 \<Longrightarrow> \<exists>t. signal_unlock i j s = Inr t \<and> sched_inv ch t"
    "m_pc s j = Wait2 \<Longrightarrow> sched_inv ch (goto j Wait1 (sleep_return i j s))"
proof -
  have r': "runs (m_at (sched_return i j s)) i j" "runs (m_at (sleep_return i j s)) i j" using r by (simp_all add: return_fields)
  note m = unlock_moves[OF inv r] and m1 = unlock_moves[OF sched_return_inv[OF inv] r'(1)] and m2 = unlock_moves[OF sleep_return_inv[OF inv r] r'(2)]
  have c: "m_pc s j \<in> {Sleep0, Sleep1} \<Longrightarrow> \<not> m_cond s" using inv r by (auto simp: sched_inv_def cond_ok_def)
  show "\<exists>t. forkret_step i j s = Inr t \<and> sched_inv ch t" if "m_pc s j = Forkret"
    using m[of Ptable_lock User] that unfolding forkret_step_def by (auto simp: zone_one simp del: zone_simps)
  show "\<exists>t. yield_return i j s = Inr t \<and> sched_inv ch t" if "m_pc s j = Yield2"
    using m1[of Ptable_lock User] that unfolding yield_return_def by (auto simp: zone_one return_fields simp del: zone_simps)
  show "\<exists>t. sleep_unlock i j s = Inr t \<and> sched_inv ch t" if "m_pc s j = Sleep1"
    using m[of Cond_lock Sleep2] that c unfolding sleep_unlock_def by (auto simp: zone_one simp del: zone_simps intro: lockid.exhaust)
  show "\<exists>t. sleep_release i j s = Inr t \<and> sched_inv ch t" if "m_pc s j = Sleep3"
    using m2[of Ptable_lock Sleep4] that unfolding sleep_release_def by (auto simp: zone_one return_fields simp del: zone_simps)
  show "\<exists>t. signal_unlock i j s = Inr t \<and> sched_inv ch t" if "m_pc s j = Signal3"
    using m[of Cond_lock User] that unfolding signal_unlock_def by (auto simp: zone_one simp del: zone_simps)
  show "sched_inv ch (goto j Wait1 (sleep_return i j s))" if "m_pc s j = Wait2"
  proof -
    note f = runs_facts[OF sleep_return_inv[OF inv r] r'(2)]
    show ?thesis
      by (rule proc_moves[OF sleep_return_inv[OF inv r] r'(2) f(1), where q = Wait1 and b = "m_cond (sleep_return i j s)" and L = "m_locks (sleep_return i j s)"])
        (use f(2) that in \<open>auto simp: mach_defs return_fields relocked_def zone_one simp del: zone_simps\<close>)
  qed
qed

lemma cond_test_step:
  assumes inv: "sched_inv ch s" and r: "runs (m_at s) i j" and q: "m_pc s j = Cond1"
  shows "\<exists>t. cond_test i j s = Inr t \<and> sched_inv ch t"
proof (cases "m_cond s")
  case True
  note f = runs_facts[OF inv r]
  let ?s = "s\<lparr>m_cond := False\<rparr>"
  have "sched_inv ch ?s"
    by (rule proc_moves[OF inv r f(1), where q = Cond1 and b = False and L = "m_locks s"])
      (use f(2) q in \<open>auto simp: relocked_def fun_upd_idem zone_one simp del: zone_simps\<close>)
  from unlock_moves[OF this, of i j Cond_lock User] show ?thesis
    using r q True by (auto simp: cond_test_def zone_one simp del: zone_simps)
next
  case False
  note f = runs_facts[OF inv r]
  have "sched_inv ch (goto j Sleep0 s)"
    by (rule proc_moves[OF inv r f(1), where q = Sleep0 and b = False and L = "m_locks s"])
      (use f(2) q False in \<open>auto simp: mach_defs relocked_def zone_one simp del: zone_simps\<close>)
  then show ?thesis using False by (simp add: cond_test_def)
qed

lemma signal_step:
  assumes inv: "sched_inv ch s" and r: "runs (m_at s) i j" and q: "m_pc s j = Signal1"
  shows "sched_inv ch (goto j Signal2 (s\<lparr>m_cond := True\<rparr>))"
proof -
  note f = runs_facts[OF inv r]
  show ?thesis
    by (rule proc_moves[OF inv r f(1), where q = Signal2 and b = True and L = "m_locks s"])
      (use f(2) q in \<open>auto simp: goto_def relocked_def zone_one simp del: zone_simps\<close>)
qed

text \<open>The sections under the lock of the process table.\<close>

lemma wakeup_step:
  assumes inv: "sched_inv ch s" and r: "runs (m_at s) i j" and q: "m_pc s j = Signal2"
  shows "\<exists>t. signal_wakeup ch i j s = Inr t \<and> sched_inv ch t"
proof -
  have fr: "m_cpus (fst (wakeup1 ch s0, Signal3)) = m_cpus s0 \<and> m_locks (fst (wakeup1 ch s0, Signal3)) = m_locks s0" for s0 :: mach
    by (simp add: wakeup1_def)
  have nz: "\<not> zone Ptable_lock (m_pc s j)" by (simp add: q)
  from inv r nz fr show ?thesis
  proof (cases rule: section_cases)
    case busy
    then show ?thesis using inv by (simp add: signal_wakeup_def)
  next
    case (go s0 t c)
    let ?s1 = "s\<lparr>procs := woken ch (procs s)\<rparr>"
    have "zombies_ok (woken ch (procs s))"
      using inv by (auto simp: sched_inv_def zombies_ok_def woken_def Let_def split: if_splits)
    moreover have "parents_ok (initproc s) (m_at s) (m_pc s) (woken ch (procs s))"
      using inv by (auto simp: sched_inv_def parents_ok_def woken_def Let_def split: if_splits)
    ultimately have s1: "sched_inv ch ?s1" by (intro nudged_inv[OF inv nudged_woken]) simp_all
    have none: "\<not> waiting ch (m_at s) (m_pc s) (woken ch (procs s)) k" for k
    proof
      assume w: "waiting ch (m_at s) (m_pc s) (woken ch (procs s)) k"
      then obtain i' where i': "runs (m_at s) i' k" "m_pc s k = Sleep2"
        by (auto simp: waiting_def woken_def Let_def split: if_splits)
      then show False using runs_facts(4)[OF inv i'(1), of Ptable_lock] go(1) by simp
    qed
    have r1: "runs (m_at ?s1) i j" using r by simp
    note f = runs_facts[OF inv r]
    have "sched_inv ch (goto j Signal3 t)"
      by (rule proc_moves[OF s1 r1 go(15), where q = Signal3 and b = "m_cond s" and L = "m_locks s"])
        (use go(2-6,8-14,16,17) f(2) q none in \<open>auto simp: mach_defs relocked_def zone_one wakeup1_def simp del: zone_simps\<close>)
    then show ?thesis using go(7) by (simp add: signal_wakeup_def)
  qed
qed

lemma kill_frame: "\<exists>ps. snd (kill pid s) = s\<lparr>procs := ps\<rparr>"
proof -
  have "\<exists>ps. s = s\<lparr>procs := ps\<rparr>" by (rule exI[of _ "procs s"]) simp
  then show ?thesis by (auto simp: kill_def upd_proc_def split: option.split)
qed

lemma kill_effect:
  "nudged (procs s) (procs (snd (kill pid s)))" "p_parent (procs (snd (kill pid s)) k) = p_parent (procs s k)"
  by (auto simp: kill_def upd_proc_def nudged_def split: option.split)

lemma nudged_family:
  assumes "nudged ps qs" "\<And>k. p_parent (qs k) = p_parent (ps k)"
  shows "zombies_ok ps \<Longrightarrow> zombies_ok qs" "parents_ok init at pc ps \<Longrightarrow> parents_ok init at pc qs"
proof -
  have st: "p_state (qs k) = p_state (ps k) \<or> p_state (ps k) = SLEEPING \<and> p_state (qs k) = RUNNABLE"
    "p_state (ps k) \<noteq> RUNNING \<longrightarrow> p_chan (qs k) = p_chan (ps k)" for k
    using assms(1) by (auto simp: nudged_def)
  have z: "p_state (qs k) = ZOMBIE \<Longrightarrow> p_state (ps k) = ZOMBIE" "p_state (qs k) = SLEEPING \<Longrightarrow> p_state (ps k) = SLEEPING \<and> p_chan (qs k) = p_chan (ps k)"
    "p_state (ps k) \<in> {RUNNABLE, SLEEPING, RUNNING} \<Longrightarrow> p_state (qs k) \<in> {RUNNABLE, SLEEPING, RUNNING}" for k
    using st[of k] by auto
  show "zombies_ok ps \<Longrightarrow> zombies_ok qs" using z(1,2) unfolding zombies_ok_def assms(2) by metis
  show "parents_ok init at pc ps \<Longrightarrow> parents_ok init at pc qs" using z(3) unfolding parents_ok_def assms(2) by blast
qed

lemma kill_step:
  assumes inv: "sched_inv ch s" and r: "runs (m_at s) i j" and q: "m_pc s j = Kill0 pid"
  shows "\<exists>t. kill_section pid i j s = Inr t \<and> sched_inv ch t"
proof -
  have k: "\<exists>ps. snd (kill pid s0) = s0\<lparr>procs := ps\<rparr>" for s0 :: mach by (rule kill_frame)
  have fr: "m_cpus (fst (snd (kill pid s0), User)) = m_cpus s0 \<and> m_locks (fst (snd (kill pid s0), User)) = m_locks s0" for s0 :: mach
    using k[of s0] by auto
  have nz: "\<not> zone Ptable_lock (m_pc s j)" by (simp add: q)
  from inv r nz fr show ?thesis
  proof (cases rule: section_cases)
    case busy
    then show ?thesis using inv by (simp add: kill_section_def)
  next
    case (go s0 t c)
    obtain ps where ps: "snd (kill pid s0) = s0\<lparr>procs := ps\<rparr>" using k by blast
    have n: "nudged (procs s) ps" "\<And>k. p_parent (ps k) = p_parent (procs s k)"
      using kill_effect[where s = s0 and pid = pid] ps go(2) by simp_all
    have s1: "sched_inv ch (s\<lparr>procs := ps\<rparr>)"
      by (rule nudged_inv[OF inv n(1)]) (use nudged_family[OF n] inv in \<open>simp_all add: sched_inv_def\<close>)
    have r1: "runs (m_at (s\<lparr>procs := ps\<rparr>)) i j" using r by simp
    note f = runs_facts[OF inv r]
    have "sched_inv ch (goto j User t)"
      by (rule proc_moves[OF s1 r1 go(15), where q = User and b = "m_cond s" and L = "m_locks s"])
        (use go(2-6,8-14,16,17) f(2) q in \<open>auto simp: mach_defs relocked_def zone_one ps simp del: zone_simps\<close>)
    then show ?thesis using go(7) by (simp add: kill_section_def)
  qed
qed

lemma allocproc_frame:
  fixes s :: mach
  shows "m_cpus (snd (allocproc s)) = m_cpus s" "m_locks (snd (allocproc s)) = m_locks s" "m_at (snd (allocproc s)) = m_at s"
    "m_pc (snd (allocproc s)) = m_pc s" "m_cond (snd (allocproc s)) = m_cond s" "initproc (snd (allocproc s)) = initproc s"
  by (auto simp: allocproc_def kalloc_def upd_proc_def Let_def split: option.split)

lemma allocproc_kstack: "allocproc s = (Some p, s') \<Longrightarrow> p_kstack (procs s' p) \<noteq> 0"
  by (auto simp: allocproc_def upd_proc_def Let_def split: option.splits prod.splits if_splits)

lemma fork_alloc_step:
  assumes inv: "sched_inv ch s" and r: "runs (m_at s) i j" and q: "m_pc s j = Fork0 d"
  shows "\<exists>t. fork_alloc d i j s = Inr t \<and> sched_inv ch t"
proof -
  let ?f = "\<lambda>s :: mach. case allocproc s of (None, s) \<Rightarrow> (s, User) | (Some q, s) \<Rightarrow> (s, Fork1 q d)"
  have ff: "fst (?f s0) = snd (allocproc s0)" for s0 by (auto split: prod.split option.split)
  have fr: "m_cpus (fst (?f s0)) = m_cpus s0 \<and> m_locks (fst (?f s0)) = m_locks s0" for s0 unfolding ff by (simp add: allocproc_frame)
  have nz: "\<not> zone Ptable_lock (m_pc s j)" by (simp add: q)
  have d: "d \<noteq> 0" using inv r q by (auto simp: sched_inv_def forks_ok_def)
  from inv r nz fr show ?thesis
  proof (cases rule: section_cases)
    case busy
    then show ?thesis using inv by (simp add: fork_alloc_def)
  next
    case (go s0 t c)
    note f = runs_facts[OF inv r]
    note t = go(8,9) go(10-14)[unfolded ff allocproc_frame go(3-6)]
    have pend: "m_pc s k \<noteq> Fork1 p d'" if "runs (m_at s) i' k" "p_state (procs s p) = UNUSED" for i' k p d'
      using inv that unfolding sched_inv_def forks_ok_def by (metis procstate.distinct(1))
    show ?thesis
    proof (cases rule: allocproc_cases[of s0])
      case full
      have "sched_inv ch (goto j User t)"
        by (rule proc_moves[OF inv r go(15), where q = User and b = "m_cond s" and L = "m_locks s"])
          (use t go(2,16,17) f(2) q full in \<open>auto simp: mach_defs relocked_def zone_one simp del: zone_simps\<close>)
      then show ?thesis using go(7) full by (simp add: fork_alloc_def)
    next
      case (nomem p s')
      let ?x = "(procs s p)\<lparr>p_pid := nextpid s0, p_kstack := 0, p_state := UNUSED\<rparr>"
      let ?s1 = "s\<lparr>procs := (procs s)(p := ?x)\<rparr>"
      have s1: "sched_inv ch ?s1"
        by (rule slot_changed[OF inv, where p = p and x = ?x and q = "m_pc s p"])
          (use nomem(1,2) pend go(2) inv in \<open>auto simp: proc_fits_def sched_inv_def parents_ok_def\<close>)
      have r1: "runs (m_at ?s1) i j" using r by simp
      have "sched_inv ch (goto j User t)"
        by (rule proc_moves[OF s1 r1 go(15), where q = User and b = "m_cond s" and L = "m_locks s"])
          (use t go(2,16,17) f(2) q nomem in \<open>auto simp: mach_defs relocked_def zone_one simp del: zone_simps\<close>)
      then show ?thesis using go(7) nomem by (simp add: fork_alloc_def)
    next
      case (new p s' ks)
      let ?x = "(procs s p)\<lparr>p_state := EMBRYO, p_pid := nextpid s0, p_kstack := ks, p_context := 3996 + ks\<rparr>"
      let ?s1 = "s\<lparr>procs := (procs s)(p := ?x)\<rparr>"
      have ks: "ks \<noteq> 0" using allocproc_kstack[OF new(4)] by (simp add: new(5))
      have s1: "sched_inv ch ?s1"
        by (rule slot_changed[OF inv, where p = p and x = ?x and q = "m_pc s p"])
          (use new(1,2) pend go(2) inv in \<open>auto simp: proc_fits_def sched_inv_def parents_ok_def\<close>)
      have r1: "runs (m_at ?s1) i j" using r by simp
      have "sched_inv ch (goto j (Fork1 p d) t)"
        by (rule proc_moves[OF s1 r1 go(15), where q = "Fork1 p d" and b = "m_cond s" and L = "m_locks s"])
          (use t go(2,16,17) f(2) q new ks d pend in \<open>auto simp: mach_defs relocked_def zone_one simp del: zone_simps\<close>)
      then show ?thesis using go(7) new by (simp add: fork_alloc_def)
    qed
  qed
qed

lemma fork_publish_step:
  assumes inv: "sched_inv ch s" and r: "runs (m_at s) i j" and q: "m_pc s j = Fork1 p d"
  shows "\<exists>t. fork_publish p d i j s = Inr t \<and> sched_inv ch t"
proof -
  let ?g = "\<lambda>x :: proc. x\<lparr>p_pgdir := d, p_parent := Some j, p_state := RUNNABLE\<rparr>"
  let ?f = "\<lambda>s :: mach. (goto p Forkret (upd_proc p ?g s), User)"
  have fr: "m_cpus (fst (?f s0)) = m_cpus s0 \<and> m_locks (fst (?f s0)) = m_locks s0" for s0 by (simp add: mach_defs)
  have nz: "\<not> zone Ptable_lock (m_pc s j)" by (simp add: q)
  have F: "forks_ok (m_at s) (m_pc s) (procs s)" using inv by (simp add: sched_inv_def)
  have p: "p < NPROC" "p_state (procs s p) = EMBRYO" "p_kstack (procs s p) \<noteq> 0" "d \<noteq> 0"
    using F r q unfolding forks_ok_def by blast+
  have sole: "k = j" if "runs (m_at s) i' k" "m_pc s k = Fork1 p d'" for i' k d'
    using F[unfolded forks_ok_def, THEN conjunct2, THEN conjunct1, rule_format, OF that(1) r that(2) q] .
  from inv r nz fr show ?thesis
  proof (cases rule: section_cases)
    case busy
    then show ?thesis using inv by (simp add: fork_publish_def)
  next
    case (go s0 t c)
    note f = runs_facts[OF inv r]
    have jp: "j \<noteq> p" using f(7) p(2) by auto
    note t = go(8-14)[unfolded fst_conv mach_defs go(2-6)]
    let ?s1 = "goto j User (put_cpu i c s)"
    have s1: "sched_inv ch ?s1"
      by (rule proc_moves[OF inv r go(15), where q = User and b = "m_cond s" and L = "m_locks s"])
        (use go(16,17) f(2) q in \<open>auto simp: mach_defs relocked_def zone_one simp del: zone_simps\<close>)
    have "sched_inv ch (goto j User t)"
    proof (rule slot_changed[OF s1, where p = p and x = "?g (procs s p)" and q = Forkret])
      fix i' k d' assume "runs (m_at ?s1) i' k"
      then show "m_pc ?s1 k \<noteq> Fork1 p d'" using sole[of i' k d'] by (auto simp: mach_defs)
    qed (use t p jp in \<open>auto simp: mach_defs proc_fits_def fun_upd_twist\<close>)
    then show ?thesis using go(7) by (simp add: fork_publish_def)
  qed
qed

text \<open>The steps that give the CPU away.\<close>

lemma yield_step:
  assumes inv: "sched_inv ch s" and r: "runs (m_at s) i j" and q: "m_pc s j = Yield1"
  shows "\<exists>t. yield_sched i j s = Inr t \<and> sched_inv ch t"
proof -
  note f = runs_facts[OF inv r]
  have "\<exists>t. sched i j Yield2 (upd_proc j (\<lambda>x. x\<lparr>p_state := RUNNABLE\<rparr>) s) = Inr t \<and> sched_inv ch t \<and> m_at t i = Back j"
    by (rule sched_out[OF inv r]) (use q f inv in \<open>auto simp: proc_fits_def sched_inv_def parents_ok_def zombies_ok_def\<close>)
  then show ?thesis by (auto simp: yield_sched_def)
qed

lemma sleep_step:
  assumes inv: "sched_inv ch s" and r: "runs (m_at s) i j"
    and q: "m_pc s j = Sleep2 \<and> c = ch \<and> q' = Sleep3 \<or> m_pc s j = Wait1 \<and> c = ChanProc j \<and> q' = Wait2"
    and z: "\<And>p. p < NPROC \<Longrightarrow> p_state (procs s p) = ZOMBIE \<Longrightarrow> p_parent (procs s p) = Some j \<Longrightarrow> c \<noteq> ChanProc j"
    and w: "m_pc s j = Wait1 \<Longrightarrow> ch \<noteq> ChanProc j"
  shows "\<exists>t. sleep_sched i j c q' s = Inr t \<and> sched_inv ch t"
proof -
  note f = runs_facts[OF inv r]
  let ?x = "(procs s j)\<lparr>p_chan := Some c, p_state := SLEEPING\<rparr>"
  have Z: "zombies_ok (procs s)" and P: "parents_ok (initproc s) (m_at s) (m_pc s) (procs s)" using inv by (simp_all add: sched_inv_def)
  have z': "zombies_ok ((procs s)(j := ?x))"
    unfolding zombies_ok_def
  proof (intro allI impI)
    fix p k assume a: "p < NPROC" "k < NPROC" "p_state (((procs s)(j := ?x)) p) = ZOMBIE" "p_parent (((procs s)(j := ?x)) p) = Some k"
    then have p: "p \<noteq> j" "p_state (procs s p) = ZOMBIE" "p_parent (procs s p) = Some k" by (auto split: if_splits)
    show "\<not> (p_state (((procs s)(j := ?x)) k) = SLEEPING \<and> p_chan (((procs s)(j := ?x)) k) = Some (ChanProc k))"
    proof (cases "k = j")
      case True
      then show ?thesis using z[OF a(1) p(2)] p(3) by simp
    next
      case False
      then show ?thesis using Z a(1,2) p(2,3) unfolding zombies_ok_def by simp
    qed
  qed
  have fits: "proc_fits ch j ?x q'" using f(7,8) q by (auto simp: proc_fits_def)
  have "\<exists>t. sched i j q' (upd_proc j (\<lambda>x. x\<lparr>p_chan := Some c, p_state := SLEEPING\<rparr>) s) = Inr t \<and> sched_inv ch t \<and> m_at t i = Back j"
  proof (rule sched_out[OF inv r])
    show "zone Ptable_lock (m_pc s j)" "\<not> zone Cond_lock (m_pc s j)" using q by auto
    show "p_parent ?x \<noteq> Some j" using P f(6) by (simp add: parents_ok_def)
    show "p_parent ?x = None \<and> p_state ?x \<in> {RUNNABLE, SLEEPING}" if "initproc s = Some j" using P that by (simp add: parents_ok_def)
    show "m_pc s j = Sleep2 \<or> \<not> m_cond s" if "p_chan ?x = Some ch" using that q w by auto
  qed (use fits z' in simp_all)
  then show ?thesis by (auto simp: sleep_sched_def)
qed

lemma reap_inv:
  assumes inv: "sched_inv ch s" and p: "p < NPROC" "p_state (procs s p) = ZOMBIE"
  shows "sched_inv ch (reap p s)"
proof (rule slot_changed[OF inv, where p = p and q = "m_pc s p"])
  fix i k d assume "runs (m_at s) i k"
  then show "m_pc s k \<noteq> Fork1 p d" using inv p(2) unfolding sched_inv_def forks_ok_def by (metis procstate.distinct(17))
qed (use p inv in \<open>auto simp: reap_def mach_defs proc_fits_def\<close>)

lemma wait_step:
  assumes inv: "sched_inv ch s" and r: "runs (m_at s) i j" and q: "m_pc s j = Wait1" and w: "\<And>k. ch \<noteq> ChanProc k"
  shows "\<exists>t. wait_scan i j s = Inr t \<and> sched_inv ch t"
proof -
  have u: "\<exists>t. release Ptable_lock i s' = Inr t \<and> sched_inv ch (goto j User t)"
    if "sched_inv ch s'" "m_at s' = m_at s" "m_pc s' = m_pc s" for s'
    by (rule unlock_moves[OF that(1)]) (use r q in \<open>auto simp: that zone_one simp del: zone_simps\<close>)
  show ?thesis
  proof (cases "List.find (\<lambda>p. p_parent (procs s p) = Some j \<and> p_state (procs s p) = ZOMBIE) [0..<NPROC]")
    case None
    then have nz: "\<not> (p_parent (procs s p) = Some j \<and> p_state (procs s p) = ZOMBIE)" if "p < NPROC" for p
      using that by (auto simp: find_None_iff)
    have "\<exists>t. sleep_sched i j (ChanProc j) Wait2 s = Inr t \<and> sched_inv ch t"
      by (rule sleep_step[OF inv r]) (use q nz w in auto)
    then show ?thesis using None u[OF inv] by (auto simp: wait_scan_def Let_def)
  next
    case (Some p)
    then have p: "p < NPROC" "p_state (procs s p) = ZOMBIE" by (auto simp: find_Some_iff)
    have "\<exists>t. release Ptable_lock i (reap p s) = Inr t \<and> sched_inv ch (goto j User t)"
      by (rule u[OF reap_inv[OF inv p]]) (simp_all add: reap_def mach_defs)
    then show ?thesis using Some by (auto simp: wait_scan_def Let_def)
  qed
qed

lemma exit_step:
  assumes inv: "sched_inv ch s" and r: "runs (m_at s) i j" and q: "m_pc s j = Exit1"
  shows "\<exists>t. exit_sched i j s = Inr t \<and> sched_inv ch t"
proof -
  note f = runs_facts[OF inv r]
  have z: "zombies_ok (procs s)" and pa: "parents_ok (initproc s) (m_at s) (m_pc s) (procs s)" using inv by (simp_all add: sched_inv_def)
  let ?p = "p_parent (procs s j)"
  obtain ps where ps: "wakeup_proc ?p s = s\<lparr>procs := ps\<rparr>" using wakeup_proc_frame by blast
  have n1: "nudged (procs s) ps" "\<And>k. p_parent (ps k) = p_parent (procs s k)" "\<And>k. naps ps k \<Longrightarrow> k < NPROC \<Longrightarrow> ?p \<noteq> Some k"
    using wakeup_proc_effect(1-3)[where s = s and p = ?p] by (auto simp: ps)
  have fam: "family_ok (initproc s) ps"
    using nudged_family[OF n1(1,2)] z pa by (auto simp: family_ok_def parents_ok_def n1(2))
  let ?s1 = "s\<lparr>procs := ps, cur := j\<rparr>"
  obtain qs where qs: "reparent NPROC 0 ?s1 = s\<lparr>cur := j, procs := qs\<rparr>" using reparent_frame[of NPROC 0 ?s1] by auto
  have n2: "family_ok (initproc s) qs" "nudged ps qs" "\<And>k. naps qs k \<Longrightarrow> naps ps k" "\<And>k. p_parent (qs k) = p_parent (ps k) \<or> p_parent (ps k) = Some j"
    using reparent_effect[of ?s1 NPROC 0, unfolded qs] fam by auto
  note n = nudged_trans[OF n1(1) n2(2)]
  let ?s2 = "s\<lparr>cur := j, procs := qs\<rparr>"
  have st: "p_state (procs s k) \<in> {RUNNABLE, SLEEPING, RUNNING} \<Longrightarrow> p_state (qs k) \<in> {RUNNABLE, SLEEPING, RUNNING}" for k
    using n[unfolded nudged_def, rule_format, of k] by auto
  have "parents_ok (initproc s) (m_at s) (m_pc s) qs"
    using n2(1) pa st unfolding family_ok_def parents_ok_def by blast
  then have s2: "sched_inv ch ?s2" by (intro nudged_inv[OF inv n]) (use n2(1) in \<open>simp_all add: family_ok_def\<close>)
  have zq: "zombies_ok (qs(j := (qs j)\<lparr>p_state := ZOMBIE\<rparr>))"
  proof -
    have "\<not> naps qs k" if "k < NPROC" "p_parent (qs j) = Some k" for k
    proof -
      have "p_parent (procs s j) \<noteq> Some j" using pa f(6) by (auto simp: parents_ok_def)
      then have "?p = Some k" using that(2) n2(4)[of j] n1(2)[of j] by auto
      then show ?thesis using n1(3)[of k] n2(3)[of k] that(1) by blast
    qed
    then show ?thesis using n2(1) unfolding family_ok_def zombies_naps by (auto simp: naps_def)
  qed
  have init: "initproc s \<noteq> Some j" using pa r q by (auto simp: parents_ok_def)
  have "\<exists>t. sched i j Exit2 (upd_proc j (\<lambda>x. x\<lparr>p_state := ZOMBIE\<rparr>) ?s2) = Inr t \<and> sched_inv ch t \<and> m_at t i = Back j"
    by (rule sched_out[OF s2]) (use r q zq init n2(1) f(6) in \<open>auto simp: proc_fits_def family_ok_def\<close>)
  then show ?thesis unfolding exit_sched_def Let_def ps qs by blast
qed

text \<open>The steps of the scheduler loop.\<close>

lemma loop_facts:
  assumes "sched_inv ch s" "i < NCPU" "in_loop (m_at s i)"
  shows "cpu_ok (m_cpus s i)" "c_ncli (m_cpus s i) = of_bool (m_at s i \<noteq> Top)"
    "lk_cpu (m_locks s Ptable_lock) = Some i \<longleftrightarrow> m_at s i \<noteq> Top" "m_at s i \<noteq> Top \<Longrightarrow> lk_locked (m_locks s Ptable_lock)"
proof -
  have h: "holder l (m_at s) (m_pc s) i \<longleftrightarrow> l = Ptable_lock \<and> m_at s i \<noteq> Top" for l
    using assms(3) by (auto simp: holder_def in_loop_def split: cpu_at.split)
  have C: "cpus_ok (m_at s) (m_pc s) (m_cpus s)" and L: "locks_ok (m_at s) (m_pc s) (m_locks s)" using assms(1) by (simp_all add: sched_inv_def)
  show "cpu_ok (m_cpus s i)" "c_ncli (m_cpus s i) = of_bool (m_at s i \<noteq> Top)" using C assms(2) by (auto simp: cpus_ok_def h)
  show o: "lk_cpu (m_locks s Ptable_lock) = Some i \<longleftrightarrow> m_at s i \<noteq> Top" using L assms(2) h[of Ptable_lock] unfolding locks_ok_def by auto
  show "m_at s i \<noteq> Top \<Longrightarrow> lk_locked (m_locks s Ptable_lock)" using L o unfolding locks_ok_def by auto
qed

lemma switchuvm_ok:
  assumes "cpu_ok c" "mycpu s = c" "p_kstack (procs s p) \<noteq> 0" "p_pgdir (procs s p) \<noteq> 0"
  shows "\<exists>c'. switchuvm (Some p) s = Inr (s\<lparr>mycpu := c'\<rparr>) \<and> cpu_ok c' \<and> c_ncli c' = c_ncli c \<and> c_proc c' = c_proc c"
proof -
  define d where "d = (pushcli c)\<lparr>c_gdt := (c_gdt (pushcli c))(unat SEG_TSS := (SEG16 STS_T32A (c_ts_addr (pushcli c)) (104 - 1) 0)\<lparr>sd_s := 0\<rparr>),
    c_ts_ss0 := ucast (push_bit 3 SEG_KDATA), c_ts_esp0 := p_kstack (procs s p) + of_nat KSTACKSIZE, c_ts_iomb := 0xFFFF, c_cr3 := V2P (p_pgdir (procs s p))\<rparr>"
  have d: "cpu_ok d" "c_ncli d = c_ncli c + 1" "c_proc d = c_proc c" "0 < c_ncli d"
    using pushcli_ok[OF assms(1)] assms(1) by (simp_all add: d_def cpu_ok_def pushcli_def Let_def)
  obtain c' where c': "popcli d = Inr c'" "cpu_ok c'" "c_ncli c' = c_ncli d - 1" using popcli_ok[OF d(1,4)] by blast
  then have "c_proc c' = c_proc d" by (auto simp: popcli_def Let_def split: if_splits)
  moreover have "switchuvm (Some p) s = Inr (s\<lparr>mycpu := c'\<rparr>)"
    using assms(3,4) c'(1) by (simp add: switchuvm_def assms(2) d_def Let_def)
  ultimately show ?thesis using c' d by auto
qed

lemma scheduler_ok:
  assumes inv: "sched_inv ch s" and i: "i < NCPU" and a: "in_loop (m_at s i)"
  shows "\<exists>t. scheduler i s = Inr t \<and> sched_inv ch t"
proof (cases "m_at s i")
  case Top
  note f = loop_facts[OF inv i a]
  let ?c = "(m_cpus s i)\<lparr>c_if := True\<rparr>" and ?s = "put_cpu i ((m_cpus s i)\<lparr>c_if := True\<rparr>) s"
  have s1: "sched_inv ch ?s"
    by (rule loop_moves[OF inv i a, where a = Top and c = ?c and L = "m_locks s"])
      (use Top f in \<open>auto simp: in_loop_def cpu_ok_def mach_defs relocked_def\<close>)
  have "cpu_ok (m_cpus ?s i)" "lk_cpu (m_locks ?s Ptable_lock) \<noteq> Some i" using f Top by (auto simp: mach_defs cpu_ok_def)
  then show ?thesis
  proof (cases rule: acquire_cases)
    case busy
    then show ?thesis using s1 Top by (simp add: scheduler_def with_lock_def)
  next
    case (got c)
    have at: "in_loop (m_at ?s i)" using a by (simp add: mach_defs)
    have "sched_inv ch (moveto i (Scan 0) (put_lock Ptable_lock \<lparr>lk_locked = True, lk_cpu = Some i\<rparr> (put_cpu i c ?s)))"
      by (rule loop_moves[OF s1 i at, where a = "Scan 0" and c = c and L = "(m_locks s)(Ptable_lock := \<lparr>lk_locked = True, lk_cpu = Some i\<rparr>)"])
        (use got Top f in \<open>auto simp: in_loop_def mach_defs relocked_def\<close>)
    then show ?thesis using got Top by (simp add: scheduler_def with_lock_def)
  qed
next
  case (Scan p)
  note f = loop_facts[OF inv i a]
  show ?thesis
  proof (cases "p < NPROC")
    case True
    show ?thesis
    proof (cases "p_state (procs s p) = RUNNABLE")
      case False
      have "sched_inv ch (moveto i (Scan (Suc p)) s)"
        by (rule loop_moves[OF inv i a, where a = "Scan (Suc p)" and c = "m_cpus s i" and L = "m_locks s"])
          (use Scan f in \<open>auto simp: in_loop_def mach_defs relocked_def\<close>)
      then show ?thesis using Scan True False by (simp add: scheduler_def)
    next
      case st: True
      have k: "p_kstack (procs s p) \<noteq> 0" "p_pgdir (procs s p) \<noteq> 0"
        using inv True st by (auto simp: sched_inv_def table_ok_def proc_fits_def)
      let ?c = "(m_cpus s i)\<lparr>c_proc := Some p\<rparr>" and ?s = "put_cpu i ((m_cpus s i)\<lparr>c_proc := Some p\<rparr>) s"
      have c: "cpu_ok ?c" "c_ncli ?c = 1" using f(1,2) Scan by (simp_all add: cpu_ok_def)
      obtain c' where c': "switchuvm (Some p) (?s\<lparr>mycpu := ?c\<rparr>) = Inr ((?s\<lparr>mycpu := ?c\<rparr>)\<lparr>mycpu := c'\<rparr>)" "cpu_ok c'" "c_ncli c' = 1" "c_proc c' = Some p"
        using switchuvm_ok[of ?c "?s\<lparr>mycpu := ?c\<rparr>" p] c k by (auto simp: put_cpu_def)
      let ?t = "moveto i (In p) (upd_proc p (\<lambda>x. x\<lparr>p_state := RUNNING\<rparr>) (put_cpu i c' (?s\<lparr>mycpu := c'\<rparr>)))"
      have "sched_inv ch ?t"
        by (rule switch_in[OF inv i Scan True st c'(2-4)]) (simp_all add: put_cpu_def moveto_def upd_proc_def)
      moreover have "scheduler i s = Inr ?t"
        using Scan True st c'(1) by (simp add: scheduler_def on_cpu_def mach_defs)
      ultimately show ?thesis by blast
    qed
  next
    case False
    obtain c where c: "release Ptable_lock i s = Inr (put_lock Ptable_lock \<lparr>lk_locked = False, lk_cpu = None\<rparr> (put_cpu i c s))"
      "cpu_ok c" "c_ncli c = c_ncli (m_cpus s i) - 1" "c_proc c = c_proc (m_cpus s i)"
      using release_ok[OF f(1), of Ptable_lock] f Scan by auto
    have "sched_inv ch (moveto i Top (put_lock Ptable_lock \<lparr>lk_locked = False, lk_cpu = None\<rparr> (put_cpu i c s)))"
      by (rule loop_moves[OF inv i a, where a = Top and c = c and L = "(m_locks s)(Ptable_lock := \<lparr>lk_locked = False, lk_cpu = None\<rparr>)"])
        (use Scan f c in \<open>auto simp: in_loop_def mach_defs relocked_def\<close>)
    then show ?thesis using Scan False c(1) by (simp add: scheduler_def)
  qed
next
  case (Back p)
  note f = loop_facts[OF inv i a]
  let ?c = "(m_cpus s i)\<lparr>c_cr3 := V2P (kpgdir s)\<rparr>"
  let ?t = "moveto i (Scan (Suc p)) (put_cpu i (?c\<lparr>c_proc := None\<rparr>) (put_cpu i ?c (s\<lparr>mycpu := ?c\<rparr>)))"
  have "sched_inv ch ?t"
    by (rule loop_moves[OF inv i a, where a = "Scan (Suc p)" and c = "?c\<lparr>c_proc := None\<rparr>" and L = "m_locks s"])
      (use Back f in \<open>auto simp: in_loop_def put_cpu_def moveto_def relocked_def cpu_ok_def\<close>)
  then show ?thesis using Back by (simp add: scheduler_def on_cpu_def switchkvm_def put_cpu_def)
qed (use a in \<open>simp add: in_loop_def\<close>)

lemma proc_step_ok:
  assumes inv: "sched_inv ch s" and r: "runs (m_at s) i j" and w: "\<And>k. ch \<noteq> ChanProc k"
  shows "\<exists>t. proc_step ch i j s = Inr t \<and> sched_inv ch t"
proof -
  have e: "m_pc s j \<noteq> Exit2" using inv r by (auto simp: sched_inv_def table_ok_def)
  have sl: "m_pc s j = Sleep2 \<Longrightarrow> \<exists>t. sleep_sched i j ch Sleep3 s = Inr t \<and> sched_inv ch t"
    by (rule sleep_step[OF inv r]) (use w in auto)
  show ?thesis
    using inv e locking_steps[OF inv r] unlocking_steps[OF inv r] cond_test_step[OF inv r] signal_step[OF inv r] wakeup_step[OF inv r]
      kill_step[OF inv r] fork_alloc_step[OF inv r] fork_publish_step[OF inv r] yield_step[OF inv r] sl wait_step[OF inv r _ w] exit_step[OF inv r]
    by (cases "m_pc s j") (simp_all add: proc_step_def)
qed

lemma kstep_ok:
  assumes "sched_inv ch s" "i < NCPU" "\<And>k. ch \<noteq> ChanProc k"
  shows "\<exists>t. kstep ch i s = Inr t \<and> sched_inv ch t"
proof (cases "\<exists>j. m_at s i = In j")
  case True
  then obtain j where j: "m_at s i = In j" by blast
  then have "runs (m_at s) i j" using assms(2) by (simp add: runs_def)
  from proc_step_ok[OF assms(1) this assms(3)] show ?thesis by (simp add: kstep_def j)
next
  case False
  then have "in_loop (m_at s i)" by (simp add: in_loop_def)
  from scheduler_ok[OF assms(1,2) this] False show ?thesis by (cases "m_at s i") (auto simp: kstep_def)
qed

section \<open>Runs of the machine\<close>

text \<open>After the boot: the CPUs at the top of their scheduler loops, the locks as \<open>initlock\<close> made them, and the first
  process ready to run.\<close>

definition booted :: "nat \<Rightarrow> mach \<Rightarrow> bool" where
  "booted p s \<longleftrightarrow> p < NPROC \<and> initproc s = Some p \<and> \<not> m_cond s \<and>
     list_all (\<lambda>i. m_at s i = Top \<and> c_ncli (m_cpus s i) = 0) [0..<NCPU] \<and>
     m_locks s Ptable_lock = initlock \<and> m_locks s Cond_lock = initlock \<and>
     p_state (procs s p) = RUNNABLE \<and> m_pc s p = Forkret \<and> p_kstack (procs s p) \<noteq> 0 \<and> p_pgdir (procs s p) \<noteq> 0 \<and>
     list_all (\<lambda>q. p_parent (procs s q) = None \<and> (q \<noteq> p \<longrightarrow> p_state (procs s q) = UNUSED)) [0..<NPROC]"

lemma booted_inv:
  assumes "booted p s"
  shows "sched_inv ch s"
proof -
  have b: "p < NPROC" "initproc s = Some p" "\<not> m_cond s" "\<And>i. i < NCPU \<Longrightarrow> m_at s i = Top \<and> c_ncli (m_cpus s i) = 0"
    "\<And>l. m_locks s l = initlock" "p_state (procs s p) = RUNNABLE" "m_pc s p = Forkret" "p_kstack (procs s p) \<noteq> 0" "p_pgdir (procs s p) \<noteq> 0"
    "\<And>q. q < NPROC \<Longrightarrow> p_parent (procs s q) = None \<and> (q \<noteq> p \<longrightarrow> p_state (procs s q) = UNUSED)"
    using assms lockid.exhaust unfolding booted_def by (auto simp: list_all_iff) (metis lockid.exhaust)
  have r: "\<not> runs (m_at s) i j" for i j using b(4) by (auto simp: runs_def)
  have h: "\<not> holder l (m_at s) (m_pc s) i" if "i < NCPU" for l i using b(4)[OF that] by (simp add: holder_def)
  have "cpus_ok (m_at s) (m_pc s) (m_cpus s)" using b(4) h by (simp add: cpus_ok_def cpu_ok_def)
  moreover have "locks_ok (m_at s) (m_pc s) (m_locks s)" using b(5) h by (simp add: locks_ok_def initlock_def)
  moreover have "proc_fits ch j (procs s j) (m_pc s j)" if "j < NPROC" for j
    using b(6-9) b(10)[OF that] by (cases "j = p") (auto simp: proc_fits_def)
  then have "table_ok ch (m_at s) (m_pc s) (procs s)" using r by (simp add: table_ok_def)
  moreover have "zombies_ok (procs s)" using b(10) by (auto simp: zombies_ok_def)
  ultimately show ?thesis using r b(1-3,6,10) by (simp add: sched_inv_def forks_ok_def cond_ok_def parents_ok_def)
qed

lemma sched_step_inv:
  assumes "sched_step ch s t" "sched_inv ch s" "\<And>k. ch \<noteq> ChanProc k"
  shows "sched_inv ch t"
  using assms
proof (induction rule: sched_step.induct)
  case (run i s t)
  then show ?case using kstep_ok[of ch s i] by auto
next
  case (call i s j q)
  have r: "runs (m_at s) i j" using call by (simp add: runs_def)
  note f = runs_facts[OF call(5) r]
  show ?case
    by (rule proc_moves[OF call(5) r f(1), where q = q and b = "m_cond s" and L = "m_locks s"])
      (use call f(2) in \<open>auto simp: mach_defs relocked_def entry_def zone_one simp del: zone_simps\<close>)
next
  case (sti_cli i s j b)
  have n: "c_ncli (m_cpus s i) = 0" using runs_facts(2)[OF sti_cli(4), of i j] sti_cli by (simp add: runs_def)
  have C: "cpus_ok (m_at s) (m_pc s) (m_cpus s)" using sti_cli(4) by (simp add: sched_inv_def)
  let ?cs = "(m_cpus s)(i := (m_cpus s i)\<lparr>c_if := b\<rparr>)"
  have same: "c_ncli (?cs k) = c_ncli (m_cpus s k)" "c_proc (?cs k) = c_proc (m_cpus s k)" "cpu_ok (m_cpus s k) \<Longrightarrow> cpu_ok (?cs k)" for k
    using n by (simp_all add: cpu_ok_def)
  have "cpus_ok (m_at s) (m_pc s) ?cs" using C same(3) unfolding cpus_ok_def same(1,2) by blast
  then show ?case using sti_cli(4) unfolding sched_inv_def mach_defs by blast
qed

lemma reachable_inv:
  assumes "booted p s0" "(sched_step ch)\<^sup>*\<^sup>* s0 s" "\<And>k. ch \<noteq> ChanProc k"
  shows "sched_inv ch s"
  using assms(2,1,3) by (induction rule: rtranclp_induct) (auto intro: booted_inv sched_step_inv)

text \<open>C8: The scheduler is safe on any number of CPUs.  Whatever the interleaving, no CPU panics (so \<^verbatim>\<open>sched\<close> is always
  entered with just the lock of the process table, interrupts off and the state changed, every lock is
  released by its holder, and no zombie runs again), and a process is on at most one CPU, which
  knows it as its current process.\<close>

theorem scheduler_safe:
  assumes "booted p s0" "(sched_step ch)\<^sup>*\<^sup>* s0 s" "\<forall>k. ch \<noteq> ChanProc k"
  shows "(\<forall>i<NCPU. \<exists>t. kstep ch i s = Inr t) \<and>
    (\<forall>i<NCPU. \<forall>j. m_at s i = In j \<longrightarrow> p_state (procs s j) = RUNNING \<and> c_proc (m_cpus s i) = Some j \<and>
       (\<forall>i'<NCPU. m_at s i' = In j \<longrightarrow> i' = i))"
proof -
  have inv: "sched_inv ch s" using reachable_inv[OF assms(1,2)] assms(3) by blast
  have "\<exists>t. kstep ch i s = Inr t" if "i < NCPU" for i using kstep_ok[OF inv that] assms(3) by blast
  moreover have "p_state (procs s j) = RUNNING \<and> c_proc (m_cpus s i) = Some j \<and> (\<forall>i'<NCPU. m_at s i' = In j \<longrightarrow> i' = i)"
    if "i < NCPU" "m_at s i = In j" for i j
    using inv that unfolding sched_inv_def table_ok_def cpus_ok_def runs_def by blast
  ultimately show ?thesis by blast
qed

text \<open>C9: No wakeup is lost.  When the condition holds and its lock is free, no process sleeps for it, although \<^verbatim>\<open>sleep\<close>
  gives up the lock before the process is marked as sleeping; and no parent sleeps in \<^verbatim>\<open>wait\<close> when one
  of its children has exited, even when the child has been handed to it by another process's exit.\<close>

theorem no_lost_wakeup:
  assumes "booted p s0" "(sched_step ch)\<^sup>*\<^sup>* s0 s" "\<forall>k. ch \<noteq> ChanProc k"
  shows "(m_cond s \<and> \<not> lk_locked (m_locks s Cond_lock) \<longrightarrow> (\<forall>j<NPROC. \<not> (p_state (procs s j) = SLEEPING \<and> p_chan (procs s j) = Some ch))) \<and>
    (\<forall>q<NPROC. \<forall>j<NPROC. p_state (procs s q) = ZOMBIE \<and> p_parent (procs s q) = Some j \<longrightarrow>
       \<not> (p_state (procs s j) = SLEEPING \<and> p_chan (procs s j) = Some (ChanProc j)))"
proof -
  have inv: "sched_inv ch s" using reachable_inv[OF assms(1,2)] assms(3) by blast
  have "\<not> (p_state (procs s j) = SLEEPING \<and> p_chan (procs s j) = Some ch)"
    if c: "m_cond s" "\<not> lk_locked (m_locks s Cond_lock)" "j < NPROC" for j
  proof
    assume "p_state (procs s j) = SLEEPING \<and> p_chan (procs s j) = Some ch"
    then have "waiting ch (m_at s) (m_pc s) (procs s) j" using c(3) by (simp add: waiting_def)
    then obtain i k where k: "runs (m_at s) i k" "m_pc s k = Signal2"
      using inv c(1) unfolding sched_inv_def cond_ok_def by blast
    then show False using runs_facts(4)[OF inv k(1), of Cond_lock] c(2) by simp
  qed
  moreover have "zombies_ok (procs s)" using inv by (simp add: sched_inv_def)
  ultimately show ?thesis unfolding zombies_ok_def by blast
qed

section \<open>Progress\<close>

text \<open>The lock a step has to take.\<close>

definition wants :: "kpc \<Rightarrow> lockid option" where
  "wants q = (case q of
     Yield0 \<Rightarrow> Some Ptable_lock | Sleep0 \<Rightarrow> Some Ptable_lock | Wait0 \<Rightarrow> Some Ptable_lock | Exit0 \<Rightarrow> Some Ptable_lock | Signal2 \<Rightarrow> Some Ptable_lock
   | Kill0 pid \<Rightarrow> Some Ptable_lock | Fork0 d \<Rightarrow> Some Ptable_lock | Fork1 p d \<Rightarrow> Some Ptable_lock
   | Cond0 \<Rightarrow> Some Cond_lock | Sleep4 \<Rightarrow> Some Cond_lock | Signal0 \<Rightarrow> Some Cond_lock | _ \<Rightarrow> None)"

text \<open>The CPU takes a step that gets it somewhere else.\<close>

definition advances :: "chan \<Rightarrow> nat \<Rightarrow> mach \<Rightarrow> bool" where
  "advances ch i s \<longleftrightarrow> (\<exists>t. kstep ch i s = Inr t \<and> (m_at t i \<noteq> m_at s i \<or> (\<exists>j. m_at s i = In j \<and> m_pc t j \<noteq> m_pc s j)))"

lemma with_lock_goto: "with_lock l i (\<lambda>s. Inr (goto j q s)) s = Inr t \<Longrightarrow> \<not> lk_locked (m_locks s l) \<Longrightarrow> m_pc t j = q"
  by (auto simp: with_lock_def acquire_def goto_def split: if_splits option.splits)

lemma section_goto:
  assumes "ptable_section i j f s = Inr t" "\<not> lk_locked (m_locks s Ptable_lock)"
  shows "\<exists>s0. m_pc t j = snd (f s0)"
  using assms by (auto simp: ptable_section_def with_lock_def acquire_def goto_def case_prod_beta split: if_splits option.splits)

lemma section_goto_const:
  "ptable_section i j (\<lambda>s. (g s, q)) s = Inr t \<Longrightarrow> \<not> lk_locked (m_locks s Ptable_lock) \<Longrightarrow> m_pc t j = q"
  using section_goto[of i j "\<lambda>s. (g s, q)" s t] by simp

lemma sched_goto: "sched i j q s = Inr t \<Longrightarrow> m_at t i = Back j"
  by (auto simp: sched_def moveto_def split: if_splits)

lemma proc_step_moves:
  assumes t: "proc_step ch i j s = Inr t" and at: "m_at s i = In j" and u: "m_pc s j \<noteq> User"
    and l: "\<And>l. wants (m_pc s j) = Some l \<Longrightarrow> \<not> lk_locked (m_locks s l)"
  shows "m_at t i \<noteq> m_at s i \<or> m_pc t j \<noteq> m_pc s j"
proof -
  note d = proc_step_def wants_def
  note g = with_lock_goto[of _ i j _ s t] and b = section_goto_const[of i j _ _ s t] and c = sched_goto[of i j _ _ t]
  show ?thesis
  proof (cases "m_pc s j")
    case (Fork0 x)
    have "fork_alloc x i j s = Inr t" "\<not> lk_locked (m_locks s Ptable_lock)" using t l Fork0 by (simp_all add: d)
    from section_goto[OF this(1)[unfolded fork_alloc_def] this(2)]
    obtain s0 :: mach where "m_pc t j = snd (case allocproc s0 of (None, s) \<Rightarrow> (s, User) | (Some q, s) \<Rightarrow> (s, Fork1 q x))" by blast
    then show ?thesis using Fork0 by (simp split: prod.splits option.splits)
  next
    case Wait1
    then show ?thesis using t at c
      by (auto simp: d wait_scan_def Let_def sleep_sched_def goto_def split: option.splits if_splits)
  qed (use t l g b c at u in \<open>auto simp: d forkret_step_def yield_lock_def yield_sched_def yield_return_def cond_lock_def cond_test_def
      sleep_lock_def sleep_unlock_def sleep_sched_def sleep_release_def signal_lock_def signal_wakeup_def signal_unlock_def wait_lock_def
      kill_section_def fork_publish_def exit_lock_def exit_sched_def Let_def goto_def split: if_splits\<close>)
qed

lemma scheduler_moves:
  assumes "scheduler i s = Inr t" "in_loop (m_at s i)" "m_at s i = Top \<Longrightarrow> \<not> lk_locked (m_locks s Ptable_lock)"
  shows "m_at t i \<noteq> m_at s i"
proof (cases "m_at s i")
  case Top
  then show ?thesis using assms
    by (auto simp: scheduler_def with_lock_def acquire_def put_cpu_def moveto_def split: if_splits option.splits)
qed (use assms in \<open>auto simp: scheduler_def moveto_def in_loop_def split: if_splits\<close>)

lemma advancesI:
  assumes inv: "sched_inv ch s" and i: "i < NCPU" and ch: "\<And>k. ch \<noteq> ChanProc k"
    and top: "m_at s i = Top \<Longrightarrow> \<not> lk_locked (m_locks s Ptable_lock)"
    and pc: "\<And>j. m_at s i = In j \<Longrightarrow> m_pc s j \<noteq> User \<and> (\<forall>l. wants (m_pc s j) = Some l \<longrightarrow> \<not> lk_locked (m_locks s l))"
  shows "advances ch i s"
proof -
  obtain t where t: "kstep ch i s = Inr t" using kstep_ok[OF inv i ch] by blast
  show ?thesis
  proof (cases "\<exists>j. m_at s i = In j")
    case True
    then obtain j where j: "m_at s i = In j" by blast
    then have "m_at t i \<noteq> m_at s i \<or> m_pc t j \<noteq> m_pc s j"
      using proc_step_moves[of ch i j s t] t pc[OF j] by (auto simp: kstep_def)
    then show ?thesis using t j by (auto simp: advances_def)
  next
    case False
    then have l: "in_loop (m_at s i)" by (simp add: in_loop_def)
    have "scheduler i s = Inr t" using t False by (cases "m_at s i") (auto simp: kstep_def)
    then show ?thesis using scheduler_moves[OF _ l top] t by (auto simp: advances_def)
  qed
qed

lemma zone_wants:
  "zone Ptable_lock q \<Longrightarrow> wants q = None"
  "zone Cond_lock q \<Longrightarrow> wants q \<noteq> Some Cond_lock"
  by (cases q; simp add: wants_def)+

lemma zone_not_user: "zone l q \<Longrightarrow> q \<noteq> User"
  by (cases l) auto

text \<open>C10: The kernel does not deadlock.  The CPU that holds the lock of the process table can always go on; when that lock is
  free, so can the CPU whose process holds the lock of the condition; and when both are free, every CPU
  can that is not running user code.\<close>

theorem deadlock_free:
  assumes "booted p s0" "(sched_step ch)\<^sup>*\<^sup>* s0 s" "\<forall>k. ch \<noteq> ChanProc k"
  shows "(\<forall>i<NCPU. lk_cpu (m_locks s Ptable_lock) = Some i \<longrightarrow> advances ch i s) \<and>
    (\<not> lk_locked (m_locks s Ptable_lock) \<longrightarrow> (\<forall>i<NCPU. lk_cpu (m_locks s Cond_lock) = Some i \<longrightarrow> advances ch i s)) \<and>
    (\<not> lk_locked (m_locks s Ptable_lock) \<longrightarrow> \<not> lk_locked (m_locks s Cond_lock) \<longrightarrow>
       (\<forall>i<NCPU. advances ch i s \<or> (\<exists>j. m_at s i = In j \<and> m_pc s j = User)))"
proof -
  have inv: "sched_inv ch s" using reachable_inv[OF assms(1,2)] assms(3) by blast
  have h: "holder l (m_at s) (m_pc s) i" if "i < NCPU" "lk_cpu (m_locks s l) = Some i" for l i
    using inv that unfolding sched_inv_def locks_ok_def by blast
  note adv = advancesI[OF inv _ assms(3)[rule_format]]
  have 1: "advances ch i s" if "i < NCPU" "lk_cpu (m_locks s Ptable_lock) = Some i" for i
    using h[OF that] zone_wants(1) zone_not_user by (intro adv[OF that(1)]) (auto simp: holder_def simp del: zone_simps)
  have 2: "advances ch i s" if "i < NCPU" "lk_cpu (m_locks s Cond_lock) = Some i" "\<not> lk_locked (m_locks s Ptable_lock)" for i
  proof (rule adv[OF that(1)])
    fix j assume "m_at s i = In j"
    then have z: "zone Cond_lock (m_pc s j)" using h[OF that(1,2)] by (simp add: holder_def del: zone_simps)
    then show "m_pc s j \<noteq> User \<and> (\<forall>l. wants (m_pc s j) = Some l \<longrightarrow> \<not> lk_locked (m_locks s l))"
      using zone_wants(2)[OF z] zone_not_user[OF z] that(3) lockid.exhaust by (metis (full_types))
  qed (rule that(3))
  have 3: "advances ch i s" if "i < NCPU" "\<not> lk_locked (m_locks s Ptable_lock)" "\<not> lk_locked (m_locks s Cond_lock)"
    "\<not> (\<exists>j. m_at s i = In j \<and> m_pc s j = User)" for i
    by (rule adv[OF that(1)]) (use that lockid.exhaust in \<open>metis (full_types)\<close>)+
  show ?thesis using 1 2 3 by blast
qed

section \<open>The switch keeps the registers\<close>

text \<open>A store at \<open>a\<close> misses the \<open>n\<close> bytes from \<open>f\<close> on.\<close>

definition misses :: "uint \<Rightarrow> nat \<Rightarrow> uint \<Rightarrow> bool" where
  "misses a n f \<longleftrightarrow> (\<forall>k<n. \<forall>j<4. f + of_nat k \<noteq> a + of_nat j)"

lemma store32_misses:
  assumes "misses a n f" "k < n"
  shows "store32 m a v (f + of_nat k) = m (f + of_nat k)"
proof -
  have "f + of_nat k \<noteq> a + of_nat j" if "j < 4" for j using assms that by (auto simp: misses_def)
  from this[of 0] this[of 1] this[of 2] this[of 3] show ?thesis by (simp add: store32_def)
qed

lemma load32_bytes:
  assumes "\<And>k. k < n \<Longrightarrow> m (f + of_nat k) = m' (f + of_nat k)" "i + 4 \<le> n"
  shows "load32 m (f + of_nat i) = load32 m' (f + of_nat i)"
  using assms(1)[of i] assms(1)[of "i + 1"] assms(1)[of "i + 2"] assms(1)[of "i + 3"] assms(2)
  by (simp add: load32_def ac_simps)

lemma swtch_eq:
  fixes r :: regs and m :: memory and f :: uint
  assumes "r_esp r = f + 16"
  defines "old \<equiv> load32 m (f + 20)" and "new \<equiv> load32 m (f + 24)"
  defines "m' \<equiv> store32 (store32 (store32 (store32 (store32 m (f + 12) (r_ebp r)) (f + 8) (r_ebx r)) (f + 4) (r_esi r)) f (r_edi r)) old f"
  shows "swtch (r, m) = (\<lparr>r_edi = load32 m' new, r_esi = load32 m' (new + 4), r_ebx = load32 m' (new + 8), r_ebp = load32 m' (new + 12),
    r_esp = new + 20, r_eax = old, r_edx = new, r_eip = load32 m' (new + 16)\<rparr>, m')"
  by (cases r) (use assms in \<open>simp add: swtch_def pushl_def popl_def Let_def ac_simps\<close>)

text \<open>C11: \<^verbatim>\<open>swtch\<close> away and back again is a plain return.  A thread that calls \<^verbatim>\<open>swtch\<close> has its context saved where its first
  argument says; when, with that context still on its stack, another \<^verbatim>\<open>swtch\<close> is given it, the thread
  goes on at its return address with its stack pointer and its callee-saved registers.\<close>

theorem swtch_roundtrip:
  assumes "r_esp a = f + 16" "swtch (a, m) = (r1, m1)" "misses (load32 m (f + 20)) 20 f"
    "\<forall>k<20. m2 (f + of_nat k) = m1 (f + of_nat k)" "load32 m2 (r_esp b + 8) = load32 m1 (load32 m (f + 20))"
    "\<forall>d\<in>{4, 8, 12, 16}. misses (r_esp b - d) 20 f" "misses (load32 m2 (r_esp b + 4)) 20 f"
  shows "\<exists>r3 m3. swtch (b, m2) = (r3, m3) \<and> r_edi r3 = r_edi a \<and> r_esi r3 = r_esi a \<and> r_ebx r3 = r_ebx a \<and> r_ebp r3 = r_ebp a \<and>
    r_esp r3 = r_esp a + 4 \<and> r_eip r3 = load32 m (r_esp a)"
proof -
  let ?p = "store32 (store32 (store32 (store32 m (f + 12) (r_ebp a)) (f + 8) (r_ebx a)) (f + 4) (r_esi a)) f (r_edi a)"
  have m1: "m1 = store32 ?p (load32 m (f + 20)) f" using assms(1,2) swtch_eq[of a f m] by simp
  have p: "load32 ?p f = r_edi a" "load32 ?p (f + 4) = r_esi a" "load32 ?p (f + 8) = r_ebx a" "load32 ?p (f + 12) = r_ebp a"
    "load32 ?p (f + 16) = load32 m (f + 16)"
    by (simp_all add: load32_def store32_def add.assoc)
  define g where "g = r_esp b - 16"
  have g: "r_esp b = g + 16" by (simp add: g_def)
  let ?q = "store32 (store32 (store32 (store32 m2 (g + 12) (r_ebp b)) (g + 8) (r_ebx b)) (g + 4) (r_esi b)) g (r_edi b)"
  let ?m3 = "store32 ?q (load32 m2 (g + 20)) g"
  have mi: "misses g 20 f" "misses (g + 4) 20 f" "misses (g + 8) 20 f" "misses (g + 12) 20 f" "misses (load32 m2 (g + 20)) 20 f"
    using assms(6,7) by (simp_all add: g ac_simps)
  have "?m3 (f + of_nat k) = ?p (f + of_nat k)" if "k < 20" for k
    using mi that assms(3,4) by (simp add: store32_misses m1)
  note l = load32_bytes[of 20 ?m3 f ?p, OF this]
  have "load32 ?m3 f = r_edi a" "load32 ?m3 (f + 4) = r_esi a" "load32 ?m3 (f + 8) = r_ebx a" "load32 ?m3 (f + 12) = r_ebp a"
    "load32 ?m3 (f + 16) = load32 m (f + 16)"
    using l[of 0] l[of 4] l[of 8] l[of 12] l[of 16] p by simp_all
  moreover have "load32 m2 (g + 24) = f" using assms(5) by (simp add: g m1 add.assoc)
  ultimately show ?thesis using swtch_eq[OF g, of m2] assms(1) by (simp add: add.assoc)
qed

section \<open>A run\<close>

text \<open>A machine that has started with its first process in slot 0, and the run in which its CPU 0 finds that process.\<close>

definition boot0 :: mach where
  "boot0 = \<lparr>mem = (\<lambda>_. 0), freelist = 0, use_lock = True, kend = 0x80115600, kdata = 0x80108000, ksym = (\<lambda>_. 0x80100000),
     procs = (\<lambda>_. proc0)(0 := proc0\<lparr>p_state := RUNNABLE, p_pid := 1, p_kstack := 0x8dfff000, p_pgdir := 0x8dffe000\<rparr>), cur = 0,
     nextpid = 2, initproc = Some 0, kpgdir = 0x80400000, mycpu = cpu0, m_cpus = (\<lambda>_. cpu0), m_locks = (\<lambda>_. initlock), m_at = (\<lambda>_. Top),
     m_pc = (\<lambda>_. Forkret), m_intena = (\<lambda>_. False), m_cond = False\<rparr>"

primrec ksteps :: "chan \<Rightarrow> nat list \<Rightarrow> mach \<Rightarrow> mach res" where
  "ksteps ch [] s = Inr s"
| "ksteps ch (i # is) s = bindr (kstep ch i s) (ksteps ch is)"

lemma ksteps_reach: "ksteps ch is s = Inr t \<Longrightarrow> list_all (\<lambda>i. i < NCPU) is \<Longrightarrow> (sched_step ch)\<^sup>*\<^sup>* s t"
proof (induction "is" arbitrary: s)
  case (Cons i "is")
  then obtain u where "kstep ch i s = Inr u" "ksteps ch is u = Inr t" by (cases "kstep ch i s") auto
  then show ?case using Cons sched_step.run[of i ch s u] by (auto intro: converse_rtranclp_into_rtranclp)
qed simp

lemma boot0_booted: "booted 0 boot0"
  by (simp add: booted_def boot0_def proc0_def cpu0_def upt_rec)

lemmas step_defs = kstep_def proc_step_def scheduler_def forkret_step_def on_cpu_def switchuvm_def with_lock_def acquire_def release_def
  put_cpu_def put_lock_def moveto_def goto_def holding_def pushcli_def popcli_def initlock_def upd_proc_def Let_def
  signal_lock_def signal_wakeup_def signal_unlock_def ptable_section_def wakeup1_def

lemma boot0_first:
  "\<exists>s. ksteps ChanTicks [0, 0, 0] boot0 = Inr s \<and> m_at s 0 = In 0 \<and> m_pc s 0 = User \<and> m_at s 1 = Top \<and>
     \<not> lk_locked (m_locks s Ptable_lock) \<and> \<not> lk_locked (m_locks s Cond_lock) \<and>
     (\<exists>t. ksteps ChanTicks [0, 0, 0, 0] (goto 0 Signal0 s) = Inr t \<and> m_cond t \<and> \<not> lk_locked (m_locks t Cond_lock))"
  by (simp add: boot0_def proc0_def cpu0_def step_defs)

lemma boot0_runs:
  "\<exists>s. (sched_step ChanTicks)\<^sup>*\<^sup>* boot0 s \<and> m_at s 0 = In 0 \<and> m_pc s 0 = User \<and> m_at s 1 = Top \<and>
     \<not> lk_locked (m_locks s Ptable_lock) \<and> \<not> lk_locked (m_locks s Cond_lock)"
  using boot0_first ksteps_reach[of ChanTicks "[0, 0, 0]" boot0] by fastforce

lemma boot0_signals:
  "\<exists>s. (sched_step ChanTicks)\<^sup>*\<^sup>* boot0 s \<and> m_cond s \<and> \<not> lk_locked (m_locks s Cond_lock)"
proof -
  obtain s t where s: "ksteps ChanTicks [0, 0, 0] boot0 = Inr s" "m_at s 0 = In 0" "m_pc s 0 = User"
    and t: "ksteps ChanTicks [0, 0, 0, 0] (goto 0 Signal0 s) = Inr t" "m_cond t" "\<not> lk_locked (m_locks t Cond_lock)"
    using boot0_first by blast
  have "(sched_step ChanTicks)\<^sup>*\<^sup>* boot0 s" "(sched_step ChanTicks)\<^sup>*\<^sup>* (goto 0 Signal0 s) t"
    using ksteps_reach[OF s(1)] ksteps_reach[OF t(1)] by simp_all
  moreover have "sched_step ChanTicks s (goto 0 Signal0 s)"
    using s by (intro call[of 0]) (auto simp: entry_def)
  ultimately have "(sched_step ChanTicks)\<^sup>*\<^sup>* boot0 t" by (meson converse_rtranclp_into_rtranclp rtranclp_trans)
  then show ?thesis using t by blast
qed

theorem scheduler_safe_witness:
  "\<exists>s. (sched_step ChanTicks)\<^sup>*\<^sup>* boot0 s \<and> m_at s 0 = In 0 \<and> p_state (procs s 0) = RUNNING \<and> m_at s 1 \<noteq> In 0"
proof -
  obtain s where s: "(sched_step ChanTicks)\<^sup>*\<^sup>* boot0 s" "m_at s 0 = In 0" using boot0_runs by blast
  note h = scheduler_safe[OF boot0_booted s(1), THEN conjunct2]
  have "p_state (procs s 0) = RUNNING" "m_at s 1 \<noteq> In 0"
    using h[rule_format, of 0 0, THEN conjunct1] h[rule_format, of 0 0, THEN conjunct2, THEN conjunct2, rule_format, of 1] s(2) by auto
  then show ?thesis using s by blast
qed

theorem no_lost_wakeup_witness:
  "\<exists>s. (sched_step ChanTicks)\<^sup>*\<^sup>* boot0 s \<and> m_cond s \<and> \<not> (p_state (procs s 1) = SLEEPING \<and> p_chan (procs s 1) = Some ChanTicks)"
proof -
  obtain s where s: "(sched_step ChanTicks)\<^sup>*\<^sup>* boot0 s" "m_cond s" "\<not> lk_locked (m_locks s Cond_lock)" using boot0_signals by blast
  have "\<not> (p_state (procs s 1) = SLEEPING \<and> p_chan (procs s 1) = Some ChanTicks)"
    using no_lost_wakeup[OF boot0_booted s(1), THEN conjunct1] s(2,3) by auto
  then show ?thesis using s by blast
qed

theorem deadlock_free_witness:
  "\<exists>s. (sched_step ChanTicks)\<^sup>*\<^sup>* boot0 s \<and> m_at s 0 = In 0 \<and> advances ChanTicks 1 s"
proof -
  obtain s where s: "(sched_step ChanTicks)\<^sup>*\<^sup>* boot0 s" "m_at s 0 = In 0" "m_at s 1 = Top"
    "\<not> lk_locked (m_locks s Ptable_lock)" "\<not> lk_locked (m_locks s Cond_lock)" using boot0_runs by blast
  have "advances ChanTicks 1 s"
    using deadlock_free[OF boot0_booted s(1), THEN conjunct2, THEN conjunct2, rule_format, of 1] s(3-5) by simp
  then show ?thesis using s by blast
qed

text \<open>Two threads on the stacks below \<open>0x2000\<close> and \<open>0x3000\<close>, whose context pointers are at \<open>0x100\<close> and \<open>0x104\<close>.\<close>

definition mem0 :: memory where
  "mem0 = store32 (store32 (store32 (store32 (store32 (store32 (\<lambda>_. 0) 0x1f80 0x80104000) 0x1f84 0x100) 0x1f88 0x2f00)
     0x2f80 0x80105000) 0x2f84 0x104) 0x2f88 0x1f70"

definition regs0 :: "uint \<Rightarrow> regs" where
  "regs0 sp = \<lparr>r_edi = sp + 1, r_esi = sp + 2, r_ebx = sp + 3, r_ebp = sp + 4, r_esp = sp, r_eax = 0, r_edx = 0, r_eip = 0\<rparr>"

theorem swtch_roundtrip_witness:
  "\<exists>r3 m3. swtch (regs0 0x2f80, snd (swtch (regs0 0x1f80, mem0))) = (r3, m3) \<and> r_edi r3 = 0x1f81 \<and> r_esp r3 = 0x1f84 \<and> r_eip r3 = 0x80104000"
proof -
  obtain r1 m1 where 1: "swtch (regs0 0x1f80, mem0) = (r1, m1)" by fastforce
  have m1: "m1 = store32 (store32 (store32 (store32 (store32 mem0 0x1f7c 0x1f84) 0x1f78 0x1f83) 0x1f74 0x1f82) 0x1f70 0x1f81) 0x100 0x1f70"
    using 1 swtch_eq[of "regs0 0x1f80" "0x1f70" mem0] by (simp add: regs0_def mem0_def aligned_def)
  have c: "(\<forall>k<20. P k) = list_all P [0..<20]" "(\<forall>k<4. P k) = list_all P [0..<4]" for P :: "nat \<Rightarrow> bool"
    by (auto simp: list_all_iff)
  have "misses 0x100 20 0x1f70" "misses 0x104 20 0x1f70" "\<forall>d\<in>{4, 8, 12, 16}. misses (0x2f80 - d) 20 0x1f70"
    by (simp_all add: misses_def c upt_rec)
  then show ?thesis
    using swtch_roundtrip[of "regs0 0x1f80" "0x1f70" mem0 r1 m1 m1 "regs0 0x2f80"] 1
    by (auto simp: regs0_def m1 mem0_def aligned_def)
qed

end
