(* ===== verification/User.thy ===== *)
theory User
  imports Kstring
begin

text \<open>
  What user programs share: the system call interface of \<^verbatim>\<open>user.h\<close> and \<^verbatim>\<open>usys.S\<close>, the library \<^verbatim>\<open>ulib.c\<close>
  and \<^verbatim>\<open>printf.c\<close>.

  A user program is modelled by what one process of it does: the system calls it makes, in order, for the answers
  the kernel gives.  \<^verbatim>\<open>fork\<close> returns in the parent and in the child, and each of the two is a run of its own, told apart
  by the answer.  A NUL-terminated string is the list of the bytes before the NUL; the functions of \<^verbatim>\<open>ulib.c\<close>
  that implement this on memory are shown to do so.
\<close>

section \<open>System calls\<close>

datatype sysc =
    SysFork | SysExit | SysWait | SysPipe | SysWrite int "uchar list" | SysRead int int | SysClose int | SysKill uint
  | SysExec "uchar list" "uchar list list" | SysOpen "uchar list" uint | SysMknod "uchar list" int int | SysUnlink "uchar list"
  | SysFstat int | SysLink "uchar list" "uchar list" | SysMkdir "uchar list" | SysChdir "uchar list" | SysDup int
  | SysSbrk uint | SysSleep int | SysDate | SysAlarm int uint

text \<open>An answer: the value returned, the bytes stored in the caller's buffer, and the numbers stored in its structure.\<close>

record ans =
  a_ret :: int
  a_bytes :: "uchar list"
  a_nums :: "uint list"

text \<open>
  The state of a run: the answers to come, the result of each write as a function of the calls up to it, and the calls made.
  A run stops by \<^verbatim>\<open>exit\<close>, or because the next call does not return, or in an access outside the program's arrays.
\<close>

record os =
  answers :: "ans list"
  wret :: "sysc list \<Rightarrow> int"
  calls :: "sysc list"

datatype stop = Exited | Blocked | Wild

type_synonym 'a run = "os \<Rightarrow> (stop \<times> os) + ('a \<times> os)"

definition ret :: "'a \<Rightarrow> 'a run" where
  "ret x = (\<lambda>s. Inr (x, s))"

definition bindu :: "'a run \<Rightarrow> ('a \<Rightarrow> 'b run) \<Rightarrow> 'b run" where
  "bindu m f s = (case m s of Inl e \<Rightarrow> Inl e | Inr (x, t) \<Rightarrow> f x t)"

definition call :: "sysc \<Rightarrow> os \<Rightarrow> os" where
  "call c s = s\<lparr>calls := calls s @ [c]\<rparr>"

definition usys :: "sysc \<Rightarrow> ans run" where
  "usys c s = (case answers s of
     [] \<Rightarrow> Inl (Blocked, call c s)
   | a # as \<Rightarrow> Inr (a, call c (s\<lparr>answers := as\<rparr>)))"

definition uexit :: "'a run" where
  "uexit s = Inl (Exited, call SysExit s)"

definition uwrite :: "int \<Rightarrow> uchar list \<Rightarrow> int run" where
  "uwrite fd xs s = (let s = call (SysWrite fd xs) s in Inr (wret s (calls s), s))"

lemma bindu_cong [fundef_cong]:
  "m = m' \<Longrightarrow> s = s' \<Longrightarrow> (\<And>x t. m' s' = Inr (x, t) \<Longrightarrow> f x t = g x t) \<Longrightarrow> bindu m f s = bindu m' g s'"
  by (auto simp: bindu_def split: sum.split)

lemma bindu_simps [simp]:
  "bindu (ret x) f s = f x s"
  "bindu uexit f s = uexit s"
  "bindu (bindu m g) f s = bindu m (\<lambda>x. bindu (g x) f) s"
  by (auto simp: bindu_def ret_def uexit_def split: sum.split)

lemma sys_shrinks: "usys c s = Inr (a, t) \<Longrightarrow> length (answers t) < length (answers s)"
  by (auto simp: usys_def call_def split: list.splits)

lemma bindu_sys [simp]: "answers s = a # as \<Longrightarrow> bindu (usys c) f s = f a (call c (s\<lparr>answers := as\<rparr>))"
  by (simp add: bindu_def usys_def)

lemma bindu_write [simp]: "bindu (uwrite fd xs) f s = f (wret s (calls s @ [SysWrite fd xs])) (call (SysWrite fd xs) s)"
  by (simp add: bindu_def uwrite_def Let_def call_def)

lemma call_fields [simp]:
  "answers (call c s) = answers s" "wret (call c s) = wret s" "calls (call c s) = calls s @ [c]"
  by (simp_all add: call_def)

text \<open>A character of the source text as a byte.\<close>

definition lit :: "string \<Rightarrow> uchar list" where
  "lit cs = map of_char cs"

section \<open>Strings in memory\<close>

partial_function (option) strcpy :: "memory \<Rightarrow> uint \<Rightarrow> uint \<Rightarrow> memory option" where
  "strcpy m s t = (let c = m t; m = m(s := c) in if c \<noteq> 0 then strcpy m (s + 1) (t + 1) else Some m)"

partial_function (option) strcmp :: "memory \<Rightarrow> uint \<Rightarrow> uint \<Rightarrow> int option" where
  "strcmp m p q = (if m p \<noteq> 0 \<and> m p = m q then strcmp m (p + 1) (q + 1) else Some (uint (m p) - uint (m q)))"

partial_function (option) strlen_loop :: "memory \<Rightarrow> uint \<Rightarrow> uint \<Rightarrow> uint option" where
  "strlen_loop m s n = (if m (s + n) \<noteq> 0 then strlen_loop m s (n + 1) else Some n)"

definition strlen_u :: "memory \<Rightarrow> uint \<Rightarrow> uint option" where
  "strlen_u m s = strlen_loop m s 0"

partial_function (option) strchr :: "memory \<Rightarrow> uint \<Rightarrow> uchar \<Rightarrow> uint option" where
  "strchr m s c = (if m s = 0 then Some 0 else if m s = c then Some s else strchr m (s + 1) c)"

partial_function (option) atoi_loop :: "memory \<Rightarrow> uint \<Rightarrow> uint \<Rightarrow> uint option" where
  "atoi_loop m s n = (if 48 \<le> m s \<and> m s \<le> 57 then atoi_loop m (s + 1) (n * 10 + ucast (m s) - 48) else Some n)"

definition atoi :: "memory \<Rightarrow> uint \<Rightarrow> uint option" where
  "atoi m s = atoi_loop m s 0"

text \<open>\<^verbatim>\<open>memset\<close> is a plain \<^verbatim>\<open>stosb\<close>, and \<^verbatim>\<open>memmove\<close> always copies upwards.\<close>

definition memset_u :: "memory \<Rightarrow> uint \<Rightarrow> uint \<Rightarrow> uint \<Rightarrow> memory" where
  "memset_u m dst c n = stosb m dst (ucast c) (unat n)"

definition memmove_u :: "memory \<Rightarrow> uint \<Rightarrow> uint \<Rightarrow> int \<Rightarrow> memory" where
  "memmove_u m dst src n = copy_up m dst src (nat n)"

text \<open>The string \<open>xs\<close> is in memory at \<open>p\<close>.\<close>

primrec cstr :: "memory \<Rightarrow> uint \<Rightarrow> uchar list \<Rightarrow> bool" where
  "cstr m p [] \<longleftrightarrow> m p = 0"
| "cstr m p (x # xs) \<longleftrightarrow> m p = x \<and> x \<noteq> 0 \<and> cstr m (p + 1) xs"

section \<open>Input, files and output\<close>

text \<open>\<^verbatim>\<open>gets\<close> with room for \<open>k\<close> more bytes before the NUL.\<close>

primrec gets_loop :: "nat \<Rightarrow> uchar list \<Rightarrow> uchar list run" where
  "gets_loop 0 buf = ret buf"
| "gets_loop (Suc k) buf = bindu (usys (SysRead 0 1)) (\<lambda>a.
     if a_ret a < 1 then ret buf
     else let c = hd (a_bytes a); buf = buf @ [c] in if c = 10 \<or> c = 13 then ret buf else gets_loop k buf)"

definition gets :: "int \<Rightarrow> uchar list run" where
  "gets mx = gets_loop (nat (mx - 1)) []"

definition ustat :: "uchar list \<Rightarrow> (int \<times> uint list) run" where
  "ustat n = bindu (usys (SysOpen n 0)) (\<lambda>a.
     if a_ret a < 0 then ret (-1, [])
     else bindu (usys (SysFstat (a_ret a))) (\<lambda>r. bindu (usys (SysClose (a_ret a))) (\<lambda>_. ret (a_ret r, a_nums r))))"

definition uputc :: "int \<Rightarrow> uchar \<Rightarrow> unit run" where
  "uputc fd c = bindu (uwrite fd [c]) (\<lambda>_. ret ())"

primrec uputs :: "int \<Rightarrow> uchar list \<Rightarrow> unit run" where
  "uputs fd [] = ret ()"
| "uputs fd (c # cs) = bindu (uputc fd c) (\<lambda>_. uputs fd cs)"

definition udigit :: "uint \<Rightarrow> uchar" where
  "udigit d = (if d < 10 then 48 + ucast d else 55 + ucast d)"

text \<open>The digits, least significant first; \<^verbatim>\<open>buf\<close> has room for 16 characters.\<close>

primrec uprintint_loop :: "nat \<Rightarrow> uint \<Rightarrow> uint \<Rightarrow> uchar list" where
  "uprintint_loop 0 base x = []"
| "uprintint_loop (Suc k) base x =
     udigit (x mod base) # (if x div base \<noteq> 0 then uprintint_loop k base (x div base) else [])"

definition uprintint_chars :: "uint \<Rightarrow> uint \<Rightarrow> bool \<Rightarrow> uchar list" where
  "uprintint_chars xx base sg =
     (let neg = (sg \<and> sint xx < 0); x = (if neg then - xx else xx)
      in rev (uprintint_loop 16 base x @ (if neg then [45] else [])))"

definition uprintint :: "int \<Rightarrow> uint \<Rightarrow> uint \<Rightarrow> bool \<Rightarrow> unit run" where
  "uprintint fd xx base sg = uputs fd (uprintint_chars xx base sg)"

text \<open>The variable arguments: a number, or a string, \<open>None\<close> for a null pointer.  A program that passes too few is not one of these.\<close>

datatype uarg = UInt uint | UStr "uchar list option"

definition uint_arg :: "uarg list \<Rightarrow> uint" where
  "uint_arg args = (case args of UInt n # _ \<Rightarrow> n | _ \<Rightarrow> 0)"

definition ustr_arg :: "uarg list \<Rightarrow> uchar list" where
  "ustr_arg args = (case args of UStr (Some xs) # _ \<Rightarrow> xs | _ \<Rightarrow> lit ''(null)'')"

text \<open>\<open>pc\<close>: the last character was a percent sign, the state variable of the loop.\<close>

primrec uprintf_loop :: "int \<Rightarrow> uchar list \<Rightarrow> bool \<Rightarrow> uarg list \<Rightarrow> unit run" where
  "uprintf_loop fd [] pc args = ret ()"
| "uprintf_loop fd (c # fmt) pc args =
     (if \<not> pc then
        if c = 37 then uprintf_loop fd fmt True args
        else bindu (uputc fd c) (\<lambda>_. uprintf_loop fd fmt False args)
      else if c = 100 then bindu (uprintint fd (uint_arg args) 10 True) (\<lambda>_. uprintf_loop fd fmt False (tl args))
      else if c = 120 \<or> c = 112 then bindu (uprintint fd (uint_arg args) 16 False) (\<lambda>_. uprintf_loop fd fmt False (tl args))
      else if c = 115 then bindu (uputs fd (ustr_arg args)) (\<lambda>_. uprintf_loop fd fmt False (tl args))
      else if c = 99 then bindu (uputc fd (ucast (uint_arg args))) (\<lambda>_. uprintf_loop fd fmt False (tl args))
      else if c = 37 then bindu (uputc fd c) (\<lambda>_. uprintf_loop fd fmt False args)
      else bindu (uputc fd 37) (\<lambda>_. bindu (uputc fd c) (\<lambda>_. uprintf_loop fd fmt False args)))"

definition uprintf :: "int \<Rightarrow> string \<Rightarrow> uarg list \<Rightarrow> unit run" where
  "uprintf fd fmt args = uprintf_loop fd (lit fmt) False args"

section \<open>The string functions\<close>

lemma cstr_nonzero: "cstr m p xs \<Longrightarrow> 0 \<notin> set xs"
  by (induction xs arbitrary: p) auto

lemma cstr_frame: "cstr m p xs \<Longrightarrow> (\<And>i. i \<le> length xs \<Longrightarrow> m' (p + of_nat i) = m (p + of_nat i)) \<Longrightarrow> cstr m' p xs"
proof (induction xs arbitrary: p)
  case Nil then show ?case using Nil(2)[of 0] by simp
next
  case (Cons x xs)
  have "m' (p + 1 + of_nat i) = m (p + 1 + of_nat i)" if "i \<le> length xs" for i
    using Cons.prems(2)[of "Suc i"] that by (simp add: ac_simps)
  then show ?case using Cons.IH[of "p + 1"] Cons.prems(1) Cons.prems(2)[of 0] by simp
qed

lemma strlen_loop_eq: "cstr m (s + n) xs \<Longrightarrow> strlen_loop m s n = Some (n + of_nat (length xs))"
proof (induction xs arbitrary: n)
  case Nil then show ?case by (subst strlen_loop.simps) simp
next
  case (Cons x xs) then show ?case by (subst strlen_loop.simps) (simp add: ac_simps)
qed

lemma strlen_u_eq: "cstr m s xs \<Longrightarrow> strlen_u m s = Some (of_nat (length xs))"
  using strlen_loop_eq[of m s 0 xs] by (simp add: strlen_u_def)

lemma strchr_eq:
  "cstr m s xs \<Longrightarrow> strchr m s c = Some (if c \<in> set xs then s + of_nat (length (takeWhile (\<lambda>x. x \<noteq> c) xs)) else 0)"
proof (induction xs arbitrary: s)
  case Nil then show ?case by (subst strchr.simps) simp
next
  case (Cons x xs) then show ?case by (subst strchr.simps) (auto simp: ac_simps)
qed

lemma strcmp_eq:
  "cstr m p xs \<Longrightarrow> cstr m q ys \<Longrightarrow> \<exists>r. strcmp m p q = Some r \<and> (r = 0 \<longleftrightarrow> xs = ys) \<and> (r < 0 \<longleftrightarrow> (xs, ys) \<in> lexord {(x, y). x < y})"
proof (induction xs arbitrary: p q ys)
  case Nil
  then show ?case by (subst strcmp.simps) (cases ys; auto simp: word_less_def order_less_le uint_0_iff)
next
  case (Cons x xs)
  show ?case
  proof (cases "m p = m q")
    case True
    then obtain z zs where ys: "ys = z # zs" "cstr m (q + 1) zs" "z = x" using Cons.prems by (cases ys) auto
    then show ?thesis using Cons.IH[of "p + 1" "q + 1" zs] Cons.prems True by (subst strcmp.simps) (auto simp: ys)
  next
    case False
    then show ?thesis using Cons.prems
      by (subst strcmp.simps) (cases ys; auto simp: word_less_def word_uint_eq_iff)
  qed
qed

lemma strcpy_eq:
  "cstr m t xs \<Longrightarrow> length xs < 2 ^ 32 \<Longrightarrow> (\<And>i j. i \<le> length xs \<Longrightarrow> j \<le> length xs \<Longrightarrow> s + of_nat i \<noteq> t + of_nat j) \<Longrightarrow>
   \<exists>m'. strcpy m s t = Some m' \<and> cstr m' s xs \<and> (\<forall>a. (\<forall>i\<le>length xs. a \<noteq> s + of_nat i) \<longrightarrow> m' a = m a)"
proof (induction xs arbitrary: m s t)
  case Nil
  then show ?case by (subst strcpy.simps) (auto simp: Let_def)
next
  case (Cons x xs)
  have ne: "s + 1 + of_nat i \<noteq> t + 1 + of_nat j" if "i \<le> length xs" "j \<le> length xs" for i j
    using Cons.prems(3)[of "Suc i" "Suc j"] that by (simp add: ac_simps)
  have ns: "t + 1 + of_nat i \<noteq> s" if "i \<le> length xs" for i
    using Cons.prems(3)[of 0 "Suc i"] that by (simp add: ac_simps)
  have c: "cstr (m(s := x)) (t + 1) xs"
    by (rule cstr_frame[of m "t + 1" xs], use Cons.prems(1) in simp) (rule fun_upd_other[OF ns])
  have l: "length xs < 2 ^ 32" using Cons.prems(2) by simp
  obtain m' where m': "strcpy (m(s := x)) (s + 1) (t + 1) = Some m'" "cstr m' (s + 1) xs"
    "\<forall>a. (\<forall>i\<le>length xs. a \<noteq> s + 1 + of_nat i) \<longrightarrow> m' a = (m(s := x)) a"
    using Cons.IH[OF c l ne] by blast
  have "s \<noteq> s + 1 + of_nat i" if "i \<le> length xs" for i
  proof -
    have "(of_nat (Suc i) :: uint) \<noteq> 0"
      using that Cons.prems(2) by (simp only: word_of_nat_eq_0_iff) (auto dest: dvd_imp_le)
    then show ?thesis by (simp add: ac_simps)
  qed
  then have "m' s = x" using m'(3) by auto
  moreover have "m' a = m a" if "\<forall>i\<le>length (x # xs). a \<noteq> s + of_nat i" for a
  proof -
    have "a \<noteq> s" using that by force
    moreover have "a \<noteq> s + 1 + of_nat i" if "i \<le> length xs" for i
      using \<open>\<forall>i\<le>length (x # xs). a \<noteq> s + of_nat i\<close>[rule_format, of "Suc i"] that by (simp add: ac_simps)
    ultimately show ?thesis using m'(3) by auto
  qed
  ultimately show ?case using Cons.prems(1) m' by (subst strcpy.simps) (auto simp: Let_def)
qed

section \<open>Output\<close>

definition puts_calls :: "int \<Rightarrow> uchar list \<Rightarrow> os \<Rightarrow> os" where
  "puts_calls fd cs s = s\<lparr>calls := calls s @ map (\<lambda>c. SysWrite fd [c]) cs\<rparr>"

lemma puts_calls_simps [simp]:
  "answers (puts_calls fd cs s) = answers s" "wret (puts_calls fd cs s) = wret s"
  "calls (puts_calls fd cs s) = calls s @ map (\<lambda>c. SysWrite fd [c]) cs"
  "puts_calls fd [] s = s" "puts_calls fd ds (puts_calls fd cs s) = puts_calls fd (cs @ ds) s" "call (SysWrite fd [c]) s = puts_calls fd [c] s"
  by (simp_all add: puts_calls_def call_def)

lemma uputc_eq [simp]: "uputc fd c s = Inr ((), puts_calls fd [c] s)"
  by (simp add: uputc_def ret_def)

lemma bindu_Inr: "m s = Inr (x, t) \<Longrightarrow> bindu m f s = f x t"
  by (simp add: bindu_def)

lemma uputs_eq [simp]: "uputs fd cs s = Inr ((), puts_calls fd cs s)"
  by (induction cs arbitrary: s) (simp_all add: ret_def bindu_Inr)

text \<open>The text a format stands for.\<close>

fun render :: "uchar list \<Rightarrow> uarg list \<Rightarrow> uchar list" where
  "render [] args = []"
| "render [c] args = (if c = 37 then [] else [c])"
| "render (c # d # fmt) args =
     (if c \<noteq> 37 then c # render (d # fmt) args
      else if d = 100 then uprintint_chars (uint_arg args) 10 True @ render fmt (tl args)
      else if d = 120 \<or> d = 112 then uprintint_chars (uint_arg args) 16 False @ render fmt (tl args)
      else if d = 115 then ustr_arg args @ render fmt (tl args)
      else if d = 99 then ucast (uint_arg args) # render fmt (tl args)
      else if d = 37 then 37 # render fmt args
      else 37 # d # render fmt args)"

lemma uprintf_loop_eq: "uprintf_loop fd fmt False args s = Inr ((), puts_calls fd (render fmt args) s)"
  by (induction fmt args arbitrary: s rule: render.induct) (simp_all add: ret_def bindu_Inr uprintint_def)

lemma uprintf_eq: "uprintf fd fmt args s = Inr ((), puts_calls fd (render (lit fmt) args) s)"
  by (simp add: uprintf_def uprintf_loop_eq)

section \<open>Numbers\<close>

definition dec_step :: "uint \<Rightarrow> uchar \<Rightarrow> uint" where
  "dec_step n c = n * 10 + ucast c - 48"

lemma atoi_loop_eq: "cstr m p xs \<Longrightarrow> (\<And>x. x \<in> set xs \<Longrightarrow> 48 \<le> x \<and> x \<le> 57) \<Longrightarrow> atoi_loop m p n = Some (foldl dec_step n xs)"
proof (induction xs arbitrary: p n)
  case Nil then show ?case by (subst atoi_loop.simps) simp
next
  case (Cons x xs) then show ?case by (subst atoi_loop.simps) (simp flip: dec_step_def)
qed

lemma udigit_dec:
  assumes "d < 10"
  shows "48 \<le> udigit d \<and> udigit d \<le> 57" "ucast (udigit d) = d + (48 :: uint)"
proof -
  have "unat d \<in> set [0..<10]" using assms by (auto simp: word_less_nat_alt)
  moreover have "d = of_nat (unat d)" by simp
  ultimately have "d \<in> set (map of_nat [0..<10])" by (metis image_eqI list.set_map)
  then have "d \<in> {0, 1, 2, 3, 4, 5, 6, 7, 8, 9}" by (simp add: upt_rec)
  then show "48 \<le> udigit d \<and> udigit d \<le> 57" "ucast (udigit d) = d + (48 :: uint)"
    by (auto simp: udigit_def)
qed

lemma mod10: "(x :: uint) mod 10 < 10"
  by (simp add: word_mod_less_divisor)

lemma uprintint_loop_digits: "c \<in> set (uprintint_loop k 10 x) \<Longrightarrow> 48 \<le> c \<and> c \<le> 57"
  by (induction k arbitrary: x) (auto simp: udigit_dec(1)[OF mod10] split: if_splits)

lemma uprintint_loop_value: "unat x < 10 ^ Suc k \<Longrightarrow> foldl dec_step 0 (rev (uprintint_loop (Suc k) 10 x)) = x"
proof (induction k arbitrary: x)
  case 0
  then have "x < 10" by (simp add: word_less_nat_alt)
  then have "x div 10 = 0" "x mod 10 = x" by (simp_all add: word_less_nat_alt word_unat_eq_iff unat_div unat_mod)
  then show ?case using \<open>x < 10\<close> by (simp add: dec_step_def udigit_dec)
next
  case (Suc k)
  have d: "foldl dec_step 0 (rev (if x div 10 \<noteq> 0 then uprintint_loop (Suc k) 10 (x div 10) else [])) = x div 10"
    using Suc.IH[of "x div 10"] Suc.prems by (auto simp: unat_div div_less_iff_less_mult)
  show ?case
    unfolding uprintint_loop.simps(2)[of "Suc k" 10 x] rev.simps foldl_append d
    using div_mult_mod_eq[of x 10] by (simp add: dec_step_def udigit_dec(2)[OF mod10])
qed

text \<open>C39: What \<^verbatim>\<open>printf\<close> prints for \<^verbatim>\<open>%d\<close> reads back: \<^verbatim>\<open>atoi\<close> of the digits of a number that is not negative
  returns that number, for every such 32-bit number.\<close>

theorem atoi_printf:
  assumes "0 \<le> sint n" "cstr m p (render (lit ''%d'') [UInt n])"
  shows "atoi m p = Some n"
proof -
  let ?ds = "uprintint_loop 16 10 n"
  have r: "render (lit ''%d'') [UInt n] = rev ?ds"
    using assms(1) by (simp add: lit_def uint_arg_def uprintint_chars_def del: uprintint_loop.simps)
  have "unat n < 2 ^ LENGTH(32)" by (rule unsigned_less)
  then have "unat n < 10 ^ 16" by simp
  then have v: "foldl dec_step 0 (rev ?ds) = n" using uprintint_loop_value[of n 15] by (simp del: uprintint_loop.simps)
  show ?thesis
    using atoi_loop_eq[of m p "rev ?ds" 0] assms(2) uprintint_loop_digits[of _ 16 n] v
    unfolding r atoi_def by auto
qed

theorem atoi_printf_witness:
  "atoi ((\<lambda>_. 0)(100 := 49, 101 := 50, 102 := 55)) 100 = Some 127"
  by (rule atoi_printf) (simp, code_simp)

end
