(* ===== verification/Tools.thy ===== *)
theory Tools
  imports User
begin

text \<open>
  The user programs \<^verbatim>\<open>cat\<close>, \<^verbatim>\<open>wc\<close>, \<^verbatim>\<open>echo\<close>, \<^verbatim>\<open>ls\<close>, \<^verbatim>\<open>kill\<close>, \<^verbatim>\<open>ln\<close>, \<^verbatim>\<open>mkdir\<close>, \<^verbatim>\<open>rm\<close>, \<^verbatim>\<open>date\<close>, \<^verbatim>\<open>zombie\<close>,
  \<^verbatim>\<open>init\<close> and \<^verbatim>\<open>grep\<close>, with \<^verbatim>\<open>argv\<close> as the list of the arguments.  Every loop of theirs that could go on for ever makes
  a system call in each round, and the runs end where the answers do.
\<close>

abbreviation nl :: string where "nl \<equiv> [CHR 0x0A]"

abbreviation seq :: "'a run \<Rightarrow> 'b run \<Rightarrow> 'b run" where "seq m k \<equiv> bindu m (\<lambda>_. k)"

text \<open>The bytes a read has stored.\<close>

definition got :: "ans \<Rightarrow> uchar list" where
  "got a = take (nat (a_ret a)) (a_bytes a)"

section \<open>cat, wc and echo\<close>

function cat :: "int \<Rightarrow> unit run" where
  "cat fd s = bindu (usys (SysRead fd 512)) (\<lambda>a s.
     if a_ret a > 0 then bindu (uwrite 1 (got a)) (\<lambda>w s.
       if w \<noteq> a_ret a then seq (uprintf 1 (''cat: write error'' @ nl) []) uexit s
       else cat fd s) s
     else if a_ret a < 0 then seq (uprintf 1 (''cat: read error'' @ nl) []) uexit s
     else ret () s) s"
  by auto
termination
  by (relation "measure (\<lambda>(fd, s). length (answers s))") (auto simp: uwrite_def Let_def dest!: sys_shrinks)

primrec cat_files :: "uchar list list \<Rightarrow> unit run" where
  "cat_files [] = uexit"
| "cat_files (f # fs) = bindu (usys (SysOpen f 0)) (\<lambda>a.
     if a_ret a < 0 then seq (uprintf 1 (''cat: cannot open %s'' @ nl) [UStr (Some f)]) uexit
     else seq (cat (a_ret a)) (seq (usys (SysClose (a_ret a))) (cat_files fs)))"

definition cat_main :: "uchar list list \<Rightarrow> unit run" where
  "cat_main argv = (if length argv \<le> 1 then seq (cat 0) uexit else cat_files (tl argv))"

text \<open>The counters of \<^verbatim>\<open>wc\<close>: lines, words, characters, and whether the last character was inside a word.\<close>

type_synonym counts = "uint \<times> uint \<times> uint \<times> bool"

definition blank :: "uchar \<Rightarrow> bool" where
  "blank b \<longleftrightarrow> b \<in> set [32, 13, 9, 10, 11]"

definition wc_char :: "counts \<Rightarrow> uchar \<Rightarrow> counts" where
  "wc_char = (\<lambda>(l, w, c, inword) b.
     let c = c + 1; l = (if b = 10 then l + 1 else l)
     in if blank b then (l, w, c, False) else if \<not> inword then (l, w + 1, c, True) else (l, w, c, inword))"

function wc_loop :: "int \<Rightarrow> counts \<Rightarrow> (int \<times> counts) run" where
  "wc_loop fd k s = bindu (usys (SysRead fd 512)) (\<lambda>a s.
     if a_ret a > 0 then wc_loop fd (foldl wc_char k (got a)) s else ret (a_ret a, k) s) s"
  by auto
termination
  by (relation "measure (\<lambda>(fd, k, s). length (answers s))") (auto dest!: sys_shrinks)

definition wc :: "int \<Rightarrow> uchar list \<Rightarrow> unit run" where
  "wc fd name = bindu (wc_loop fd (0, 0, 0, False)) (\<lambda>(n, l, w, c, _).
     if n < 0 then seq (uprintf 1 (''wc: read error'' @ nl) []) uexit
     else uprintf 1 (''%d %d %d %s'' @ nl) [UInt l, UInt w, UInt c, UStr (Some name)])"

primrec wc_files :: "uchar list list \<Rightarrow> unit run" where
  "wc_files [] = uexit"
| "wc_files (f # fs) = bindu (usys (SysOpen f 0)) (\<lambda>a.
     if a_ret a < 0 then seq (uprintf 1 (''wc: cannot open %s'' @ nl) [UStr (Some f)]) uexit
     else seq (wc (a_ret a) f) (seq (usys (SysClose (a_ret a))) (wc_files fs)))"

definition wc_main :: "uchar list list \<Rightarrow> unit run" where
  "wc_main argv = (if length argv \<le> 1 then seq (wc 0 []) uexit else wc_files (tl argv))"

primrec echo_args :: "uchar list list \<Rightarrow> unit run" where
  "echo_args [] = uexit"
| "echo_args (x # xs) = seq (uprintf 1 ''%s%s'' [UStr (Some x), UStr (Some (if xs \<noteq> [] then [32] else [10]))]) (echo_args xs)"

definition echo_main :: "uchar list list \<Rightarrow> unit run" where
  "echo_main argv = echo_args (tl argv)"

section \<open>ls\<close>

text \<open>The position after the last slash among the first \<open>k\<close> characters, where the backwards scan ends.\<close>

primrec after_slash :: "uchar list \<Rightarrow> nat \<Rightarrow> nat" where
  "after_slash path 0 = 0"
| "after_slash path (Suc k) = (if path ! k = 47 then Suc k else after_slash path k)"

definition fmtname :: "uchar list \<Rightarrow> uchar list" where
  "fmtname path =
     (let p = drop (after_slash path (length path)) path
      in if length p \<ge> 14 then p else p @ replicate (14 - length p) 32)"

text \<open>The fields of \<^verbatim>\<open>struct stat\<close> are answered in order.  \<^verbatim>\<open>ls_line\<close> is the line for one file.\<close>

definition ls_line :: "uchar list \<Rightarrow> uint list \<Rightarrow> unit run" where
  "ls_line path st = uprintf 1 (''%s %d %d %d'' @ nl) [UStr (Some (fmtname path)), UInt (st ! 0), UInt (st ! 2), UInt (st ! 4)]"

text \<open>One entry of the directory, of 16 bytes: the inode number, and the name up to its NUL.\<close>

definition ls_inum :: "uchar list \<Rightarrow> ushort" where
  "ls_inum de = join16 (de ! 0) (de ! 1)"

definition ls_name :: "uchar list \<Rightarrow> uchar list" where
  "ls_name de = takeWhile (\<lambda>c. c \<noteq> 0) (take 14 (drop 2 de))"

function ls_dir :: "int \<Rightarrow> uchar list \<Rightarrow> unit run" where
  "ls_dir fd path s = bindu (usys (SysRead fd 16)) (\<lambda>a s.
     if a_ret a \<noteq> 16 then ret () s
     else if ls_inum (a_bytes a) = 0 then ls_dir fd path s
     else let buf = path @ [47] @ ls_name (a_bytes a) in
       bindu (ustat buf) (\<lambda>x s.
         bindu (if fst x < 0 then uprintf 1 (''ls: cannot stat %s'' @ nl) [UStr (Some buf)] else ls_line buf (snd x))
           (\<lambda>_ s. ls_dir fd path s) s) s) s"
  by auto

lemma ustat_answers: "ustat n s = Inr (x, t) \<Longrightarrow> length (answers t) \<le> length (answers s)"
  unfolding ustat_def
  by (auto simp: bindu_def ret_def usys_def call_def split: sum.splits prod.splits if_splits list.splits)

termination ls_dir
  by (relation "measure (\<lambda>(fd, path, s). length (answers s))")
     (auto simp: uprintf_eq ls_line_def split: if_splits dest!: sys_shrinks ustat_answers)

definition ls :: "uchar list \<Rightarrow> unit run" where
  "ls path = bindu (usys (SysOpen path 0)) (\<lambda>a. let fd = a_ret a in
     if fd < 0 then uprintf 2 (''ls: cannot open %s'' @ nl) [UStr (Some path)]
     else bindu (usys (SysFstat fd)) (\<lambda>r.
       if a_ret r < 0 then seq (uprintf 2 (''ls: cannot stat %s'' @ nl) [UStr (Some path)]) (seq (usys (SysClose fd)) (ret ()))
       else let st = a_nums r in
         seq (if st ! 0 = 2 then ls_line path st
              else if st ! 0 = 1 then
                if length path + 1 + 14 + 1 > 512 then uprintf 1 (''ls: path too long'' @ nl) [] else ls_dir fd path
              else ret ())
           (seq (usys (SysClose fd)) (ret ()))))"

primrec ls_args :: "uchar list list \<Rightarrow> unit run" where
  "ls_args [] = uexit"
| "ls_args (x # xs) = seq (ls x) (ls_args xs)"

definition ls_main :: "uchar list list \<Rightarrow> unit run" where
  "ls_main argv = (if length argv < 2 then seq (ls (lit ''.'')) uexit else ls_args (tl argv))"

section \<open>kill, ln, mkdir, rm, date, zombie and init\<close>

text \<open>\<^verbatim>\<open>atoi\<close> of a string.\<close>

definition atoi_str :: "uchar list \<Rightarrow> uint" where
  "atoi_str xs = foldl dec_step 0 (takeWhile (\<lambda>c. 48 \<le> c \<and> c \<le> 57) xs)"

primrec kill_args :: "uchar list list \<Rightarrow> unit run" where
  "kill_args [] = uexit"
| "kill_args (x # xs) = seq (usys (SysKill (atoi_str x))) (kill_args xs)"

definition kill_main :: "uchar list list \<Rightarrow> unit run" where
  "kill_main argv = (if length argv < 2 then seq (uprintf 2 (''usage: kill pid...'' @ nl) []) uexit else kill_args (tl argv))"

definition ln_main :: "uchar list list \<Rightarrow> unit run" where
  "ln_main argv =
     (if length argv \<noteq> 3 then seq (uprintf 2 (''Usage: ln old new'' @ nl) []) uexit
      else bindu (usys (SysLink (argv ! 1) (argv ! 2))) (\<lambda>a.
        seq (if a_ret a < 0 then uprintf 2 (''link %s %s: failed'' @ nl) [UStr (Some (argv ! 1)), UStr (Some (argv ! 2))] else ret ()) uexit))"

primrec mkdir_args :: "uchar list list \<Rightarrow> unit run" where
  "mkdir_args [] = uexit"
| "mkdir_args (x # xs) = bindu (usys (SysMkdir x)) (\<lambda>a.
     if a_ret a < 0 then seq (uprintf 2 (''mkdir: %s failed to create'' @ nl) [UStr (Some x)]) uexit else mkdir_args xs)"

definition mkdir_main :: "uchar list list \<Rightarrow> unit run" where
  "mkdir_main argv = (if length argv < 2 then seq (uprintf 2 (''Usage: mkdir files...'' @ nl) []) uexit else mkdir_args (tl argv))"

primrec rm_args :: "uchar list list \<Rightarrow> unit run" where
  "rm_args [] = uexit"
| "rm_args (x # xs) = bindu (usys (SysUnlink x)) (\<lambda>a.
     if a_ret a < 0 then seq (uprintf 2 (''rm: %s failed to delete'' @ nl) [UStr (Some x)]) uexit else rm_args xs)"

definition rm_main :: "uchar list list \<Rightarrow> unit run" where
  "rm_main argv = (if length argv < 2 then seq (uprintf 2 (''Usage: rm files...'' @ nl) []) uexit else rm_args (tl argv))"

text \<open>The fields of \<^verbatim>\<open>struct rtcdate\<close> are answered in order: second, minute, hour, day, month, year.\<close>

definition date_main :: "unit run" where
  "date_main = bindu (usys SysDate) (\<lambda>a.
     if a_ret a \<noteq> 0 then seq (uprintf 2 (''date failed!!!'' @ nl) []) uexit
     else let r = a_nums a in
       seq (uprintf 1 (''%d %d %d %d %d %d'' @ nl) [UInt (r ! 5), UInt (r ! 4), UInt (r ! 3), UInt (r ! 2), UInt (r ! 1), UInt (r ! 0)]) uexit)"

definition zombie_main :: "unit run" where
  "zombie_main = bindu (usys SysFork) (\<lambda>a. if a_ret a > 0 then seq (usys (SysSleep 5)) uexit else uexit)"

function init_wait :: "int \<Rightarrow> unit run" where
  "init_wait pid s = bindu (usys SysWait) (\<lambda>a s.
     if a_ret a \<ge> 0 \<and> a_ret a \<noteq> pid then bindu (uprintf 1 (''zombie!'' @ nl) []) (\<lambda>_ s. init_wait pid s) s else ret () s) s"
  by auto
termination
  by (relation "measure (\<lambda>(pid, s). length (answers s))") (auto simp: uprintf_eq dest!: sys_shrinks)

declare init_wait.simps [simp del]

lemma init_wait_answers: "init_wait pid s = Inr (x, t) \<Longrightarrow> length (answers t) \<le> length (answers s)"
  by (induction pid s arbitrary: x t rule: init_wait.induct)
     (subst (asm) init_wait.simps, fastforce simp: bindu_def usys_def ret_def uprintf_eq call_def split: if_splits list.splits sum.splits)

function init_loop :: "unit run" where
  "init_loop s = bindu (uprintf 1 (''init: starting sh'' @ nl) []) (\<lambda>_ s. bindu (usys SysFork) (\<lambda>a s.
     if a_ret a < 0 then seq (uprintf 1 (''init: fork failed'' @ nl) []) uexit s
     else if a_ret a = 0 then seq (usys (SysExec (lit ''sh'') [lit ''sh''])) (seq (uprintf 1 (''init: exec sh failed'' @ nl) []) uexit) s
     else bindu (init_wait (a_ret a)) (\<lambda>_ s. init_loop s) s) s) s"
  by auto
termination
  by (relation "measure (\<lambda>s. length (answers s))") (auto simp: uprintf_eq dest!: sys_shrinks init_wait_answers)

definition init_main :: "unit run" where
  "init_main = bindu (usys (SysOpen (lit ''console'') 2)) (\<lambda>a.
     seq (if a_ret a < 0 then seq (usys (SysMknod (lit ''console'') 1 1)) (seq (usys (SysOpen (lit ''console'') 2)) (ret ())) else ret ())
     (seq (usys (SysDup 0)) (seq (usys (SysDup 0)) init_loop)))"

section \<open>grep\<close>

text \<open>A pointer into the pattern or the text is what is left of the string there; past the end is the NUL.\<close>

definition at :: "uchar list \<Rightarrow> nat \<Rightarrow> uchar" where
  "at xs i = (if i < length xs then xs ! i else 0)"

function matchhere :: "uchar list \<Rightarrow> uchar list \<Rightarrow> bool" and matchstar :: "uchar \<Rightarrow> uchar list \<Rightarrow> uchar list \<Rightarrow> bool" where
  "matchhere re ts =
     (if re = [] then True
      else if at re 1 = 42 then matchstar (at re 0) (drop 2 re) ts
      else if at re 0 = 36 \<and> length re = 1 then ts = []
      else if ts \<noteq> [] \<and> (at re 0 = 46 \<or> at re 0 = at ts 0) then matchhere (drop 1 re) (drop 1 ts)
      else False)"
| "matchstar c re ts =
     (if matchhere re ts then True
      else if ts \<noteq> [] \<and> (at ts 0 = c \<or> c = 46) then matchstar c re (drop 1 ts)
      else False)"
  by pat_completeness auto
termination
  by (relation "measures [\<lambda>x. case x of Inl (re, t) \<Rightarrow> length re | Inr (c, re, t) \<Rightarrow> length re,
                          \<lambda>x. case x of Inl (re, t) \<Rightarrow> 0 | Inr (c, re, t) \<Rightarrow> Suc (length t)]")
     (auto simp: at_def split: if_splits)

declare matchhere.simps [simp del] matchstar.simps [simp del]

fun match_from :: "uchar list \<Rightarrow> uchar list \<Rightarrow> bool" where
  "match_from re ts = (if matchhere re ts then True else case ts of [] \<Rightarrow> False | c # ts \<Rightarrow> match_from re ts)"

declare match_from.simps [simp del]

definition match :: "uchar list \<Rightarrow> uchar list \<Rightarrow> bool" where
  "match re ts = (if at re 0 = 94 then matchhere (drop 1 re) ts else match_from re ts)"

text \<open>
  The lines of the buffer from \<open>p\<close> on, up to the first NUL: those that match are written.  The result is the rest
  of the buffer after the last newline found.
\<close>

function grep_lines :: "uchar list \<Rightarrow> uchar list \<Rightarrow> uchar list run" where
  "grep_lines pat p s =
     (let str = takeWhile (\<lambda>c. c \<noteq> 0) p; q = length (takeWhile (\<lambda>c. c \<noteq> 10) str) in
      if q < length str then
        bindu (if match pat (take q str) then seq (uwrite 1 (take (Suc q) str)) (ret ()) else ret ())
          (\<lambda>_ s. grep_lines pat (drop (Suc q) p) s) s
      else ret p s)"
  by auto
termination
proof (relation "measure (\<lambda>(pat, p, s). length p)")
  fix pat p :: "uchar list" and str q
  assume "str = takeWhile (\<lambda>c. c \<noteq> 0) p" "q < length str"
  then show "\<And>s x xb. ((pat, drop (Suc q) p, xb), pat, p, s) \<in> measure (\<lambda>(pat, p, s). length p)"
    using length_takeWhile_le[of "\<lambda>c. c \<noteq> 0" p] by auto
qed auto

declare grep_lines.simps [simp del]

function grep :: "uchar list \<Rightarrow> uchar list \<Rightarrow> int \<Rightarrow> unit run" where
  "grep pat buf fd s = bindu (usys (SysRead fd (1024 - int (length buf) - 1))) (\<lambda>a s.
     if a_ret a > 0 then
       let buf = buf @ got a in
       bindu (grep_lines pat buf) (\<lambda>p s. grep pat (if length p = length buf then [] else p) fd s) s
     else ret () s) s"
  by auto

lemma grep_lines_answers: "\<exists>r t. grep_lines pat p s = Inr (r, t) \<and> answers t = answers s"
proof (induction "length p" arbitrary: p s rule: less_induct)
  case less
  let ?q = "length (takeWhile (\<lambda>c. c \<noteq> 10) (takeWhile (\<lambda>c. c \<noteq> 0) p))"
  show ?case
  proof (cases "?q < length (takeWhile (\<lambda>c. c \<noteq> 0) p)")
    case True
    then have "length (drop (Suc ?q) p) < length p" using length_takeWhile_le[of "\<lambda>c. c \<noteq> 0" p] by auto
    from less[OF this] show ?thesis using True by (subst grep_lines.simps) (simp add: Let_def, metis call_fields(1))
  qed (subst grep_lines.simps, simp add: Let_def ret_def)
qed

lemma grep_lines_shrinks: "grep_lines pat p s = Inr (x, t) \<Longrightarrow> answers t = answers s"
  using grep_lines_answers[of pat p s] by auto

termination grep
  by (relation "measure (\<lambda>(pat, buf, fd, s). length (answers s))") (auto dest!: sys_shrinks grep_lines_shrinks)

declare grep.simps [simp del] cat.simps [simp del] wc_loop.simps [simp del] ls_dir.simps [simp del] init_loop.simps [simp del]

primrec grep_files :: "uchar list \<Rightarrow> uchar list list \<Rightarrow> unit run" where
  "grep_files pat [] = uexit"
| "grep_files pat (f # fs) = bindu (usys (SysOpen f 0)) (\<lambda>a.
     if a_ret a < 0 then seq (uprintf 1 (''grep: cannot open %s'' @ nl) [UStr (Some f)]) uexit
     else seq (grep pat [] (a_ret a)) (seq (usys (SysClose (a_ret a))) (grep_files pat fs)))"

definition grep_main :: "uchar list list \<Rightarrow> unit run" where
  "grep_main argv =
     (if length argv \<le> 1 then seq (uprintf 2 (''usage: grep pattern [file ...]'' @ nl) []) uexit
      else if length argv \<le> 2 then seq (grep (argv ! 1) [] 0) uexit
      else grep_files (argv ! 1) (drop 2 argv))"

section \<open>What the pattern matcher decides\<close>

text \<open>
  A pattern is a list of items, a character or \<^verbatim>\<open>.\<close>, starred or not, and may end in \<^verbatim>\<open>$\<close>.  A text begins with
  the pattern when it is a word for each item, in order, and then a rest, which a final \<^verbatim>\<open>$\<close> wants empty.
\<close>

fun items :: "uchar list \<Rightarrow> (uchar \<times> bool) list \<times> bool" where
  "items [] = ([], False)"
| "items [c] = (if c = 36 then ([], True) else ([(c, False)], False))"
| "items (c # d # re) = (if d = 42 then apfst ((#) (c, True)) (items re) else apfst ((#) (c, False)) (items (d # re)))"

definition fits :: "uchar \<Rightarrow> uchar \<Rightarrow> bool" where
  "fits c x \<longleftrightarrow> c = 46 \<or> x = c"

definition item_word :: "uchar \<times> bool \<Rightarrow> uchar list \<Rightarrow> bool" where
  "item_word = (\<lambda>(c, star) w. (star \<or> length w = 1) \<and> list_all (fits c) w)"

definition begins :: "uchar list \<Rightarrow> uchar list \<Rightarrow> bool" where
  "begins re ts \<longleftrightarrow> (\<exists>ws rest. ts = concat ws @ rest \<and> list_all2 item_word (fst (items re)) ws \<and> (snd (items re) \<longrightarrow> rest = []))"

lemma begins_item:
  assumes "items re = apfst ((#) i) (items re')"
  shows "begins re ts \<longleftrightarrow> (\<exists>w rest. ts = w @ rest \<and> item_word i w \<and> begins re' rest)"
proof
  assume "begins re ts"
  then obtain w ws rest where "ts = w @ (concat ws @ rest)" "item_word i w" "list_all2 item_word (fst (items re')) ws" "snd (items re') \<longrightarrow> rest = []"
    using assms by (fastforce simp: begins_def list_all2_Cons1)
  then show "\<exists>w rest. ts = w @ rest \<and> item_word i w \<and> begins re' rest" unfolding begins_def by blast
next
  assume "\<exists>w rest. ts = w @ rest \<and> item_word i w \<and> begins re' rest"
  then obtain w ws rest where "ts = concat (w # ws) @ rest" "item_word i w" "list_all2 item_word (fst (items re')) ws" "snd (items re') \<longrightarrow> rest = []"
    by (auto simp: begins_def)
  then show "begins re ts" using assms by (auto simp: begins_def intro!: exI[of _ "w # ws"])
qed

lemma begins_nil [simp]: "begins [] ts"
  by (simp add: begins_def)

lemma begins_end [simp]: "begins [36] ts \<longleftrightarrow> ts = []"
  by (simp add: begins_def)

lemma begins_char:
  assumes "at (c # re) 1 \<noteq> 42" "\<not> (c = 36 \<and> re = [])"
  shows "begins (c # re) ts \<longleftrightarrow> (\<exists>x rest. ts = x # rest \<and> fits c x \<and> begins re rest)"
proof -
  have "items (c # re) = apfst ((#) (c, False)) (items re)" using assms by (cases re) (auto simp: at_def)
  moreover have "item_word (c, False) w \<longleftrightarrow> (\<exists>x. w = [x] \<and> fits c x)" for w by (cases w) (auto simp: item_word_def)
  ultimately show ?thesis by (subst begins_item) (auto, metis append_Cons append_Nil)
qed

lemma begins_star: "begins (c # 42 # re) ts \<longleftrightarrow> (\<exists>w rest. ts = w @ rest \<and> list_all (fits c) w \<and> begins re rest)"
  by (subst begins_item[of _ "(c, True)" re]) (simp_all add: item_word_def)

lemma matchstar_eq:
  "(\<And>t. matchhere re t = begins re t) \<Longrightarrow> matchstar c re ts \<longleftrightarrow> (\<exists>w rest. ts = w @ rest \<and> list_all (fits c) w \<and> begins re rest)"
proof (induction ts)
  case Nil then show ?case by (subst matchstar.simps) simp
next
  case (Cons x ts)
  have eq: "(\<exists>w rest. x # ts = w @ rest \<and> list_all (fits c) w \<and> begins re rest) \<longleftrightarrow>
    begins re (x # ts) \<or> fits c x \<and> (\<exists>w rest. ts = w @ rest \<and> list_all (fits c) w \<and> begins re rest)" (is "?l \<longleftrightarrow> ?r")
  proof
    assume ?l
    then obtain w rest where w: "x # ts = w @ rest" "list_all (fits c) w" "begins re rest" by blast
    then show ?r by (cases w) auto
  next
    assume ?r
    then show ?l
    proof
      assume "begins re (x # ts)"
      then show ?l by (intro exI[of _ "[]"] exI[of _ "x # ts"]) simp
    next
      assume "fits c x \<and> (\<exists>w rest. ts = w @ rest \<and> list_all (fits c) w \<and> begins re rest)"
      then obtain w rest where "x # ts = (x # w) @ rest" "list_all (fits c) (x # w)" "begins re rest" by auto
      then show ?l by blast
    qed
  qed
  show ?case unfolding eq Cons.IH[OF Cons.prems, symmetric] by (subst matchstar.simps) (auto simp: at_def fits_def Cons.prems)
qed

lemma matchhere_eq: "matchhere re ts = begins re ts"
proof (induction "length re" arbitrary: re ts rule: less_induct)
  case less
  show ?case
  proof (cases re)
    case Nil then show ?thesis by (subst matchhere.simps) simp
  next
    case (Cons c r)
    show ?thesis
    proof (cases "at re 1 = 42")
      case True
      then obtain r' where r: "r = 42 # r'" using Cons by (cases r) (auto simp: at_def)
      have "matchhere r' t = begins r' t" for t using less[of r' t] Cons r by simp
      then show ?thesis using Cons r True by (subst matchhere.simps) (simp add: at_def matchstar_eq begins_star)
    next
      case False
      have IH: "matchhere r t = begins r t" for t using less[of r t] Cons by simp
      show ?thesis
      proof (cases "c = 36 \<and> r = []")
        case True
        then show ?thesis using Cons by (subst matchhere.simps) (simp add: at_def)
      next
        case ne: False
        have n: "at (c # r) 1 \<noteq> 42" using False Cons by simp
        show ?thesis using False ne
          by (subst matchhere.simps, simp only: Cons begins_char[OF n ne])
             (cases ts; auto simp: at_def fits_def IH)
      qed
    qed
  qed
qed

text \<open>C36: \<^verbatim>\<open>grep\<close>'s matcher decides the language of its patterns: a pattern that starts with \<^verbatim>\<open>^\<close> matches the texts that
  begin with the rest of it, any other the texts some part of which begins with it, where a text begins with a
  pattern when it splits into one word per item, as many characters as it takes for a starred item and one for a
  plain one, and an empty rest when the pattern ends in \<^verbatim>\<open>$\<close>.\<close>

theorem match_decides:
  "match re ts = (case re of c # re' \<Rightarrow> if c = 94 then begins re' ts else \<exists>pre suf. ts = pre @ suf \<and> begins re suf
     | [] \<Rightarrow> True)"
proof -
  have m: "match_from re ts \<longleftrightarrow> (\<exists>pre suf. ts = pre @ suf \<and> begins re suf)" for ts
  proof (induction ts)
    case Nil then show ?case by (subst match_from.simps) (simp add: matchhere_eq)
  next
    case (Cons x ts)
    show ?case
      by (subst match_from.simps) (auto simp: Cons matchhere_eq Cons_eq_append_conv)
  qed
  show ?thesis unfolding match_def m matchhere_eq by (cases re) (auto simp: at_def)
qed

section \<open>What the tools write\<close>

text \<open>The answer to a read that gets \<open>xs\<close>, and at the end of the file; and what a run has written.\<close>

definition chunk :: "uchar list \<Rightarrow> ans" where
  "chunk xs = \<lparr>a_ret = int (length xs), a_bytes = xs, a_nums = []\<rparr>"

lemma chunk_simps [simp]: "a_ret (chunk xs) = int (length xs)" "got (chunk xs) = xs"
  by (simp_all add: chunk_def got_def)

definition writes :: "int \<Rightarrow> sysc list \<Rightarrow> uchar list list" where
  "writes fd cs = [xs. SysWrite f xs \<leftarrow> cs, f = fd]"

lemma writes_simps [simp]:
  "writes fd [] = []" "writes fd (SysWrite f xs # cs) = (if f = fd then xs # writes fd cs else writes fd cs)"
  "writes fd (SysRead f n # cs) = writes fd cs" "writes fd (as @ bs) = writes fd as @ writes fd bs"
  by (simp_all add: writes_def)

text \<open>The complete lines of a text, and what follows the last newline.\<close>

definition line_step :: "uchar list list \<times> uchar list \<Rightarrow> uchar \<Rightarrow> uchar list list \<times> uchar list" where
  "line_step = (\<lambda>(ks, cur) c. if c = 10 then (ks @ [cur], []) else (ks, cur @ [c]))"

definition split_lines :: "uchar list \<Rightarrow> uchar list list \<times> uchar list" where
  "split_lines xs = foldl line_step ([], []) xs"

lemma line_step_add: "foldl line_step (ks, cur) xs = (let (ms, r) = foldl line_step ([], cur) xs in (ks @ ms, r))"
proof (induction xs arbitrary: ks cur)
  case (Cons c xs)
  show ?case
    using Cons[of "ks @ [cur]" "[]"] Cons[of "[cur]" "[]"] Cons[of ks "cur @ [c]"]
    by (simp add: line_step_def split: prod.splits)
qed simp

lemma line_step_no_nl: "10 \<notin> set xs \<Longrightarrow> foldl line_step (ks, cur) xs = (ks, cur @ xs)"
  by (induction xs arbitrary: cur) (auto simp: line_step_def)

lemma split_lines_append: "split_lines (xs @ ys) = foldl line_step (split_lines xs) ys"
  by (simp add: split_lines_def)

lemma split_lines_no_nl: "10 \<notin> set xs \<Longrightarrow> split_lines xs = ([], xs)"
  by (simp add: split_lines_def line_step_no_nl)

lemma split_lines_nl: "10 \<notin> set a \<Longrightarrow> split_lines (a @ 10 # b) = apfst ((#) a) (split_lines b)"
  using line_step_add[of "[a]" "[]" b]
  by (simp add: split_lines_def line_step_no_nl) (simp add: line_step_def apfst_def map_prod_def split: prod.splits)

lemma split_lines_rest: "10 \<notin> set (snd (split_lines xs))"
proof (induction xs rule: rev_induct)
  case (snoc c xs) then show ?case by (auto simp: split_lines_append line_step_def split: prod.splits)
qed (simp add: split_lines_def)

lemma split_lines_split: "10 \<in> set xs \<Longrightarrow> length (snd (split_lines xs)) < length xs"
proof (induction "length xs" arbitrary: xs rule: less_induct)
  case less
  then obtain a b where ab: "xs = a @ 10 # b" "10 \<notin> set a" using split_list_first by fast
  show ?case
  proof (cases "10 \<in> set b")
    case True then show ?thesis using less.hyps[of b] ab by (simp add: split_lines_nl)
  qed (simp add: ab split_lines_nl split_lines_no_nl)
qed

definition line_calls :: "uchar list \<Rightarrow> uchar list list \<Rightarrow> sysc list" where
  "line_calls pat ks = map (\<lambda>l. SysWrite 1 (l @ [10])) (filter (match pat) ks)"

lemma grep_lines_eq:
  "0 \<notin> set p \<Longrightarrow> grep_lines pat p s = Inr (snd (split_lines p), s\<lparr>calls := calls s @ line_calls pat (fst (split_lines p))\<rparr>)"
proof (induction "length p" arbitrary: p s rule: less_induct)
  case less
  have z: "takeWhile (\<lambda>c. c \<noteq> 0) p = p" using less.prems by (auto intro: takeWhile_eq_all_conv[THEN iffD2])
  show ?case
  proof (cases "10 \<in> set p")
    case True
    then obtain a b where ab: "p = a @ 10 # b" "10 \<notin> set a" using split_list_first by fast
    have q: "takeWhile (\<lambda>c. c \<noteq> 10) p = a" using ab by (subst ab(1), subst takeWhile_append2) auto
    have IH: "grep_lines pat b t = Inr (snd (split_lines b), t\<lparr>calls := calls t @ line_calls pat (fst (split_lines b))\<rparr>)" for t
      using less.hyps[of b t] ab less.prems by simp
    show ?thesis
      by (subst grep_lines.simps) (simp add: z q Let_def, simp add: ab split_lines_nl IH line_calls_def call_def)
  next
    case False
    then have q: "takeWhile (\<lambda>c. c \<noteq> 10) p = p" by (auto intro: takeWhile_eq_all_conv[THEN iffD2])
    show ?thesis using False
      by (subst grep_lines.simps) (simp only: z q Let_def, simp add: ret_def split_lines_no_nl line_calls_def)
  qed
qed

lemma grep_eq:
  "answers s = map chunk cs @ chunk [] # as \<Longrightarrow> list_all (\<lambda>xs. 0 \<notin> set xs \<and> 10 \<in> set xs) cs \<Longrightarrow> 0 \<notin> set buf \<Longrightarrow> 10 \<notin> set buf \<Longrightarrow>
   \<exists>t. grep pat buf fd s = Inr ((), t) \<and> answers t = as \<and>
     writes 1 (calls t) = writes 1 (calls s) @ map (\<lambda>l. l @ [10]) (filter (match pat) (fst (split_lines (buf @ concat cs))))"
proof (induction cs arbitrary: s buf)
  case Nil
  then show ?case by (subst grep.simps) (simp add: ret_def split_lines_no_nl)
next
  case (Cons xs cs)
  let ?b = "buf @ xs" and ?t = "\<lambda>s. (call (SysRead fd (1024 - int (length buf) - 1)) (s\<lparr>answers := map chunk cs @ chunk [] # as\<rparr>))
    \<lparr>calls := calls s @ [SysRead fd (1024 - int (length buf) - 1)] @ line_calls pat (fst (split_lines (buf @ xs)))\<rparr>"
  have l: "length (snd (split_lines ?b)) \<noteq> length ?b" using split_lines_split[of ?b] Cons.prems(2) by simp
  have sub: "set (snd (split_lines ys)) \<subseteq> set ys" for ys
    by (induction ys rule: rev_induct) (auto simp: split_lines_append line_step_def split_lines_def split: prod.splits)
  have "xs \<noteq> []" using Cons.prems(2) by auto
  then have g: "grep pat buf fd s = grep pat (snd (split_lines ?b)) fd (?t s)"
    using Cons.prems l by (subst grep.simps) (simp add: Let_def bindu_Inr[OF grep_lines_eq] call_def)
  obtain t where t: "grep pat (snd (split_lines ?b)) fd (?t s) = Inr ((), t)" "answers t = as"
    "writes 1 (calls t) = writes 1 (calls (?t s)) @ map (\<lambda>l. l @ [10]) (filter (match pat) (fst (split_lines (snd (split_lines ?b) @ concat cs))))"
    using Cons.IH[of "?t s" "snd (split_lines ?b)"] Cons.prems sub[of ?b] split_lines_rest[of ?b] by (auto simp: call_def)
  have w: "writes 1 (line_calls pat ks) = map (\<lambda>l. l @ [10]) (filter (match pat) ks)" for ks
    by (induction ks) (auto simp: line_calls_def)
  have "fst (split_lines (?b @ concat cs)) = fst (split_lines ?b) @ fst (split_lines (snd (split_lines ?b) @ concat cs))"
    using line_step_add[of "fst (split_lines ?b)" "snd (split_lines ?b)" "concat cs"] split_lines_rest[of ?b]
    unfolding split_lines_append[of ?b] split_lines_append[of "snd (split_lines ?b)"]
    by (simp add: split_lines_no_nl split: prod.splits)
  then show ?case using t g w by simp
qed

text \<open>C37: \<^verbatim>\<open>grep\<close> writes the lines of its input that match, in order and each once, however the input is cut into reads, as
  long as each read brings the end of a line; what follows the last newline is not a line.  The input has no NUL.\<close>

theorem grep_lines_written:
  assumes "answers s = map chunk cs @ chunk [] # as" "list_all (\<lambda>xs. 0 \<notin> set xs \<and> 10 \<in> set xs) cs"
  shows "\<exists>t. grep pat [] fd s = Inr ((), t) \<and>
    writes 1 (calls t) = writes 1 (calls s) @ map (\<lambda>l. l @ [10]) (filter (match pat) (fst (split_lines (concat cs))))"
  using grep_eq[OF assms, of "[]" pat fd] by auto

definition script :: "uchar list list \<Rightarrow> os" where
  "script cs = \<lparr>answers = map chunk cs @ [chunk []], wret = (\<lambda>_. 1), calls = []\<rparr>"

theorem grep_lines_written_witness:
  "\<exists>t. grep (lit ''b*c$'') [] 0 (script [lit ''abc'' @ [10] @ lit ''x'', lit ''y'' @ [10, 10] @ lit ''bbc'' @ [10]]) = Inr ((), t) \<and>
     writes 1 (calls t) = [lit ''abc'' @ [10], lit ''bbc'' @ [10]]"
proof -
  let ?cs = "[lit ''abc'' @ [10] @ lit ''x'', lit ''y'' @ [10, 10] @ lit ''bbc'' @ [10]]"
  have "map (\<lambda>l. l @ [10]) (filter (match (lit ''b*c$'')) (fst (split_lines (concat ?cs))))
    = [lit ''abc'' @ [10], lit ''bbc'' @ [10]]" by code_simp
  then show ?thesis
    using grep_lines_written[of "script ?cs" ?cs "[]" "lit ''b*c$''" 0] by (simp add: script_def lit_def)
qed

text \<open>
  A read that brings no newline makes \<^verbatim>\<open>grep\<close> forget the line it has begun: \<^verbatim>\<open>ab\<close> and a newline in one read is written for the
  pattern \<^verbatim>\<open>a\<close>, in two reads it is not.
\<close>

theorem grep_short_read:
  "(case grep (lit ''a'') [] 0 (script [lit ''ab'' @ [10]]) of Inr (_, t) \<Rightarrow> writes 1 (calls t) = [lit ''ab'' @ [10]] | _ \<Rightarrow> False) \<and>
   (case grep (lit ''a'') [] 0 (script [lit ''a'', lit ''b'' @ [10]]) of Inr (_, t) \<Rightarrow> writes 1 (calls t) = [] | _ \<Rightarrow> False)"
  by code_simp

text \<open>A word begins at a character that is not blank and stands first or after a blank.\<close>

definition word_count :: "uchar list \<Rightarrow> nat" where
  "word_count xs = length (filter (\<lambda>i. \<not> blank (xs ! i) \<and> (i = 0 \<or> blank (xs ! (i - 1)))) [0..<length xs])"

lemma word_count_snoc: "word_count (xs @ [x]) = word_count xs + (if \<not> blank x \<and> (xs = [] \<or> blank (last xs)) then 1 else 0)"
proof -
  have "filter (\<lambda>i. \<not> blank ((xs @ [x]) ! i) \<and> (i = 0 \<or> blank ((xs @ [x]) ! (i - 1)))) [0..<length xs]
    = filter (\<lambda>i. \<not> blank (xs ! i) \<and> (i = 0 \<or> blank (xs ! (i - 1)))) [0..<length xs]"
    by (rule filter_cong) (auto simp: nth_append)
  then show ?thesis by (cases "xs = []") (auto simp: word_count_def nth_append last_conv_nth)
qed

lemma wc_fold:
  "foldl wc_char (0, 0, 0, False) xs =
   (of_nat (length (filter (\<lambda>c. c = 10) xs)), of_nat (word_count xs), of_nat (length xs), xs \<noteq> [] \<and> \<not> blank (last xs))"
proof (induction xs rule: rev_induct)
  case (snoc x xs)
  have "blank 10" by (simp add: blank_def)
  then show ?case using snoc by (auto simp: wc_char_def word_count_snoc Let_def)
qed (simp add: word_count_def)

lemma wc_loop_eq:
  "answers s = map chunk cs @ chunk [] # as \<Longrightarrow> [] \<notin> set cs \<Longrightarrow>
   wc_loop fd k s = Inr ((0, foldl wc_char k (concat cs)), s\<lparr>answers := as, calls := calls s @ replicate (Suc (length cs)) (SysRead fd 512)\<rparr>)"
proof (induction cs arbitrary: s k)
  case Nil then show ?case by (subst wc_loop.simps) (simp add: ret_def call_def)
next
  case (Cons xs cs)
  then have "xs \<noteq> []" by auto
  then show ?case
    using Cons.prems by (subst wc_loop.simps) (simp add: Cons.IH)
qed

text \<open>C38: \<^verbatim>\<open>wc\<close> prints the number of newlines, of words and of characters of the whole input, modulo \<open>2\<^sup>3\<^sup>2\<close>, and the name,
  however the input is cut into reads: a word that goes over the end of the buffer counts once.\<close>

theorem wc_counts:
  assumes "answers s = map chunk cs @ chunk [] # as" "[] \<notin> set cs"
  shows "\<exists>t. wc fd name s = Inr ((), t) \<and> answers t = as \<and> concat (writes 1 (calls t)) = concat (writes 1 (calls s)) @
    render (lit (''%d %d %d %s'' @ nl)) [UInt (of_nat (length (filter (\<lambda>c. c = 10) (concat cs)))), UInt (of_nat (word_count (concat cs))),
      UInt (of_nat (length (concat cs))), UStr (Some name)]"
proof -
  have r: "writes 1 (replicate n (SysRead fd 512)) = []" for n by (induction n) simp_all
  have w: "concat (writes 1 (map (\<lambda>c. SysWrite 1 [c]) cs)) = cs" for cs by (induction cs) simp_all
  show ?thesis
    unfolding wc_def by (subst bindu_Inr[where m = "wc_loop fd (0, 0, 0, False)", OF wc_loop_eq[OF assms]]) (simp add: wc_fold uprintf_eq r w)
qed

theorem wc_counts_witness:
  "\<exists>t. wc 0 (lit ''f'') (script [lit ''hello wo'', lit ''rld'' @ [10]]) = Inr ((), t) \<and> concat (writes 1 (calls t)) = lit ''1 2 12 f'' @ [10]"
proof -
  let ?cs = "[lit ''hello wo'', lit ''rld'' @ [10]]"
  have "render (lit (''%d %d %d %s'' @ nl)) [UInt (of_nat (length (filter (\<lambda>c. c = 10) (concat ?cs)))), UInt (of_nat (word_count (concat ?cs))),
      UInt (of_nat (length (concat ?cs))), UStr (Some (lit ''f''))] = lit ''1 2 12 f'' @ [10]" by code_simp
  then show ?thesis
    using wc_counts[of "script ?cs" ?cs "[]" 0 "lit ''f''"] by (auto simp: script_def lit_def)
qed

text \<open>\<^verbatim>\<open>cat\<close> with writes that take everything copies its input.\<close>

lemma cat_copies:
  "answers s = map chunk cs @ chunk [] # as \<Longrightarrow> [] \<notin> set cs \<Longrightarrow> (\<And>us xs. wret s (us @ [SysWrite 1 xs]) = int (length xs)) \<Longrightarrow>
   \<exists>t. cat fd s = Inr ((), t) \<and> answers t = as \<and> concat (writes 1 (calls t)) = concat (writes 1 (calls s)) @ concat cs"
proof (induction cs arbitrary: s)
  case Nil then show ?case by (subst cat.simps) (simp add: ret_def)
next
  case (Cons xs cs)
  let ?t = "call (SysWrite 1 xs) (call (SysRead fd 512) (s\<lparr>answers := map chunk cs @ chunk [] # as\<rparr>))"
  obtain t where "cat fd ?t = Inr ((), t)" "answers t = as" "concat (writes 1 (calls t)) = concat (writes 1 (calls ?t)) @ concat cs"
    using Cons.IH[of ?t] Cons.prems by auto
  moreover have "xs \<noteq> []" using Cons.prems(2) by auto
  ultimately show ?case using Cons.prems(1,2) Cons.prems(3)[of "calls s @ [SysRead fd 512]" xs] by (subst cat.simps) simp
qed

end
