(* ===== verification/Shell.thy ===== *)
theory Shell
  imports Tools
begin

text \<open>
  The shell, \<^verbatim>\<open>sh.c\<close>: the tokenizer and the recursive descent parser on a line, \<^verbatim>\<open>nulterminate\<close>, and \<^verbatim>\<open>runcmd\<close> and \<^verbatim>\<open>main\<close> as runs of
  system calls.

  The line is the list of its bytes before the NUL, \<^verbatim>\<open>es\<close> its length, and a pointer into it a position.
  A command keeps for each word where it starts and ends.  A word is made a string only by \<^verbatim>\<open>nulterminate\<close>, which
  overwrites the byte after it, and it is read from the line so changed.
\<close>

section \<open>Commands\<close>

type_synonym word = "nat \<times> nat"

datatype cmd = ExecC "word list" | RedirC cmd word uint int | PipeC cmd cmd | ListC cmd cmd | BackC cmd

datatype perr = PanicSh string | Leftovers nat | NoFuel

section \<open>Tokens\<close>

definition whitespace :: "uchar \<Rightarrow> bool" where
  "whitespace c \<longleftrightarrow> c \<in> set [32, 9, 13, 10, 11]"

definition symbols :: "uchar \<Rightarrow> bool" where
  "symbols c \<longleftrightarrow> c \<in> set [60, 124, 62, 38, 59, 40, 41]"

definition skip :: "uchar list \<Rightarrow> nat \<Rightarrow> nat" where
  "skip buf s = s + length (takeWhile whitespace (drop s buf))"

definition word_char :: "uchar \<Rightarrow> bool" where
  "word_char c \<longleftrightarrow> \<not> whitespace c \<and> \<not> symbols c"

text \<open>The token, where it starts and ends, and the new position.\<close>

definition gettoken :: "uchar list \<Rightarrow> nat \<Rightarrow> uchar \<times> nat \<times> nat \<times> nat" where
  "gettoken buf s =
     (let s = skip buf s;
          c = at buf s;
          (tok, e) =
            (if c = 0 then (0, s)
             else if c \<in> set [124, 40, 41, 59, 38, 60] then (c, s + 1)
             else if c = 62 then if at buf (s + 1) = 62 then (43, s + 2) else (c, s + 1)
             else (97, s + length (takeWhile word_char (drop s buf))))
      in (tok, s, e, skip buf e))"

definition peek :: "uchar list \<Rightarrow> nat \<Rightarrow> uchar list \<Rightarrow> bool \<times> nat" where
  "peek buf s toks = (let s = skip buf s in (at buf s \<noteq> 0 \<and> at buf s \<in> set toks, s))"

definition after_token :: "uchar list \<Rightarrow> nat \<Rightarrow> nat" where
  "after_token buf s = snd (snd (snd (gettoken buf s)))"

lemma skip_ge [simp]: "s \<le> skip buf s"
  by (simp add: skip_def)

lemma drop_skip: "drop (skip buf s) buf = dropWhile whitespace (drop s buf)"
  by (simp add: skip_def dropWhile_eq_drop add.commute)

lemma takeWhile_dropWhile [simp]: "takeWhile P (dropWhile P xs) = []"
  by (induction xs) auto

lemma skip_idem [simp]: "skip buf (skip buf s) = skip buf s"
  by (subst skip_def) (simp add: drop_skip)

lemma at_pos: "at buf s \<noteq> 0 \<Longrightarrow> s < length buf"
  by (simp add: at_def split: if_splits)

lemma gettoken_moves: "gettoken buf s = (tok, q, e, t) \<Longrightarrow> s \<le> q \<and> q \<le> e \<and> e \<le> t \<and> (tok \<noteq> 0 \<longrightarrow> s < t \<and> q < length buf \<and> q < e)"
proof -
  assume g: "gettoken buf s = (tok, q, e, t)"
  have w: "0 < length (takeWhile word_char (drop (skip buf s) buf))"
    if "at buf (skip buf s) \<noteq> 0" "at buf (skip buf s) \<notin> set [124, 40, 41, 59, 38, 60]" "at buf (skip buf s) \<noteq> 62"
  proof -
    have l: "skip buf s < length buf" using that(1) by (rule at_pos)
    have "\<not> whitespace (buf ! skip buf s)"
      using nth_length_takeWhile[of whitespace "drop s buf"] l by (simp add: skip_def)
    then have "word_char (buf ! skip buf s)" using that l by (auto simp: word_char_def symbols_def at_def)
    moreover have "drop (skip buf s) buf = buf ! skip buf s # drop (Suc (skip buf s)) buf" using l by (simp add: Cons_nth_drop_Suc)
    ultimately show ?thesis by simp
  qed
  have "t = skip buf e \<and> q = skip buf s \<and> q \<le> e \<and> (tok \<noteq> 0 \<longrightarrow> q < e \<and> q < length buf)"
    using g w at_pos[of buf "skip buf s"] by (auto simp: gettoken_def Let_def split: if_splits prod.splits)
  moreover have "e \<le> skip buf e" "s \<le> skip buf s" by simp_all
  ultimately show ?thesis by linarith
qed

lemma peek_moves: "peek buf s toks = (b, t) \<Longrightarrow> s \<le> t \<and> (b \<longrightarrow> t < after_token buf t \<and> t < length buf)"
proof -
  assume p: "peek buf s toks = (b, t)"
  obtain tok q e u where g: "gettoken buf t = (tok, q, e, u)" by (metis prod_cases4)
  have t: "t = skip buf s" using p by (auto simp: peek_def Let_def)
  have "tok \<noteq> 0" if b
  proof -
    have at: "at buf t \<noteq> 0" using p that by (auto simp: peek_def Let_def)
    have "skip buf t = t" by (simp add: t)
    then show ?thesis using g at by (auto simp: gettoken_def Let_def split: if_splits)
  qed
  then show ?thesis using gettoken_moves[OF g] t p g by (auto simp: after_token_def peek_def Let_def at_def split: if_splits)
qed

section \<open>The parser\<close>

text \<open>
  \<^verbatim>\<open>parseredirs\<close> wraps a command in one redirection after the other.  \<^verbatim>\<open>parseexec\<close> goes on to fill in the command it has
  already had wrapped; here the redirections are collected, and put around the finished command at the end.
\<close>

type_synonym redir = "word \<times> uint \<times> int"

definition redircmd :: "cmd \<Rightarrow> redir \<Rightarrow> cmd" where
  "redircmd c r = (case r of (w, mode, fd) \<Rightarrow> RedirC c w mode fd)"

definition redir_of :: "uchar \<Rightarrow> word \<Rightarrow> redir list" where
  "redir_of tok w = (if tok = 60 then [(w, 0, 0)] else if tok = 62 \<or> tok = 43 then [(w, 0x001 OR 0x200, 1)] else [])"

function parseredirs :: "uchar list \<Rightarrow> redir list \<Rightarrow> nat \<Rightarrow> perr + redir list \<times> nat" where
  "parseredirs buf rs s =
     (case peek buf s [60, 62] of (b, s) \<Rightarrow>
        if b then
          case gettoken buf s of (tok, _, _, s) \<Rightarrow>
          case gettoken buf s of (tok', q, eq, s) \<Rightarrow>
            if tok' \<noteq> 97 then Inl (PanicSh ''missing file for redirection'')
            else parseredirs buf (rs @ redir_of tok (q, eq)) s
        else Inr (rs, s))"
  by auto
termination
  by (relation "measure (\<lambda>(buf, rs, s). length buf - s)")
     (auto simp: after_token_def dest!: peek_moves gettoken_moves[of _ _ 97] sym[of "(_, _)" "peek _ _ _"] sym[of "(_, _, _, _)" "gettoken _ _"])

declare parseredirs.simps [simp del]

lemma parseredirs_moves: "parseredirs buf rs s = Inr (rs', t) \<Longrightarrow> s \<le> t"
proof (induction buf rs s rule: parseredirs.induct)
  case (1 buf rs s)
  obtain b u where p: "peek buf s [60, 62] = (b, u)" by fastforce
  obtain tok q0 e0 v where g: "gettoken buf u = (tok, q0, e0, v)" by (metis prod_cases4)
  obtain tok' q e w where g': "gettoken buf v = (tok', q, e, w)" by (metis prod_cases4)
  show ?case
  proof (cases b)
    case True
    then have "tok' = 97" "parseredirs buf (rs @ redir_of tok (q, e)) w = Inr (rs', t)"
      using "1.prems" p g g' by (auto simp: parseredirs.simps[of buf rs s] split: if_splits)
    then have "w \<le> t" using "1.IH"[OF p[symmetric] True g[symmetric] refl refl g'[symmetric] refl refl] by auto
    then show ?thesis using peek_moves[OF p] gettoken_moves[OF g] gettoken_moves[OF g'] by linarith
  next
    case False
    then show ?thesis using "1.prems" p peek_moves[OF p] by (auto simp: parseredirs.simps[of buf rs s])
  qed
qed

text \<open>The loop of \<^verbatim>\<open>parseexec\<close> over the words of a command.\<close>

definition MAXARGS :: nat where "MAXARGS = 10"

function parseargs :: "uchar list \<Rightarrow> word list \<Rightarrow> redir list \<Rightarrow> nat \<Rightarrow> perr + cmd \<times> nat" where
  "parseargs buf args rs s =
     (case peek buf s [124, 41, 38, 59] of (b, s) \<Rightarrow>
        if b then Inr (foldl redircmd (ExecC args) rs, s)
        else case gettoken buf s of (tok, q, eq, s) \<Rightarrow>
          if tok = 0 then Inr (foldl redircmd (ExecC args) rs, s)
          else if tok \<noteq> 97 then Inl (PanicSh ''syntax'')
          else let args = args @ [(q, eq)] in
            if length args \<ge> MAXARGS then Inl (PanicSh ''too many args'')
            else case parseredirs buf rs s of Inl e \<Rightarrow> Inl e | Inr x \<Rightarrow> parseargs buf args (fst x) (snd x))"
  by auto

lemma parseargs_less:
  assumes "peek buf s toks = (b, u)" "gettoken buf u = (tok, q, e, v)" "tok \<noteq> 0" "parseredirs buf rs v = Inr (rs', w)"
  shows "length buf - w < length buf - s"
  using peek_moves[OF assms(1)] gettoken_moves[OF assms(2)] assms(3) parseredirs_moves[OF assms(4)] by auto

termination parseargs
  by (relation "measure (\<lambda>(buf, args, rs, s). length buf - s)") (auto intro: parseargs_less[OF sym sym])

declare parseargs.simps [simp del]

text \<open>Each \<^verbatim>\<open>&\<close> puts the command into the background.\<close>

function parseback :: "uchar list \<Rightarrow> cmd \<Rightarrow> nat \<Rightarrow> cmd \<times> nat" where
  "parseback buf c s =
     (case peek buf s [38] of (b, s) \<Rightarrow> if b then parseback buf (BackC c) (after_token buf s) else (c, s))"
  by auto
termination
  by (relation "measure (\<lambda>(buf, c, s). length buf - s)") (auto dest!: peek_moves[OF sym])

declare parseback.simps [simp del]

text \<open>
  The recursive functions of the grammar.  Each call spends one unit of fuel; what \<open>parsecmd\<close> gives them is shown to be enough.
\<close>

fun parseline :: "nat \<Rightarrow> uchar list \<Rightarrow> nat \<Rightarrow> perr + cmd \<times> nat"
and parsepipe :: "nat \<Rightarrow> uchar list \<Rightarrow> nat \<Rightarrow> perr + cmd \<times> nat"
and parseexec :: "nat \<Rightarrow> uchar list \<Rightarrow> nat \<Rightarrow> perr + cmd \<times> nat" where
  "parseline 0 buf s = Inl NoFuel"
| "parseline (Suc n) buf s =
     (case parsepipe n buf s of Inl e \<Rightarrow> Inl e | Inr (c, s) \<Rightarrow>
      case parseback buf c s of (c, s) \<Rightarrow>
      case peek buf s [59] of (b, s) \<Rightarrow>
        if b then
          case parseline n buf (after_token buf s) of Inl e \<Rightarrow> Inl e | Inr (d, s) \<Rightarrow> Inr (ListC c d, s)
        else Inr (c, s))"
| "parsepipe 0 buf s = Inl NoFuel"
| "parsepipe (Suc n) buf s =
     (case parseexec n buf s of Inl e \<Rightarrow> Inl e | Inr (c, s) \<Rightarrow>
      case peek buf s [124] of (b, s) \<Rightarrow>
        if b then
          case parsepipe n buf (after_token buf s) of Inl e \<Rightarrow> Inl e | Inr (d, s) \<Rightarrow> Inr (PipeC c d, s)
        else Inr (c, s))"
| "parseexec 0 buf s = Inl NoFuel"
| "parseexec (Suc n) buf s =
     (case peek buf s [40] of (b, s) \<Rightarrow>
        if b then
          case parseline n buf (after_token buf s) of Inl e \<Rightarrow> Inl e | Inr (c, s) \<Rightarrow>
          case peek buf s [41] of (b, s) \<Rightarrow>
            if \<not> b then Inl (PanicSh ''syntax - missing )'')
            else case parseredirs buf [] (after_token buf s) of Inl e \<Rightarrow> Inl e | Inr (rs, s) \<Rightarrow> Inr (foldl redircmd c rs, s)
        else
          case parseredirs buf [] s of Inl e \<Rightarrow> Inl e | Inr (rs, s) \<Rightarrow> parseargs buf [] rs s)"

text \<open>The strings in a line: what is written over the byte after each word.\<close>

primrec nulterminate :: "cmd \<Rightarrow> uchar list \<Rightarrow> uchar list" where
  "nulterminate (ExecC args) buf = foldl (\<lambda>buf w. buf[snd w := 0]) buf args"
| "nulterminate (RedirC c w mode fd) buf = (nulterminate c buf)[snd w := 0]"
| "nulterminate (PipeC l r) buf = nulterminate r (nulterminate l buf)"
| "nulterminate (ListC l r) buf = nulterminate r (nulterminate l buf)"
| "nulterminate (BackC c) buf = nulterminate c buf"

definition parsecmd :: "uchar list \<Rightarrow> perr + cmd \<times> uchar list" where
  "parsecmd buf =
     (case parseline (3 * length buf + 3) buf 0 of Inl e \<Rightarrow> Inl e | Inr (c, s) \<Rightarrow>
      case peek buf s [] of (_, s) \<Rightarrow>
        if s \<noteq> length buf then Inl (Leftovers s) else Inr (c, nulterminate c buf))"

section \<open>Running a command\<close>

definition word_str :: "uchar list \<Rightarrow> word \<Rightarrow> uchar list" where
  "word_str buf w = takeWhile (\<lambda>c. c \<noteq> 0) (drop (fst w) buf)"

definition sh_panic :: "string \<Rightarrow> 'a run" where
  "sh_panic msg = seq (uprintf 2 (''%s'' @ nl) [UStr (Some (lit msg))]) uexit"

definition fork1 :: "int run" where
  "fork1 = bindu (usys SysFork) (\<lambda>a. if a_ret a = -1 then sh_panic ''fork'' else ret (a_ret a))"

abbreviation close :: "int \<Rightarrow> ans run" where "close fd \<equiv> usys (SysClose fd)"
abbreviation dup :: "int \<Rightarrow> ans run" where "dup fd \<equiv> usys (SysDup fd)"

primrec runcmd :: "uchar list \<Rightarrow> cmd \<Rightarrow> unit run" where
  "runcmd buf (ExecC args) =
     (if args = [] then uexit
      else seq (usys (SysExec (word_str buf (hd args)) (map (word_str buf) args)))
        (seq (uprintf 2 (''exec %s failed'' @ nl) [UStr (Some (word_str buf (hd args)))]) uexit))"
| "runcmd buf (RedirC c w mode fd) =
     seq (close fd) (bindu (usys (SysOpen (word_str buf w) mode)) (\<lambda>a.
     if a_ret a < 0 then seq (uprintf 2 (''open %s failed'' @ nl) [UStr (Some (word_str buf w))]) uexit
     else seq (runcmd buf c) uexit))"
| "runcmd buf (ListC l r) =
     bindu fork1 (\<lambda>pid. seq (if pid = 0 then runcmd buf l else ret ())
     (seq (usys SysWait) (seq (runcmd buf r) uexit)))"
| "runcmd buf (PipeC l r) =
     bindu (usys SysPipe) (\<lambda>a. if a_ret a < 0 then sh_panic ''pipe''
     else let p0 = sint (a_nums a ! 0); p1 = sint (a_nums a ! 1) in
     bindu fork1 (\<lambda>pid. seq (if pid = 0 then seq (close 1) (seq (dup p1) (seq (close p0) (seq (close p1) (runcmd buf l)))) else ret ())
     (bindu fork1 (\<lambda>pid. seq (if pid = 0 then seq (close 0) (seq (dup p0) (seq (close p0) (seq (close p1) (runcmd buf r)))) else ret ())
     (seq (close p0) (seq (close p1) (seq (usys SysWait) (seq (usys SysWait) uexit))))))))"
| "runcmd buf (BackC c) =
     bindu fork1 (\<lambda>pid. seq (if pid = 0 then runcmd buf c else ret ()) uexit)"

text \<open>What the child does with the line: a parse error is printed, and the process ends.\<close>

definition run_line :: "uchar list \<Rightarrow> unit run" where
  "run_line buf = (case parsecmd buf of
     Inl (PanicSh msg) \<Rightarrow> sh_panic msg
   | Inl (Leftovers s) \<Rightarrow> seq (uprintf 2 (''leftovers: %s'' @ nl) [UStr (Some (drop s buf))]) (sh_panic ''syntax'')
   | Inl NoFuel \<Rightarrow> (\<lambda>s. Inl (Wild, s))
   | Inr (c, buf) \<Rightarrow> runcmd buf c)"

definition getcmd :: "int \<Rightarrow> uchar list option run" where
  "getcmd nbuf = seq (uprintf 2 ''$ '' []) (bindu (gets nbuf) (\<lambda>buf.
     let buf = takeWhile (\<lambda>c. c \<noteq> 0) buf in ret (if buf = [] then None else Some buf)))"

function open_console :: "unit run" where
  "open_console s = bindu (usys (SysOpen (lit ''console'') 2)) (\<lambda>a s.
     if a_ret a \<ge> 0 then if a_ret a \<ge> 3 then seq (close (a_ret a)) (ret ()) s else open_console s
     else ret () s) s"
  by auto
termination
  by (relation "measure (\<lambda>s. length (answers s))") (auto dest!: sys_shrinks)

lemma gets_loop_answers: "gets_loop k buf s = Inr (x, t) \<Longrightarrow> length (answers t) \<le> length (answers s)"
proof (induction k arbitrary: buf s)
  case (Suc k)
  then show ?case
    by (fastforce simp: bindu_def Let_def ret_def split: sum.splits if_splits dest: sys_shrinks)
qed (simp add: ret_def)

lemma getcmd_answers: "getcmd nbuf s = Inr (x, t) \<Longrightarrow> length (answers t) \<le> length (answers s)"
  by (auto simp: getcmd_def bindu_def uprintf_eq gets_def ret_def Let_def split: sum.splits dest!: gets_loop_answers)

lemma fork1_shrinks: "fork1 s = Inr (x, t) \<Longrightarrow> length (answers t) < length (answers s)"
  by (auto simp: fork1_def bindu_def ret_def sh_panic_def uprintf_eq uexit_def split: sum.splits if_splits dest!: sys_shrinks)

function sh_loop :: "unit run" where
  "sh_loop s = bindu (getcmd 100) (\<lambda>x s. case x of None \<Rightarrow> uexit s | Some buf \<Rightarrow>
     if at buf 0 = 99 \<and> at buf 1 = 100 \<and> at buf 2 = 32 then
       bindu (usys (SysChdir (drop 3 (butlast buf)))) (\<lambda>a s.
         bindu (if a_ret a < 0 then uprintf 2 (''cannot cd %s'' @ nl) [UStr (Some (drop 3 (butlast buf)))] else ret ()) (\<lambda>_ s. sh_loop s) s) s
     else bindu fork1 (\<lambda>pid s.
       bindu (if pid = 0 then run_line buf else ret ()) (\<lambda>_ s. bindu (usys SysWait) (\<lambda>_ s. sh_loop s) s) s) s) s"
  by auto

text \<open>A command does not return.\<close>

definition ends :: "'a run \<Rightarrow> bool" where
  "ends m \<longleftrightarrow> (\<forall>s. isl (m s))"

lemma ends_exit [simp]: "ends uexit"
  by (simp add: ends_def uexit_def)

lemma ends_bindu: "(\<And>x. ends (f x)) \<Longrightarrow> ends (bindu m f)"
  by (auto simp: ends_def bindu_def split: sum.split)

lemma ends_panic [simp]: "ends (sh_panic msg)"
  by (simp add: sh_panic_def ends_bindu)

lemma runcmd_ends [simp]: "ends (runcmd buf c)"
  by (induction c) (auto simp: Let_def intro!: ends_bindu)

lemma run_line_ends [simp]: "ends (run_line buf)"
proof -
  have "ends (\<lambda>s. Inl (Wild, s))" by (simp add: ends_def)
  then show ?thesis by (auto simp: run_line_def intro!: ends_bindu split: sum.split perr.split)
qed

lemma run_line_no: "run_line buf s \<noteq> Inr x"
  using run_line_ends[of buf] by (metis ends_def isl_def sum.distinct(1))

termination sh_loop
  by (relation "measure (\<lambda>s. length (answers s))")
     (auto simp: uprintf_eq ret_def run_line_no split: if_splits dest!: sys_shrinks getcmd_answers fork1_shrinks)

declare sh_loop.simps [simp del] open_console.simps [simp del]

definition sh_main :: "unit run" where
  "sh_main = seq open_console sh_loop"

section \<open>The parser ends\<close>

lemma parseback_moves: "parseback buf c s = (c', t) \<Longrightarrow> s \<le> t"
proof (induction buf c s rule: parseback.induct)
  case (1 buf c s)
  obtain b u where p: "peek buf s [38] = (b, u)" by fastforce
  show ?case using "1.prems" "1.IH"[OF p[symmetric]] p peek_moves[OF p]
    by (cases b) (auto simp: parseback.simps[of buf c s])
qed

lemma parseredirs_fuel: "parseredirs buf rs s \<noteq> Inl NoFuel"
  by (induction buf rs s rule: parseredirs.induct) (subst parseredirs.simps, auto split: prod.splits)

lemma parseargs_ok: "parseargs buf args rs s \<noteq> Inl NoFuel \<and> (\<forall>c t. parseargs buf args rs s = Inr (c, t) \<longrightarrow> s \<le> t)"
proof (induction buf args rs s rule: parseargs.induct)
  case (1 buf args rs s)
  obtain b u where p: "peek buf s [124, 41, 38, 59] = (b, u)" by fastforce
  obtain tok q e v where g: "gettoken buf u = (tok, q, e, v)" by (metis prod_cases4)
  note IH = "1.IH"[OF p[symmetric] _ g[symmetric] refl refl]
  let ?c = "foldl redircmd (ExecC args) rs" and ?as = "args @ [(q, e)]"
  have eq: "parseargs buf args rs s = (if b then Inr (?c, u) else if tok = 0 then Inr (?c, v) else if tok \<noteq> 97 then Inl (PanicSh ''syntax'')
    else if MAXARGS \<le> length ?as then Inl (PanicSh ''too many args'')
    else case parseredirs buf rs v of Inl e \<Rightarrow> Inl e | Inr x \<Rightarrow> parseargs buf ?as (fst x) (snd x))"
    by (subst parseargs.simps) (simp add: p g Let_def)
  have m: "s \<le> u" "u \<le> v" using peek_moves[OF p] gettoken_moves[OF g] by auto
  show ?case
  proof (cases "b \<or> tok = 0 \<or> tok \<noteq> 97 \<or> MAXARGS \<le> length ?as")
    case True then show ?thesis using m unfolding eq by auto
  next
    case F: False
    show ?thesis
    proof (cases "parseredirs buf rs v")
      case (Inl err) then show ?thesis using F parseredirs_fuel[of buf rs v] unfolding eq by auto
    next
      case (Inr x)
      have "v \<le> snd x" using parseredirs_moves[of buf rs v "fst x" "snd x"] Inr by simp
      moreover have "parseargs buf ?as (fst x) (snd x) \<noteq> Inl NoFuel \<and> (\<forall>c t. parseargs buf ?as (fst x) (snd x) = Inr (c, t) \<longrightarrow> snd x \<le> t)"
        using IH[OF _ _ _ refl _ Inr] F by simp
      ultimately show ?thesis using F m Inr unfolding eq by fastforce
    qed
  qed
qed

text \<open>Enough fuel: three units for each character that is left, and one for each of the calls that do not consume any.\<close>

definition goes :: "nat \<Rightarrow> perr + cmd \<times> nat \<Rightarrow> bool" where
  "goes s r \<longleftrightarrow> r \<noteq> Inl NoFuel \<and> (\<forall>c t. r = Inr (c, t) \<longrightarrow> s \<le> t)"

lemma fuel_less: "s \<le> u \<Longrightarrow> u < a \<and> u < l \<Longrightarrow> 3 * (l - a) + 3 \<le> 3 * (l - s)" for l :: nat
  by arith

lemma parse_goes:
  "3 * (length buf - s) + 3 \<le> n \<Longrightarrow> goes s (parseline n buf s)"
  "3 * (length buf - s) + 2 \<le> n \<Longrightarrow> goes s (parsepipe n buf s)"
  "3 * (length buf - s) + 1 \<le> n \<Longrightarrow> goes s (parseexec n buf s)"
proof (induction n arbitrary: s)
  case 0
  { case 1 then show ?case by simp }
  { case 2 then show ?case by simp }
  { case 3 then show ?case by simp }
next
  case (Suc n)
  { case 1
    have pp: "goes s (parsepipe n buf s)" using Suc.IH(2)[of s] 1 by simp
    show ?case
    proof (cases "parsepipe n buf s")
      case (Inl e) then show ?thesis using pp by (simp add: goes_def)
    next
      case (Inr x)
      obtain c t where x: "x = (c, t)" by fastforce
      obtain c' t' where b: "parseback buf c t = (c', t')" by fastforce
      obtain p u where p: "peek buf t' [59] = (p, u)" by fastforce
      have "s \<le> t" using pp Inr x by (simp add: goes_def)
      then have m: "s \<le> u" "p \<Longrightarrow> u < after_token buf u \<and> u < length buf" using parseback_moves[OF b] peek_moves[OF p] by auto
      have "goes (after_token buf u) (parseline n buf (after_token buf u))" if p
        using fuel_less[OF m(1) m(2)[OF that]] 1 by (intro Suc.IH(1)) simp
      then show ?thesis using Inr x b p m by (auto simp: goes_def split: sum.splits prod.splits)
    qed }
  { case 2
    have pe: "goes s (parseexec n buf s)" using Suc.IH(3)[of s] 2 by simp
    show ?case
    proof (cases "parseexec n buf s")
      case (Inl e) then show ?thesis using pe by (simp add: goes_def)
    next
      case (Inr x)
      obtain c t where x: "x = (c, t)" by fastforce
      obtain p u where p: "peek buf t [124] = (p, u)" by fastforce
      have "s \<le> t" using pe Inr x by (simp add: goes_def)
      then have m: "s \<le> u" "p \<Longrightarrow> u < after_token buf u \<and> u < length buf" using peek_moves[OF p] by auto
      have "goes (after_token buf u) (parsepipe n buf (after_token buf u))" if p
        using fuel_less[OF m(1) m(2)[OF that]] 2 by (intro Suc.IH(2)) simp
      then show ?thesis using Inr x p m by (auto simp: goes_def split: sum.splits prod.splits)
    qed }
  { case 3
    obtain p u where p: "peek buf s [40] = (p, u)" by fastforce
    show ?case
    proof (cases p)
      case True
      then have m: "s \<le> u" "u < after_token buf u \<and> u < length buf" using peek_moves[OF p] by auto
      have pl: "goes (after_token buf u) (parseline n buf (after_token buf u))"
        using fuel_less[OF m] 3 by (intro Suc.IH(1)) simp
      have "s \<le> t'" if "after_token buf u \<le> t" "peek buf t [41] = (b, v)" "parseredirs buf [] (after_token buf v) = Inr (rs, t')" b for t b v rs t'
        using that m peek_moves[OF that(2)] parseredirs_moves[OF that(3)] by auto
      then show ?thesis using True p pl parseredirs_fuel
        by (auto simp: goes_def split: sum.splits prod.splits if_splits; fastforce)
    next
      case False
      then have m: "s \<le> u" using peek_moves[OF p] by auto
      then show ?thesis using False p parseredirs_fuel[of buf "[]" u] parseredirs_moves[of buf "[]" u] parseargs_ok
        by (auto simp: goes_def split: sum.splits) (meson order_trans)
    qed }
qed


section \<open>Words\<close>

definition span_of :: "uchar list \<Rightarrow> word \<Rightarrow> uchar list" where
  "span_of buf w = take (snd w - fst w) (drop (fst w) buf)"

definition word_ok :: "uchar list \<Rightarrow> word \<Rightarrow> bool" where
  "word_ok buf w \<longleftrightarrow> fst w < snd w \<and> snd w \<le> length buf \<and> list_all word_char (span_of buf w) \<and> (snd w < length buf \<longrightarrow> \<not> word_char (buf ! snd w))"

primrec words_of :: "cmd \<Rightarrow> word list" where
  "words_of (ExecC args) = args"
| "words_of (RedirC c w mode fd) = words_of c @ [w]"
| "words_of (PipeC l r) = words_of l @ words_of r"
| "words_of (ListC l r) = words_of l @ words_of r"
| "words_of (BackC c) = words_of c"

lemma gettoken_word: "gettoken buf s = (97, q, e, t) \<Longrightarrow> word_ok buf (q, e)"
proof -
  assume g: "gettoken buf s = (97, q, e, t)"
  let ?w = "takeWhile word_char (drop q buf)"
  have q: "q < e" "q < length buf" "e = q + length ?w"
    using g gettoken_moves[OF g] by (auto simp: gettoken_def Let_def split: if_splits)
  have "length ?w \<le> length (drop q buf)" by (rule length_takeWhile_le)
  then have e: "e \<le> length buf" using q by simp
  have "span_of buf (q, e) = ?w" using q(3) by (simp add: span_of_def takeWhile_eq_take[symmetric])
  moreover have "\<not> word_char (buf ! e)" if "e < length buf"
    using nth_length_takeWhile[of word_char "drop q buf"] that q by simp
  ultimately show ?thesis using q e by (auto simp: word_ok_def list_all_iff dest: set_takeWhileD)
qed

definition words_ok :: "uchar list \<Rightarrow> cmd \<Rightarrow> bool" where
  "words_ok buf c \<longleftrightarrow> list_all (word_ok buf) (words_of c)"

lemma words_ok_redirs: "words_ok buf (foldl redircmd c rs) \<longleftrightarrow> words_ok buf c \<and> list_all (\<lambda>r. word_ok buf (fst r)) rs"
  by (induction rs arbitrary: c) (auto simp: words_ok_def redircmd_def split: prod.splits)

lemma parseredirs_words: "parseredirs buf rs s = Inr (rs', t) \<Longrightarrow> list_all (\<lambda>r. word_ok buf (fst r)) rs \<Longrightarrow> list_all (\<lambda>r. word_ok buf (fst r)) rs'"
proof (induction buf rs s rule: parseredirs.induct)
  case (1 buf rs s)
  obtain b u where p: "peek buf s [60, 62] = (b, u)" by fastforce
  obtain tok q0 e0 v where g: "gettoken buf u = (tok, q0, e0, v)" by (metis prod_cases4)
  obtain tok' q e w where g': "gettoken buf v = (tok', q, e, w)" by (metis prod_cases4)
  show ?case
  proof (cases b)
    case True
    then have t: "tok' = 97" "parseredirs buf (rs @ redir_of tok (q, e)) w = Inr (rs', t)"
      using "1.prems" p g g' by (auto simp: parseredirs.simps[of buf rs s] split: if_splits)
    have "list_all (\<lambda>r. word_ok buf (fst r)) (rs @ redir_of tok (q, e))"
      using "1.prems"(2) gettoken_word[of buf v q e w] g' t(1) by (auto simp: redir_of_def)
    then show ?thesis using "1.IH"[OF p[symmetric] True g[symmetric] refl refl g'[symmetric] refl refl _ t(2)] t(1) by auto
  next
    case False
    then show ?thesis using "1.prems" p by (auto simp: parseredirs.simps[of buf rs s])
  qed
qed

lemma parseargs_words:
  "parseargs buf args rs s = Inr (c, t) \<Longrightarrow> list_all (word_ok buf) args \<Longrightarrow> list_all (\<lambda>r. word_ok buf (fst r)) rs \<Longrightarrow> words_ok buf c"
proof (induction buf args rs s rule: parseargs.induct)
  case (1 buf args rs s)
  obtain b u where p: "peek buf s [124, 41, 38, 59] = (b, u)" by fastforce
  obtain tok q e v where g: "gettoken buf u = (tok, q, e, v)" by (metis prod_cases4)
  note IH = "1.IH"[OF p[symmetric] _ g[symmetric] refl refl]
  let ?c = "foldl redircmd (ExecC args) rs" and ?as = "args @ [(q, e)]"
  have c: "words_ok buf ?c" using "1.prems"(2,3) by (simp add: words_ok_redirs) (simp add: words_ok_def)
  show ?case
  proof (cases "b \<or> tok = 0")
    case True
    then show ?thesis using "1.prems"(1) p g c by (auto simp: parseargs.simps[of buf args rs s] split: if_splits)
  next
    case F: False
    then obtain x where x: "tok = 97" "\<not> MAXARGS \<le> length ?as" "parseredirs buf rs v = Inr x" "parseargs buf ?as (fst x) (snd x) = Inr (c, t)"
      using "1.prems"(1) p g by (auto simp: parseargs.simps[of buf args rs s] Let_def split: if_splits sum.splits)
    have "list_all (word_ok buf) ?as" using "1.prems"(2) gettoken_word[of buf u q e v] g x(1) by simp
    moreover have "list_all (\<lambda>r. word_ok buf (fst r)) (fst x)"
      using parseredirs_words[of buf rs v "fst x" "snd x"] x(3) "1.prems"(3) by simp
    ultimately show ?thesis using IH[OF _ _ _ refl _ x(3,4)] F x(1,2) by simp
  qed
qed

lemma parseback_words: "parseback buf c s = (c', t) \<Longrightarrow> words_ok buf c' = words_ok buf c"
proof (induction buf c s rule: parseback.induct)
  case (1 buf c s)
  obtain b u where p: "peek buf s [38] = (b, u)" by fastforce
  show ?case using "1.prems" "1.IH"[OF p[symmetric]] p
    by (cases b) (auto simp: parseback.simps[of buf c s] words_ok_def)
qed

lemma parse_words:
  "parseline n buf s = Inr (c, t) \<Longrightarrow> words_ok buf c"
  "parsepipe n buf s = Inr (c, t) \<Longrightarrow> words_ok buf c"
  "parseexec n buf s = Inr (c, t) \<Longrightarrow> words_ok buf c"
proof (induction n arbitrary: s c t)
  case (Suc n)
  { case 1
    then show ?case using Suc.IH(1,2) parseback_words
      by (fastforce split: sum.splits prod.splits if_splits simp: words_ok_def) }
  { case 2
    then show ?case using Suc.IH(2,3) by (fastforce split: sum.splits prod.splits if_splits simp: words_ok_def) }
  { case 3
    then show ?case using Suc.IH(1) parseredirs_words[of buf "[]"] parseargs_words[of buf "[]"]
      by (fastforce split: sum.splits prod.splits if_splits simp: words_ok_redirs) }
qed simp_all

lemma nulterminate_length [simp]: "length (nulterminate c buf) = length buf"
proof (induction c arbitrary: buf)
  case (ExecC args) show ?case by (induction args arbitrary: buf) auto
qed auto

lemma nulterminate_nth: "i < length buf \<Longrightarrow> nulterminate c buf ! i = (if i \<in> snd ` set (words_of c) then 0 else buf ! i)"
proof (induction c arbitrary: buf)
  case (ExecC args)
  then show ?case by (induction args arbitrary: buf) (auto simp: nth_list_update)
next
  case (RedirC c w mode fd)
  then show ?case using RedirC.IH[of buf] by (cases "i = snd w") simp_all
qed auto

lemma word_str_span:
  assumes c: "words_ok buf c" and w: "w \<in> set (words_of c)" and z: "0 \<notin> set buf"
  shows "word_str (nulterminate c buf) w = span_of buf w"
proof -
  let ?b = "nulterminate c buf"
  obtain q e where qe: "w = (q, e)" by fastforce
  have ok: "q < e" "e \<le> length buf" "\<And>i. q \<le> i \<Longrightarrow> i < e \<Longrightarrow> word_char (buf ! i)"
  proof -
    have k: "word_ok buf (q, e)" using c w qe by (auto simp: words_ok_def list_all_iff)
    then show "q < e" "e \<le> length buf" by (auto simp: word_ok_def)
    fix i assume i: "q \<le> i" "i < e"
    have "span_of buf (q, e) ! (i - q) = buf ! i" "i - q < length (span_of buf (q, e))"
      using i \<open>e \<le> length buf\<close> by (auto simp: span_of_def)
    then show "word_char (buf ! i)" using k by (metis list_all_length word_ok_def)
  qed
  have inside: "?b ! i = buf ! i" if "q \<le> i" "i < e" for i
  proof -
    have "i \<notin> snd ` set (words_of c)"
      using c ok(3)[OF that] that ok(2) by (auto simp: words_ok_def list_all_iff word_ok_def)
    then show ?thesis using that ok by (simp add: nulterminate_nth)
  qed
  have "span_of buf w = take (e - q) (drop q ?b)"
    using ok by (auto simp: qe span_of_def inside intro!: nth_equalityI)
  moreover have "takeWhile (\<lambda>c. c \<noteq> 0) (drop q ?b) = take (e - q) (drop q ?b)"
  proof (rule takeWhile_eq_take_P_nth)
    fix i assume "i < e - q" "i < length (drop q ?b)"
    then have "?b ! (q + i) = buf ! (q + i)" "q + i < length buf" using ok by (auto intro: inside)
    then show "drop q ?b ! i \<noteq> 0" using z ok(2) by (metis add_leD1 less_imp_le nth_drop nth_mem nulterminate_length)
  next
    assume "e - q < length (drop q ?b)"
    then show "\<not> drop q ?b ! (e - q) \<noteq> 0"
      using w qe ok by (simp add: nulterminate_nth image_iff) force
  qed
  ultimately show ?thesis by (simp add: word_str_def qe)
qed

text \<open>C31: No word of a command is damaged when the words are made strings in place: after \<^verbatim>\<open>parsecmd\<close> every argument and every
  file name of the command, read from its start to the first NUL, is the word as it stood in the line.\<close>

theorem nulterminate_keeps_words:
  assumes "parsecmd buf = Inr (c, buf')" "0 \<notin> set buf" "w \<in> set (words_of c)"
  shows "word_str buf' w = span_of buf w \<and> span_of buf w \<noteq> [] \<and> list_all word_char (span_of buf w)"
proof -
  obtain t where p: "parseline (3 * length buf + 3) buf 0 = Inr (c, t)" "buf' = nulterminate c buf"
    using assms(1) by (auto simp: parsecmd_def split: sum.splits prod.splits if_splits)
  have c: "words_ok buf c" by (rule parse_words(1)[OF p(1)])
  then have "word_ok buf w" using assms(3) by (auto simp: words_ok_def list_all_iff)
  then show ?thesis using word_str_span[OF c assms(3,2)] p(2) by (auto simp: word_ok_def span_of_def)
qed

theorem nulterminate_keeps_words_witness:
  "case parsecmd (lit ''cat<in|wc;(ls)>out&'') of Inr (c, buf') \<Rightarrow> word_str buf' (4, 6) = lit ''in'' | _ \<Rightarrow> False"
proof -
  let ?b = "lit ''cat<in|wc;(ls)>out&''"
  have "case parsecmd ?b of Inr (c, buf') \<Rightarrow> (4, 6) \<in> set (words_of c) | _ \<Rightarrow> False" by code_simp
  then obtain c buf' where p: "parsecmd ?b = Inr (c, buf')" "(4, 6) \<in> set (words_of c)"
    by (auto split: sum.splits prod.splits)
  have "word_str buf' (4, 6) = span_of ?b (4, 6)"
    using nulterminate_keeps_words[OF p(1) _ p(2)] by (simp add: lit_def)
  then show ?thesis using p by (simp add: lit_def span_of_def)
qed

section \<open>Printing and parsing\<close>

text \<open>A command with its words as strings, and how to write one down: every part in parentheses.\<close>

datatype scmd = SExec "uchar list list" | SRedir scmd "uchar list" bool | SPipe scmd scmd | SList scmd scmd | SBack scmd

primrec print_cmd :: "scmd \<Rightarrow> uchar list" where
  "print_cmd (SExec ws) = concat (map (\<lambda>w. w @ [32]) ws)"
| "print_cmd (SRedir c f out) = [40] @ print_cmd c @ [41] @ [if out then 62 else 60] @ f"
| "print_cmd (SPipe l r) = [40] @ print_cmd l @ [41] @ [124] @ [40] @ print_cmd r @ [41]"
| "print_cmd (SList l r) = [40] @ print_cmd l @ [41] @ [59] @ [40] @ print_cmd r @ [41]"
| "print_cmd (SBack c) = [40] @ print_cmd c @ [41] @ [38]"

definition proper :: "uchar list \<Rightarrow> bool" where
  "proper w \<longleftrightarrow> w \<noteq> [] \<and> list_all word_char w \<and> 0 \<notin> set w"

primrec proper_cmd :: "scmd \<Rightarrow> bool" where
  "proper_cmd (SExec ws) \<longleftrightarrow> list_all proper ws \<and> length ws < MAXARGS"
| "proper_cmd (SRedir c f out) \<longleftrightarrow> proper_cmd c \<and> proper f"
| "proper_cmd (SPipe l r) \<longleftrightarrow> proper_cmd l \<and> proper_cmd r"
| "proper_cmd (SList l r) \<longleftrightarrow> proper_cmd l \<and> proper_cmd r"
| "proper_cmd (SBack c) \<longleftrightarrow> proper_cmd c"

text \<open>The command \<open>c\<close> stands for, with its words found by \<open>str\<close>.\<close>

primrec command_of :: "(word \<Rightarrow> uchar list) \<Rightarrow> cmd \<Rightarrow> scmd" where
  "command_of str (ExecC args) = SExec (map str args)"
| "command_of str (RedirC c w mode fd) = SRedir (command_of str c) (str w) (mode = 0x001 OR 0x200 \<and> fd = 1)"
| "command_of str (PipeC l r) = SPipe (command_of str l) (command_of str r)"
| "command_of str (ListC l r) = SList (command_of str l) (command_of str r)"
| "command_of str (BackC c) = SBack (command_of str c)"

lemma command_of_cong: "(\<And>w. w \<in> set (words_of c) \<Longrightarrow> f w = g w) \<Longrightarrow> command_of f c = command_of g c"
  by (induction c) auto

text \<open>The tokens of a line whose rest is known.\<close>

definition starts :: "uchar list \<Rightarrow> bool" where
  "starts xs \<longleftrightarrow> xs = [] \<or> \<not> whitespace (hd xs)"

lemma skip_starts [simp]: "drop s buf = xs \<Longrightarrow> starts xs \<Longrightarrow> skip buf s = s"
  by (cases xs) (auto simp: skip_def starts_def)

lemma at_drop: "drop s buf = xs \<Longrightarrow> at buf s = (case xs of [] \<Rightarrow> 0 | x # _ \<Rightarrow> x)"
  by (cases xs) (auto simp: at_def nth_via_drop dest: arg_cong[of _ _ length] split: if_splits)

lemma peek_starts: "drop s buf = xs \<Longrightarrow> starts xs \<Longrightarrow> peek buf s toks = (xs \<noteq> [] \<and> hd xs \<noteq> 0 \<and> hd xs \<in> set toks, s)"
  by (cases xs) (auto simp: peek_def at_drop)

lemma drop_add: "drop s buf = xs @ ys \<Longrightarrow> drop (s + length xs) buf = ys"
  by (metis add.commute append_eq_conv_conj drop_drop)

lemma gettoken_symbol:
  "drop s buf = c # xs \<Longrightarrow> starts xs \<Longrightarrow> c \<in> {124, 40, 41, 59, 38, 60} \<or> c = 62 \<and> (xs = [] \<or> hd xs \<noteq> 62) \<Longrightarrow> gettoken buf s = (c, s, s + 1, s + 1)"
proof -
  assume a: "drop s buf = c # xs" "starts xs" "c \<in> {124, 40, 41, 59, 38, 60} \<or> c = 62 \<and> (xs = [] \<or> hd xs \<noteq> 62)"
  have "starts (c # xs)" using a(3) by (auto simp: starts_def whitespace_def)
  moreover have d: "drop (Suc s) buf = xs" using drop_add[of s buf "[c]" xs] a(1) by simp
  moreover have "at buf (Suc s) = (case xs of [] \<Rightarrow> 0 | x # _ \<Rightarrow> x)" by (rule at_drop[OF d])
  ultimately show ?thesis
    using a at_drop[OF a(1)] skip_starts[OF a(1)] skip_starts[OF d]
    by (cases xs) (auto simp: gettoken_def Let_def)
qed

lemma after_symbol: "drop s buf = c # xs \<Longrightarrow> starts xs \<Longrightarrow> c \<in> {124, 40, 41, 59, 38, 60} \<Longrightarrow> after_token buf s = s + 1"
  by (simp add: after_token_def gettoken_symbol)

lemma gettoken_proper:
  assumes d: "drop s buf = w @ sp @ xs" and w: "proper w" and sp: "list_all whitespace sp" and xs: "starts xs" "sp = [] \<Longrightarrow> xs = [] \<or> \<not> word_char (hd xs)"
  shows "gettoken buf s = (97, s, s + length w, s + length w + length sp)"
proof -
  obtain c cs where c: "w = c # cs" using w by (cases w) (auto simp: proper_def)
  have wc: "word_char c" "c \<noteq> 0" using w c by (auto simp: proper_def)
  have sk: "skip buf s = s" by (rule skip_starts[OF d]) (use wc c in \<open>simp add: starts_def word_char_def\<close>)
  have at: "at buf s = c" using at_drop[OF d] c by simp
  have stop: "takeWhile word_char (sp @ xs) = []"
    using xs(2) sp by (cases sp; cases xs) (auto simp: word_char_def)
  have tw: "takeWhile word_char (drop s buf) = w"
    unfolding d using w stop by (subst takeWhile_append2) (auto simp: proper_def list_all_iff)
  have "drop (s + length w) buf = sp @ xs" by (rule drop_add[OF d])
  moreover have "takeWhile whitespace (sp @ xs) = sp"
    using sp xs(1) by (subst takeWhile_append2) (cases xs; auto simp: list_all_iff starts_def)+
  ultimately have "skip buf (s + length w) = s + length w + length sp" by (simp add: skip_def)
  then show ?thesis using wc by (auto simp: gettoken_def Let_def sk at tw word_char_def symbols_def)
qed

lemma no_redirs: "drop s buf = xs \<Longrightarrow> starts xs \<Longrightarrow> xs = [] \<or> hd xs \<notin> {60, 62} \<Longrightarrow> parseredirs buf rs s = Inr (rs, s)"
  by (subst parseredirs.simps) (auto simp: peek_starts)

lemma proper_starts: "proper w \<Longrightarrow> starts (w @ xs)"
  by (cases w) (auto simp: proper_def starts_def word_char_def)

lemma proper_hd: "proper w \<Longrightarrow> word_char (hd (w @ xs)) \<and> w @ xs \<noteq> [] \<and> hd (w @ xs) \<noteq> 0"
  by (cases w) (auto simp: proper_def)

lemma one_redir:
  assumes d: "drop s buf = [if out then 62 else 60] @ f @ xs" and f: "proper f" and xs: "xs = [] \<or> hd xs = 41"
  shows "parseredirs buf [] s = Inr ([((s + 1, s + 1 + length f), if out then 0x001 OR 0x200 else 0, if out then 1 else 0)], s + 1 + length f)"
proof -
  let ?c = "if out then 62 else 60 :: uchar"
  have st: "starts xs" using xs by (cases xs) (auto simp: starts_def whitespace_def)
  have d1: "drop s buf = ?c # f @ xs" using d by simp
  have p: "peek buf s [60, 62] = (True, s)"
    using peek_starts[OF d1] by (auto simp: starts_def whitespace_def)
  have "word_char (hd (f @ xs))" using proper_hd[OF f] by blast
  then have "hd (f @ xs) \<noteq> 62" by (auto simp: word_char_def symbols_def)
  then have g: "gettoken buf s = (?c, s, s + 1, s + 1)"
    by (intro gettoken_symbol[OF d1 proper_starts[OF f]]) auto
  have d2: "drop (s + 1) buf = f @ [] @ xs" using drop_add[of s buf "[?c]"] d by simp
  have g': "gettoken buf (s + 1) = (97, s + 1, s + 1 + length f, s + 1 + length f)"
    using gettoken_proper[OF d2 f _ st] xs by (auto simp: word_char_def symbols_def)
  have d3: "drop (s + 1 + length f) buf = xs" using drop_add[of "s + 1" buf f xs] d2 by simp
  have n: "parseredirs buf rs (s + 1 + length f) = Inr (rs, s + 1 + length f)" for rs
    by (rule no_redirs[OF d3 st]) (use xs in auto)
  show ?thesis
    by (subst parseredirs.simps) (use p g g' n in \<open>auto simp: redir_of_def\<close>)
qed

definition stops :: "uchar list \<Rightarrow> bool" where
  "stops xs \<longleftrightarrow> xs = [] \<or> hd xs = 41"

lemma stops_starts: "stops xs \<Longrightarrow> starts xs"
  by (auto simp: stops_def starts_def whitespace_def)

lemma words_parse:
  "drop s buf = concat (map (\<lambda>w. w @ [32]) ws) @ xs \<Longrightarrow> stops xs \<Longrightarrow> list_all proper ws \<Longrightarrow> length args + length ws < MAXARGS \<Longrightarrow>
   \<exists>ps. parseargs buf args [] s = Inr (ExecC (args @ ps), s + length (concat (map (\<lambda>w. w @ [32]) ws))) \<and> map (span_of buf) ps = ws"
proof (induction ws arbitrary: s args)
  case Nil
  then have d: "drop s buf = xs" by simp
  have p: "peek buf s [124, 41, 38, 59] = (xs \<noteq> [], s)"
    using Nil.prems(2) peek_starts[OF d stops_starts[OF Nil.prems(2)]] by (auto simp: stops_def)
  have "gettoken buf s = (0, s, s, s)" if "xs = []"
    using that d at_drop[OF d] skip_starts[OF d] by (auto simp: gettoken_def Let_def starts_def)
  then show ?case using p by (subst parseargs.simps) auto
next
  case (Cons w ws)
  let ?r = "concat (map (\<lambda>w. w @ [32]) ws) @ xs" and ?t = "s + length w + 1"
  have w: "proper w" using Cons.prems(3) by simp
  have st: "starts ?r"
    using Cons.prems(2,3) proper_starts stops_starts by (cases ws) auto
  have nr: "?r = [] \<or> hd ?r \<notin> {60, 62}"
  proof (cases ws)
    case Nil then show ?thesis using Cons.prems(2) by (auto simp: stops_def)
  next
    case (Cons v vs)
    then have "word_char (hd (v @ [32] @ concat (map (\<lambda>w. w @ [32]) vs) @ xs))"
      using proper_hd[of v] \<open>list_all proper (w # ws)\<close> by simp
    then show ?thesis using Cons by (auto simp: word_char_def symbols_def)
  qed
  have d: "drop s buf = w @ [32] @ ?r" using Cons.prems(1) by simp
  have p: "peek buf s [124, 41, 38, 59] = (False, s)"
    using peek_starts[OF d] proper_starts[OF w] proper_hd[OF w, of "[32] @ ?r"]
    by (auto simp: word_char_def symbols_def)
  have g: "gettoken buf s = (97, s, s + length w, ?t)"
    using gettoken_proper[OF d w _ st] by (simp add: whitespace_def)
  have dt: "drop ?t buf = ?r" using drop_add[of s buf "w @ [32]" ?r] d by simp
  have r: "parseredirs buf [] ?t = Inr ([], ?t)" by (rule no_redirs[OF dt st nr])
  obtain ps where ps: "parseargs buf (args @ [(s, s + length w)]) [] ?t = Inr (ExecC ((args @ [(s, s + length w)]) @ ps), ?t + length (concat (map (\<lambda>w. w @ [32]) ws)))"
    "map (span_of buf) ps = ws"
    using Cons.IH[OF dt Cons.prems(2), of "args @ [(s, s + length w)]"] Cons.prems(3,4) by auto
  have sl: "span_of buf (s, s + length w) = w" using d by (simp add: span_of_def)
  have "parseargs buf args [] s = Inr (ExecC (args @ (s, s + length w) # ps), s + length (concat (map (\<lambda>w. w @ [32]) (w # ws))))"
    using p g r ps(1) Cons.prems(4) by (subst parseargs.simps) (simp add: Let_def)
  then show ?case using ps(2) sl by (intro exI[of _ "(s, s + length w) # ps"]) simp
qed

text \<open>What parsing \<open>c\<close> at \<open>s\<close> has to give.\<close>

definition parsed :: "uchar list \<Rightarrow> scmd \<Rightarrow> nat \<Rightarrow> perr + cmd \<times> nat \<Rightarrow> bool" where
  "parsed buf c t r \<longleftrightarrow> (\<exists>c'. r = Inr (c', t) \<and> command_of (span_of buf) c' = c)"

definition inner :: "uchar list \<Rightarrow> scmd \<Rightarrow> bool" where
  "inner buf c \<longleftrightarrow> (\<forall>n s xs. drop s buf = print_cmd c @ xs \<longrightarrow> stops xs \<longrightarrow> 3 * (length buf - s) + 3 \<le> n \<longrightarrow>
     parsed buf c (s + length (print_cmd c)) (parseline n buf s))"

lemma print_starts: "proper_cmd c \<Longrightarrow> stops xs \<Longrightarrow> starts (print_cmd c @ xs)"
proof (cases c)
  case (SExec ws)
  then show "proper_cmd c \<Longrightarrow> stops xs \<Longrightarrow> starts (print_cmd c @ xs)" using proper_starts stops_starts by (cases ws) auto
qed (auto simp: starts_def whitespace_def)

text \<open>A command in parentheses, up to the redirections that may follow.\<close>

lemma block_parse:
  assumes d: "drop s buf = [40] @ print_cmd c @ [41] @ xs" and c: "inner buf c" "proper_cmd c" and xs: "starts xs" and n: "3 * (length buf - s) + 1 \<le> n"
  shows "\<exists>c'. command_of (span_of buf) c' = c \<and> parseexec n buf s =
    (case parseredirs buf [] (s + length (print_cmd c) + 2) of Inl e \<Rightarrow> Inl e | Inr (rs, s) \<Rightarrow> Inr (foldl redircmd c' rs, s))"
proof -
  obtain k where k: "n = Suc k" using n by (cases n) auto
  have st: "stops ([41] @ xs)" by (simp add: stops_def)
  have d0: "drop s buf = 40 # print_cmd c @ [41] @ xs" using d by simp
  have p: "peek buf s [40] = (True, s)" using peek_starts[OF d0] by (auto simp: starts_def whitespace_def)
  have a: "after_token buf s = s + 1" by (rule after_symbol[OF d0 print_starts[OF c(2) st]]) simp
  have d1: "drop (s + 1) buf = print_cmd c @ [41] @ xs" using drop_add[of s buf "[40]"] d by simp
  have l: "s < length buf" using d by (metis append_Cons drop_all list.distinct(1) not_le)
  have "3 * (length buf - (s + 1)) + 3 \<le> k" using n k l by simp
  from c(1)[unfolded inner_def, rule_format, OF d1 st this] obtain c' where c': "parseline k buf (s + 1) = Inr (c', s + 1 + length (print_cmd c))" "command_of (span_of buf) c' = c"
    unfolding parsed_def by blast
  let ?t = "s + 1 + length (print_cmd c)"
  have d2: "drop ?t buf = 41 # xs" using drop_add[OF d1] by simp
  have p2: "peek buf ?t [41] = (True, ?t)" using peek_starts[OF d2] by (auto simp: starts_def whitespace_def)
  have a2: "after_token buf ?t = ?t + 1" by (rule after_symbol[OF d2 xs]) simp
  show ?thesis using c' by (intro exI[of _ c']) (simp add: k p a p2[simplified] a2[simplified])
qed

lemma block_exec:
  assumes d: "drop s buf = [40] @ print_cmd c @ [41] @ xs" and c: "inner buf c" "proper_cmd c" and xs: "xs = [] \<or> hd xs \<in> {41, 59, 38, 124}"
    and n: "3 * (length buf - s) + 1 \<le> n"
  shows "parsed buf c (s + length (print_cmd c) + 2) (parseexec n buf s)"
proof -
  have st: "starts xs" using xs by (auto simp: starts_def whitespace_def)
  have dx: "drop (s + length (print_cmd c) + 2) buf = xs" using drop_add[of s buf "[40] @ print_cmd c @ [41]" xs] d by (simp add: ac_simps)
  have "parseredirs buf [] (s + length (print_cmd c) + 2) = Inr ([], s + length (print_cmd c) + 2)"
    by (rule no_redirs[OF dx st]) (use xs in auto)
  then show ?thesis using block_parse[OF d c st n] by (auto simp: parsed_def)
qed

lemma end_pipe:
  assumes "parseexec n buf s = Inr (c, t)" "drop t buf = xs" "xs = [] \<or> hd xs \<in> {41, 59, 38}"
  shows "parsepipe (Suc n) buf s = Inr (c, t)"
proof -
  have "starts xs" using assms(3) by (auto simp: starts_def whitespace_def)
  then show ?thesis using assms peek_starts[OF assms(2)] by auto
qed

lemma end_line:
  assumes "parsepipe n buf s = Inr (c, t)" "drop t buf = xs" "stops xs"
  shows "parseline (Suc n) buf s = Inr (c, t)"
proof -
  note p = peek_starts[OF assms(2) stops_starts[OF assms(3)]]
  have "parseback buf c t = (c, t)" using p assms(3) by (subst parseback.simps) (auto simp: stops_def)
  then show ?thesis using assms p by (auto simp: stops_def)
qed

lemma sub_fuel: "drop s buf = x # xs \<Longrightarrow> 3 * (length buf - (s + Suc k)) + 3 \<le> 3 * (length buf - s)"
proof -
  assume "drop s buf = x # xs"
  then have "s < length buf" by (metis drop_all list.distinct(1) not_le)
  then show ?thesis by simp
qed

lemma inner_pipe:
  assumes c: "inner buf l" "proper_cmd l" "inner buf r" "proper_cmd r"
  shows "inner buf (SPipe l r)"
  unfolding inner_def
proof (intro allI impI)
  fix n s xs
  assume d: "drop s buf = print_cmd (SPipe l r) @ xs" and xs: "stops xs" and n: "3 * (length buf - s) + 3 \<le> n"
  obtain k where k: "n = Suc (Suc (Suc (Suc k)))" "3 * (length buf - s) \<le> Suc k"
    using n sub_fuel[of s buf 40 _ 0] d that[of "n - 4"] by (cases "length buf - s") auto
  let ?t = "s + length (print_cmd l) + 2"
  have d1: "drop s buf = [40] @ print_cmd l @ [41] @ ([124, 40] @ print_cmd r @ [41] @ xs)" using d by simp
  have "parsed buf l ?t (parseexec (Suc (Suc k)) buf s)" by (rule block_exec[OF d1 c(1,2)]) (use k in auto)
  then obtain l' where l': "parseexec (Suc (Suc k)) buf s = Inr (l', ?t)" "command_of (span_of buf) l' = l" by (auto simp: parsed_def)
  have d2: "drop ?t buf = 124 # 40 # print_cmd r @ [41] @ xs" using drop_add[of s buf "[40] @ print_cmd l @ [41]"] d1 by (simp add: ac_simps)
  have p: "peek buf ?t [124] = (True, ?t)" using peek_starts[OF d2] by (auto simp: starts_def whitespace_def)
  have a: "after_token buf ?t = ?t + 1" by (rule after_symbol[OF d2]) (auto simp: starts_def whitespace_def)
  have d3: "drop (?t + 1) buf = [40] @ print_cmd r @ [41] @ xs" using drop_add[of ?t buf "[124]"] d2 by simp
  let ?u = "?t + 1 + length (print_cmd r) + 2"
  have "parsed buf r ?u (parseexec (Suc k) buf (?t + 1))"
    by (rule block_exec[OF d3 c(3,4)]) (use xs sub_fuel[of s buf 40 _ "length (print_cmd l) + 2"] d1 k(2) in \<open>auto simp: stops_def\<close>)
  then obtain r' where r': "parseexec (Suc k) buf (?t + 1) = Inr (r', ?u)" "command_of (span_of buf) r' = r" by (auto simp: parsed_def)
  have dx: "drop ?u buf = xs" using drop_add[of "?t + 1" buf "[40] @ print_cmd r @ [41]" xs] d3 by (simp add: ac_simps)
  have "parsepipe (Suc (Suc k)) buf (?t + 1) = Inr (r', ?u)" by (rule end_pipe[OF r'(1) dx]) (use xs in \<open>auto simp: stops_def\<close>)
  then have "parsepipe (Suc (Suc (Suc k))) buf s = Inr (PipeC l' r', ?u)" using l'(1) p a by simp
  from end_line[OF this dx xs] show "parsed buf (SPipe l r) (s + length (print_cmd (SPipe l r))) (parseline n buf s)"
    using l'(2) r'(2) k(1) by (auto simp: parsed_def ac_simps)
qed

text \<open>A command in parentheses as a whole pipeline, before a semicolon or an ampersand.\<close>

lemma block_pipe:
  assumes d: "drop s buf = [40] @ print_cmd c @ [41] @ xs" and c: "inner buf c" "proper_cmd c" and xs: "xs = [] \<or> hd xs \<in> {41, 59, 38}"
    and n: "3 * (length buf - s) + 2 \<le> n"
  shows "parsed buf c (s + length (print_cmd c) + 2) (parsepipe n buf s)"
proof -
  obtain k where k: "n = Suc k" using n by (cases n) auto
  have "parsed buf c (s + length (print_cmd c) + 2) (parseexec k buf s)"
    by (rule block_exec[OF d c]) (use xs n k in auto)
  then obtain c' where c': "parseexec k buf s = Inr (c', s + length (print_cmd c) + 2)" "command_of (span_of buf) c' = c" by (auto simp: parsed_def)
  have "drop (s + length (print_cmd c) + 2) buf = xs" using drop_add[of s buf "[40] @ print_cmd c @ [41]" xs] d by (simp add: ac_simps)
  from end_pipe[OF c'(1) this xs] show ?thesis using c'(2) k by (simp add: parsed_def)
qed

lemma inner_list:
  assumes c: "inner buf l" "proper_cmd l" "inner buf r" "proper_cmd r"
  shows "inner buf (SList l r)"
  unfolding inner_def
proof (intro allI impI)
  fix n s xs
  assume d: "drop s buf = print_cmd (SList l r) @ xs" and xs: "stops xs" and n: "3 * (length buf - s) + 3 \<le> n"
  obtain k where k: "n = Suc (Suc k)" "3 * (length buf - s) + 1 \<le> k" using n that[of "n - 2"] by (cases n) auto
  let ?t = "s + length (print_cmd l) + 2"
  have d1: "drop s buf = [40] @ print_cmd l @ [41] @ ([59, 40] @ print_cmd r @ [41] @ xs)" using d by simp
  have "parsed buf l ?t (parsepipe (Suc k) buf s)" by (rule block_pipe[OF d1 c(1,2)]) (use k in auto)
  then obtain l' where l': "parsepipe (Suc k) buf s = Inr (l', ?t)" "command_of (span_of buf) l' = l" by (auto simp: parsed_def)
  have d2: "drop ?t buf = 59 # 40 # print_cmd r @ [41] @ xs" using drop_add[of s buf "[40] @ print_cmd l @ [41]"] d1 by (simp add: ac_simps)
  have p: "peek buf ?t toks = (59 \<in> set toks, ?t)" for toks using peek_starts[OF d2] by (auto simp: starts_def whitespace_def)
  have b: "parseback buf l' ?t = (l', ?t)" using p[of "[38]"] by (subst parseback.simps) simp
  have a: "after_token buf ?t = ?t + 1" by (rule after_symbol[OF d2]) (auto simp: starts_def whitespace_def)
  have d3: "drop (?t + 1) buf = [40] @ print_cmd r @ [41] @ xs" using drop_add[of ?t buf "[59]"] d2 by simp
  let ?u = "?t + 1 + length (print_cmd r) + 2"
  have "parsed buf r ?u (parsepipe k buf (?t + 1))"
    by (rule block_pipe[OF d3 c(3,4)]) (use xs sub_fuel[of s buf 40 _ "length (print_cmd l) + 2"] d1 k(2) in \<open>auto simp: stops_def\<close>)
  then obtain r' where r': "parsepipe k buf (?t + 1) = Inr (r', ?u)" "command_of (span_of buf) r' = r" by (auto simp: parsed_def)
  have dx: "drop ?u buf = xs" using drop_add[of "?t + 1" buf "[40] @ print_cmd r @ [41]" xs] d3 by (simp add: ac_simps)
  show "parsed buf (SList l r) (s + length (print_cmd (SList l r))) (parseline n buf s)"
    using l' r'(2) k(1) b p[of "[59]"] a end_line[OF r'(1) dx xs] by (auto simp: parsed_def ac_simps)
qed

lemma inner_back:
  assumes c: "inner buf c" "proper_cmd c"
  shows "inner buf (SBack c)"
  unfolding inner_def
proof (intro allI impI)
  fix n s xs
  assume d: "drop s buf = print_cmd (SBack c) @ xs" and xs: "stops xs" and n: "3 * (length buf - s) + 3 \<le> n"
  obtain k where k: "n = Suc k" "3 * (length buf - s) + 2 \<le> k" using n by (cases n) auto
  let ?t = "s + length (print_cmd c) + 2"
  have d1: "drop s buf = [40] @ print_cmd c @ [41] @ ([38] @ xs)" using d by simp
  have "parsed buf c ?t (parsepipe k buf s)" by (rule block_pipe[OF d1 c]) (use k in auto)
  then obtain c' where c': "parsepipe k buf s = Inr (c', ?t)" "command_of (span_of buf) c' = c" by (auto simp: parsed_def)
  have d2: "drop ?t buf = 38 # xs" using drop_add[of s buf "[40] @ print_cmd c @ [41]"] d1 by (simp add: ac_simps)
  have p: "peek buf ?t [38] = (True, ?t)" using peek_starts[OF d2] by (auto simp: starts_def whitespace_def)
  have a: "after_token buf ?t = ?t + 1" by (rule after_symbol[OF d2 stops_starts[OF xs]]) simp
  have dx: "drop (?t + 1) buf = xs" using drop_add[of ?t buf "[38]"] d2 by simp
  note px = peek_starts[OF dx stops_starts[OF xs]]
  have pk: "peek buf (?t + 1) [59] = (False, ?t + 1)" using px[of "[59]"] xs by (auto simp: stops_def)
  have "parseback buf (BackC c') (?t + 1) = (BackC c', ?t + 1)" using px xs by (subst parseback.simps) (auto simp: stops_def)
  then have b: "parseback buf c' ?t = (BackC c', ?t + 1)" using p a by (subst parseback.simps) simp
  show "parsed buf (SBack c) (s + length (print_cmd (SBack c))) (parseline n buf s)"
    using c' k(1) b pk by (simp add: parsed_def)
qed

lemma inner_redir:
  assumes c: "inner buf c" "proper_cmd c" "proper f"
  shows "inner buf (SRedir c f out)"
  unfolding inner_def
proof (intro allI impI)
  fix n s xs
  assume d: "drop s buf = print_cmd (SRedir c f out) @ xs" and xs: "stops xs" and n: "3 * (length buf - s) + 3 \<le> n"
  obtain k where k: "n = Suc (Suc k)" "3 * (length buf - s) + 1 \<le> k" using n that[of "n - 2"] by (cases n) auto
  let ?t = "s + length (print_cmd c) + 2" and ?g = "[if out then 62 else 60 :: uchar]" and ?m = "if out then 0x001 OR 0x200 else 0 :: uint"
  have d1: "drop s buf = [40] @ print_cmd c @ [41] @ (?g @ f @ xs)" using d by simp
  have d2: "drop ?t buf = ?g @ f @ xs" using drop_add[of s buf "[40] @ print_cmd c @ [41]"] d1 by (simp add: ac_simps)
  let ?w = "(?t + 1, ?t + 1 + length f)" and ?fd = "if out then 1 else 0 :: int"
  have r: "parseredirs buf [] ?t = Inr ([(?w, ?m, ?fd)], ?t + 1 + length f)"
    by (rule one_redir[OF d2 c(3)]) (use xs in \<open>simp add: stops_def\<close>)
  have "starts (?g @ f @ xs)" by (simp add: starts_def whitespace_def)
  from block_parse[OF d1 c(1,2) this k(2)] obtain c' where c': "command_of (span_of buf) c' = c"
    "parseexec k buf s = Inr (RedirC c' ?w ?m ?fd, ?t + 1 + length f)"
    using r by (auto simp: redircmd_def)
  have dx: "drop (?t + 1 + length f) buf = xs" using drop_add[of ?t buf "?g @ f" xs] d2 by (simp add: ac_simps)
  have "parsepipe (Suc k) buf s = Inr (RedirC c' ?w ?m ?fd, ?t + 1 + length f)"
    by (rule end_pipe[OF c'(2) dx]) (use xs in \<open>auto simp: stops_def\<close>)
  from end_line[OF this dx xs] have "parseline n buf s = Inr (RedirC c' ?w ?m ?fd, ?t + 1 + length f)" by (simp add: k(1))
  moreover have "drop (?t + 1) buf = f @ xs" using drop_add[of ?t buf ?g "f @ xs"] d2 by simp
  then have "span_of buf ?w = f" by (simp add: span_of_def)
  ultimately show "parsed buf (SRedir c f out) (s + length (print_cmd (SRedir c f out))) (parseline n buf s)"
    using c'(1) by (cases out) (simp_all add: parsed_def)
qed

lemma inner_exec:
  assumes "list_all proper ws" "length ws < MAXARGS"
  shows "inner buf (SExec ws)"
  unfolding inner_def
proof (intro allI impI)
  fix n s xs
  assume d: "drop s buf = print_cmd (SExec ws) @ xs" and xs: "stops xs" and n: "3 * (length buf - s) + 3 \<le> n"
  obtain k where k: "n = Suc (Suc (Suc k))" using n that[of "n - 3"] by auto
  let ?r = "print_cmd (SExec ws) @ xs" and ?t = "s + length (print_cmd (SExec ws))"
  have st: "starts ?r" by (rule print_starts) (use assms xs in simp_all)
  have h: "?r = [] \<or> hd ?r \<notin> {40, 60, 62}"
  proof (cases ws)
    case Nil then show ?thesis using xs by (auto simp: stops_def)
  next
    case (Cons v vs)
    then have "word_char (hd (v @ [32] @ concat (map (\<lambda>w. w @ [32]) vs) @ xs))" using proper_hd[of v] assms(1) by simp
    then show ?thesis using Cons by (auto simp: word_char_def symbols_def)
  qed
  have p: "peek buf s [40] = (False, s)" using peek_starts[OF d st] h by auto
  have r: "parseredirs buf [] s = Inr ([], s)" by (rule no_redirs[OF d st]) (use h in auto)
  obtain ps where ps: "parseargs buf [] [] s = Inr (ExecC ps, ?t)" "map (span_of buf) ps = ws"
    using words_parse[of s buf ws xs "[]"] d xs assms by auto
  have e: "parseexec (Suc k) buf s = Inr (ExecC ps, ?t)" using p r ps(1) by simp
  have dx: "drop ?t buf = xs" by (rule drop_add[OF d])
  have "parsepipe (Suc (Suc k)) buf s = Inr (ExecC ps, ?t)" by (rule end_pipe[OF e dx]) (use xs in \<open>auto simp: stops_def\<close>)
  from end_line[OF this dx xs] show "parsed buf (SExec ws) ?t (parseline n buf s)" using k ps(2) by (simp add: parsed_def)
qed

lemma inner_all: "proper_cmd c \<Longrightarrow> inner buf c"
  by (induction c) (auto intro: inner_exec inner_redir inner_pipe inner_list inner_back)

lemma print_no_nul: "proper_cmd c \<Longrightarrow> 0 \<notin> set (print_cmd c)"
  by (induction c) (auto simp: proper_def list_all_iff)



section \<open>Pipelines\<close>

text \<open>What a sequence of calls does to the table of open files: \<^verbatim>\<open>dup\<close> takes the lowest free descriptor.\<close>

definition lowest_free :: "(int \<Rightarrow> 'f option) \<Rightarrow> int" where
  "lowest_free ft = (case List.find (\<lambda>fd. ft (int fd) = None) [0..<NOFILE] of Some fd \<Rightarrow> int fd | None \<Rightarrow> -1)"

fun fd_step :: "(int \<Rightarrow> 'f option) \<Rightarrow> sysc \<Rightarrow> (int \<Rightarrow> 'f option)" where
  "fd_step ft (SysClose fd) = ft(fd := None)"
| "fd_step ft (SysDup fd) = (if ft fd \<noteq> None \<and> lowest_free ft \<ge> 0 then ft(lowest_free ft := ft fd) else ft)"
| "fd_step ft c = ft"

text \<open>A run with these answers to come; and the answer to \<^verbatim>\<open>pipe\<close>.\<close>

definition fresh :: "ans list \<Rightarrow> os" where
  "fresh as = \<lparr>answers = as, wret = (\<lambda>_. 1), calls = []\<rparr>"

definition pipe_ans :: "int \<Rightarrow> int \<Rightarrow> ans" where
  "pipe_ans p0 p1 = \<lparr>a_ret = 0, a_bytes = [], a_nums = [of_int p0, of_int p1]\<rparr>"

definition small_fd :: "int \<Rightarrow> bool" where
  "small_fd p \<longleftrightarrow> 3 \<le> p \<and> p < int NOFILE"

lemma small_sint: "small_fd p \<Longrightarrow> sint (word_of_int p :: uint) = p"
  by (simp add: small_fd_def int_word_sint)

lemma same_run: "P u \<Longrightarrow> \<exists>t. f u = f t \<and> P t"
  by auto

text \<open>C33: A pipeline \<^verbatim>\<open>a | b\<close> is plumbed: when the shell has its standard input and output open and the kernel gives it a pipe on two
  others, the process that goes on to run \<^verbatim>\<open>a\<close> has the write end of the pipe as its standard output and the one that
  runs \<^verbatim>\<open>b\<close> the read end as its standard input, neither keeps another descriptor of the pipe, all other descriptors are
  as in the shell, and the shell itself closes both ends, so that \<^verbatim>\<open>b\<close> sees the end of file when \<^verbatim>\<open>a\<close> exits.\<close>

theorem pipeline_plumbing:
  fixes ft :: "int \<Rightarrow> 'f option"
  assumes "small_fd p0" "small_fd p1" "p0 \<noteq> p1" "ft 0 \<noteq> None" "ft 1 \<noteq> None" "ft p0 = Some r" "ft p1 = Some w"
    "a_ret f = 0" "a_ret f1 > 0" "a_ret f2 > 0"
  shows "(\<exists>t. runcmd buf (PipeC a b) (fresh (pipe_ans p0 p1 # f # x1 # x2 # x3 # x4 # as)) = runcmd buf a t \<and>
      answers t = as \<and> foldl fd_step ft (calls t) = ft(1 := Some w, p0 := None, p1 := None)) \<and>
    (\<exists>t. runcmd buf (PipeC a b) (fresh (pipe_ans p0 p1 # f1 # f # x1 # x2 # x3 # x4 # as)) = runcmd buf b t \<and>
      answers t = as \<and> foldl fd_step ft (calls t) = ft(0 := Some r, p0 := None, p1 := None)) \<and>
    (\<exists>t. runcmd buf (PipeC a b) (fresh (pipe_ans p0 p1 # f1 # f2 # x1 # x2 # x3 # x4 # as)) = Inl (Exited, t) \<and>
      answers t = as \<and> foldl fd_step ft (calls t) = ft(p0 := None, p1 := None))"
proof -
  have p: "sint (word_of_int p0 :: uint) = p0" "sint (word_of_int p1 :: uint) = p1" using assms(1,2) by (auto simp: small_sint)
  have n: "p0 \<noteq> 0" "p0 \<noteq> 1" "p1 \<noteq> 0" "p1 \<noteq> 1" using assms(1,2) by (auto simp: small_fd_def)
  have up: "[0..<NOFILE] = 0 # 1 # [2..<NOFILE]" by (simp add: upt_rec)
  have l: "lowest_free (ft(1 := None)) = 1" "lowest_free (ft(0 := None)) = 0"
    using assms(4) by (auto simp: lowest_free_def up simp del: NOFILE_def)
  have e: "bindu (runcmd buf c) g = runcmd buf c" for c g
  proof
    fix s show "bindu (runcmd buf c) g s = runcmd buf c s"
      using runcmd_ends[of buf c] by (cases "runcmd buf c s") (auto simp: ends_def bindu_def, metis isl_def sum.distinct(1))
  qed
  show ?thesis
    using assms n
    by (simp add: fresh_def pipe_ans_def fork1_def p Let_def e uexit_def call_def)
       (intro conjI same_run; auto simp: l fun_upd_twist)
qed

theorem pipeline_plumbing_witness:
  "\<exists>t. runcmd (lit ''a b'') (PipeC (ExecC [(0, 1)]) (ExecC [(2, 3)]))
       (fresh [pipe_ans 3 4, \<lparr>a_ret = 0, a_bytes = [], a_nums = []\<rparr>, chunk [], chunk [], chunk [], chunk []])
     = runcmd (lit ''a b'') (ExecC [(0, 1)]) t \<and>
     foldl fd_step (\<lambda>fd. if fd = 4 then Some ''w'' else if fd = 3 then Some ''r'' else if 0 \<le> fd \<and> fd < 3 then Some ''tty'' else None) (calls t) 1 = Some ''w''"
proof -
  let ?f = "\<lparr>a_ret = 0, a_bytes = [], a_nums = []\<rparr>" and ?p = "\<lparr>a_ret = 1, a_bytes = [], a_nums = []\<rparr>"
    and ?t = "\<lambda>fd :: int. if fd = 4 then Some ''w'' else if fd = 3 then Some ''r'' else if 0 \<le> fd \<and> fd < 3 then Some ''tty'' else None"
  show ?thesis
    using pipeline_plumbing[of 3 4 ?t "''r''" "''w''" ?f ?p ?p "lit ''a b''" "ExecC [(0, 1)]" "ExecC [(2, 3)]" "chunk []" "chunk []" "chunk []" "chunk []" "[]", THEN conjunct1]
    by (auto simp: small_fd_def)
qed

end
