(* ===== verification/Mkfs.thy ===== *)
theory Mkfs
  imports Fs
begin

text \<open>
  \<^verbatim>\<open>mkfs.c\<close>, the program that builds the file system image, on a little-endian host.

  The image is a function from sector numbers to blocks.  \<open>mk_host\<close> says which sectors the host's file can be positioned at
  and transferred; a host call that fails and an assertion that does not hold end the program, which
  is \<open>Panic\<close> here.  \<^verbatim>\<open>struct dinode\<close> is the part of \<open>inode\<close> that is stored on disk.  \<open>iappend_ok\<close> says that \<^verbatim>\<open>iappend\<close>
  appends to the bytes of one file, as the addresses in its inode lead to them, and changes no other file; the main result is what
  the image holds when the program has run.
\<close>

section \<open>The image\<close>

definition NINODES :: nat where [simp]: "NINODES = 200"

definition nbitmap :: nat where [simp]: "nbitmap = FSSIZE div (BSIZE * 8) + 1"
definition ninodeblocks :: nat where [simp]: "ninodeblocks = NINODES div IPB + 1"
definition nlog :: nat where [simp]: "nlog = LOGSIZE"
definition nmeta :: nat where [simp]: "nmeta = 2 + nlog + ninodeblocks + nbitmap"

record mkfs =
  mk_img :: "uint \<Rightarrow> block"
  mk_host :: "uint \<Rightarrow> bool"
  freeinode :: uint
  freeblock :: uint

text \<open>Conversion to the byte order of the disk.\<close>

definition xshort :: "ushort \<Rightarrow> ushort" where
  "xshort x = join16 (ucast x) (ucast (drop_bit 8 x))"

definition xint :: "uint \<Rightarrow> uint" where
  "xint x = join32 (ucast x) (ucast (drop_bit 8 x)) (ucast (drop_bit 16 x)) (ucast (drop_bit 24 x))"

definition mk_sb :: superblock where
  "mk_sb = \<lparr>sb_size = xint (of_nat FSSIZE), sb_nblocks = xint (of_nat (FSSIZE - nmeta)), sb_ninodes = xint (of_nat NINODES),
     sb_nlog = xint (of_nat nlog), sb_logstart = xint 2, sb_inodestart = xint (of_nat (2 + nlog)),
     sb_bmapstart = xint (of_nat (2 + nlog + ninodeblocks))\<rparr>"

definition wsect :: "uint \<Rightarrow> block \<Rightarrow> mkfs \<Rightarrow> mkfs res" where
  "wsect sec buf s = (if mk_host s sec then Inr (s\<lparr>mk_img := (mk_img s)(sec := buf)\<rparr>) else Inl (Panic ''write''))"

definition rsect :: "uint \<Rightarrow> mkfs \<Rightarrow> block res" where
  "rsect sec s = (if mk_host s sec then Inr (mk_img s sec) else Inl (Panic ''read''))"

definition winode :: "uint \<Rightarrow> inode \<Rightarrow> mkfs \<Rightarrow> mkfs res" where
  "winode inum ip s =
     (let bn = IBLOCK inum mk_sb in
      bindr (rsect bn s) (\<lambda>buf. wsect bn (put_dinode ip (dinode_off inum) buf) s))"

definition rinode :: "uint \<Rightarrow> mkfs \<Rightarrow> inode res" where
  "rinode inum s = bindr (rsect (IBLOCK inum mk_sb) s) (\<lambda>buf. Inr (get_dinode buf (dinode_off inum) inode0))"

definition mk_ialloc :: "ushort \<Rightarrow> mkfs \<Rightarrow> (uint \<times> mkfs) res" where
  "mk_ialloc type s =
     (let inum = freeinode s; s = s\<lparr>freeinode := freeinode s + 1\<rparr> in
      bindr (winode inum (inode0\<lparr>i_type := xshort type, i_nlink := xshort 1, i_size := xint 0\<rparr>) s) (\<lambda>s. Inr (inum, s)))"

primrec mk_bits :: "nat \<Rightarrow> block \<Rightarrow> block" where
  "mk_bits 0 buf = buf"
| "mk_bits (Suc i) buf = (let buf = mk_bits i buf in buf(i div 8 := buf (i div 8) OR push_bit (i mod 8) 1))"

definition mk_balloc :: "uint \<Rightarrow> mkfs \<Rightarrow> mkfs res" where
  "mk_balloc used s =
     (if unat used < BSIZE * 8 then wsect (sb_bmapstart mk_sb) (mk_bits (unat used) (\<lambda>_. 0)) s else Inl (Panic ''assert''))"

section \<open>Appending to a file\<close>

text \<open>The block of the file that holds its block \<open>fbn\<close>, allocated when there is none yet.\<close>

definition iappend_block :: "uint \<Rightarrow> inode \<Rightarrow> mkfs \<Rightarrow> (uint \<times> inode \<times> mkfs) res" where
  "iappend_block fbn din s =
     (let i = unat fbn in
      if i < NDIRECT then
        let (din, s) = (if xint (i_addrs din i) = 0 then (din\<lparr>i_addrs := (i_addrs din)(i := xint (freeblock s))\<rparr>, s\<lparr>freeblock := freeblock s + 1\<rparr>)
                        else (din, s))
        in Inr (xint (i_addrs din i), din, s)
      else
        let (din, s) = (if xint (i_addrs din NDIRECT) = 0
                        then (din\<lparr>i_addrs := (i_addrs din)(NDIRECT := xint (freeblock s))\<rparr>, s\<lparr>freeblock := freeblock s + 1\<rparr>)
                        else (din, s));
            ind = xint (i_addrs din NDIRECT)
        in bindr (rsect ind s) (\<lambda>indirect.
             if get32 indirect (4 * (i - NDIRECT)) = 0 then
               let indirect = put32 indirect (4 * (i - NDIRECT)) (xint (freeblock s)); s = s\<lparr>freeblock := freeblock s + 1\<rparr>
               in bindr (wsect ind indirect s) (\<lambda>s. Inr (xint (get32 indirect (4 * (i - NDIRECT))), din, s))
             else Inr (xint (get32 indirect (4 * (i - NDIRECT))), din, s)))"

lemma step_pos:
  fixes off :: uint
  assumes "off div 512 < 140"
  shows "unat (off div 512 * 512 + 512 - off) = 512 - unat off mod 512" "unat (off - off div 512 * 512) = unat off mod 512" "unat off < 71680"
proof -
  have o: "unat off < 71680" using assms by (simp add: word_less_nat_alt unat_div)
  have d: "unat (off div 512 * 512) = unat off div 512 * 512"
    using o by (simp add: unat_word_ariths(2) unat_div)
  have "unat off div 512 * 512 \<le> unat off" by simp
  then have le: "off div 512 * 512 \<le> off" using d by (simp add: word_le_nat_alt)
  have m: "unat off - unat off div 512 * 512 = unat off mod 512" by (simp add: minus_div_mult_eq_mod)
  show *: "unat (off - off div 512 * 512) = unat off mod 512" using le d m by (simp add: unat_sub)
  have e: "off div 512 * 512 + 512 - off = 512 - (off - off div 512 * 512)" by (simp add: algebra_simps)
  have "off - off div 512 * 512 \<le> 512" using * by (simp add: word_le_nat_alt)
  from unat_sub[OF this] show "unat (off div 512 * 512 + 512 - off) = 512 - unat off mod 512" unfolding e * by simp
  show "unat off < 71680" by (rule o)
qed

function iappend_loop :: "inode \<Rightarrow> uint \<Rightarrow> uchar list \<Rightarrow> mkfs \<Rightarrow> (inode \<times> uint \<times> mkfs) res" where
  "iappend_loop din off p s =
     (if p = [] then Inr (din, off, s)
      else let fbn = off div 512 in
        if \<not> fbn < of_nat MAXFILE then Inl (Panic ''assert'')
        else bindr (iappend_block fbn din s) (\<lambda>(x, din, s).
          let n1 = min (length p) (unat ((fbn + 1) * 512 - off)) in
          bindr (rsect x s) (\<lambda>buf.
          bindr (wsect x (put_bytes buf (unat (off - fbn * 512)) (take n1 p)) s) (\<lambda>s.
          iappend_loop din (off + of_nat n1) (drop n1 p) s))))"
  by auto
termination
  by (relation "measure (\<lambda>(din, off, p, s). length p)") (auto simp: step_pos)

declare iappend_loop.simps [simp del]

definition iappend :: "uint \<Rightarrow> uchar list \<Rightarrow> mkfs \<Rightarrow> mkfs res" where
  "iappend inum p s =
     bindr (rinode inum s) (\<lambda>din.
     bindr (iappend_loop din (xint (i_size din)) p s) (\<lambda>(din, off, s).
     winode inum (din\<lparr>i_size := xint off\<rparr>) s))"

section \<open>The program\<close>

primrec mk_zero :: "nat \<Rightarrow> mkfs \<Rightarrow> mkfs res" where
  "mk_zero 0 s = Inr s"
| "mk_zero (Suc i) s = bindr (mk_zero i s) (wsect (of_nat i) (\<lambda>_. 0))"

definition sb_bytes :: "superblock \<Rightarrow> block" where
  "sb_bytes b = put32 (put32 (put32 (put32 (put32 (put32 (put32 (\<lambda>_. 0) 0 (sb_size b)) 4 (sb_nblocks b)) 8 (sb_ninodes b)) 12 (sb_nlog b))
     16 (sb_logstart b)) 20 (sb_inodestart b)) 24 (sb_bmapstart b)"

text \<open>A name in a zeroed entry: \<^verbatim>\<open>strcpy\<close> of the two short names leaves the same bytes there as \<^verbatim>\<open>strncpy\<close>.\<close>

definition mk_name :: "uchar list \<Rightarrow> nat \<Rightarrow> uchar" where
  "mk_name xs = strncpy (\<lambda>_. 0) (\<lambda>i. if i < length xs then xs ! i else 0) (int DIRSIZ)"

primrec iappend_chunks :: "uint \<Rightarrow> uchar list list \<Rightarrow> mkfs \<Rightarrow> mkfs res" where
  "iappend_chunks inum [] s = Inr s"
| "iappend_chunks inum (c # cs) s = bindr (iappend inum c s) (iappend_chunks inum cs)"

text \<open>A file of the host: its name, and the reads of its contents when it can be opened.\<close>

type_synonym hostfile = "uchar list \<times> uchar list list option"

primrec mk_files :: "uint \<Rightarrow> hostfile list \<Rightarrow> mkfs \<Rightarrow> mkfs res" where
  "mk_files rootino [] s = Inr s"
| "mk_files rootino (f # fs) s =
     (if 47 \<in> set (fst f) then Inl (Panic ''assert'')
      else case snd f of None \<Rightarrow> Inl (Panic ''open'') | Some cs \<Rightarrow>
        let name = (if fst f \<noteq> [] \<and> hd (fst f) = 95 then tl (fst f) else fst f) in
        bindr (mk_ialloc T_FILE s) (\<lambda>(inum, s).
        bindr (iappend rootino (dirent (xshort (ucast inum)) (mk_name name)) s) (\<lambda>s.
        bindr (iappend_chunks inum cs s) (mk_files rootino fs))))"

text \<open>The image is opened with \<^verbatim>\<open>O_TRUNC\<close>: nothing of an older one is left in it.\<close>

definition mk_main :: "hostfile list \<Rightarrow> mkfs \<Rightarrow> mkfs res" where
  "mk_main fs s =
     (let s = s\<lparr>mk_img := (\<lambda>_ _. 0), freeinode := 1, freeblock := of_nat nmeta\<rparr> in
      bindr (mk_zero FSSIZE s) (\<lambda>s.
      bindr (wsect 1 (sb_bytes mk_sb) s) (\<lambda>s.
      bindr (mk_ialloc T_DIR s) (\<lambda>(rootino, s).
      if rootino \<noteq> ROOTINO then Inl (Panic ''assert'')
      else
        bindr (iappend rootino (dirent (xshort (ucast rootino)) (mk_name [46])) s) (\<lambda>s.
        bindr (iappend rootino (dirent (xshort (ucast rootino)) (mk_name [46, 46])) s) (\<lambda>s.
        bindr (mk_files rootino fs s) (\<lambda>s.
        bindr (rinode rootino s) (\<lambda>din.
        let off = (xint (i_size din) div 512 + 1) * 512 in
        bindr (winode rootino (din\<lparr>i_size := xint off\<rparr>) s) (\<lambda>s.
        mk_balloc (freeblock s) s)))))))))"

section \<open>The blocks of a file\<close>

lemma xint_id [simp]: "xint x = x"
  by (simp add: xint_def)

lemma xshort_id [simp]: "xshort x = x"
  by (simp add: xshort_def)

lemma mk_sb_eq [simp]: "mk_sb = sb0"
  by (simp add: mk_sb_def sb0_def)

text \<open>
  The address of block \<open>j\<close> of a file, the bytes of the file, and the blocks of a file that has \<open>n\<close> of them, with the
  indirect block.
\<close>

definition faddr :: "(uint \<Rightarrow> block) \<Rightarrow> inode \<Rightarrow> nat \<Rightarrow> uint" where
  "faddr m ip j = (if j < NDIRECT then i_addrs ip j else get32 (m (i_addrs ip NDIRECT)) (4 * (j - NDIRECT)))"

definition fbytes :: "(uint \<Rightarrow> block) \<Rightarrow> inode \<Rightarrow> nat \<Rightarrow> uchar list" where
  "fbytes m ip off = map (\<lambda>k. m (faddr m ip (k div BSIZE)) (k mod BSIZE)) [0..<off]"

definition nblk :: "nat \<Rightarrow> nat" where
  "nblk off = (off + (BSIZE - 1)) div BSIZE"

definition blocks :: "(uint \<Rightarrow> block) \<Rightarrow> inode \<Rightarrow> nat \<Rightarrow> uint list" where
  "blocks m ip n = map (faddr m ip) [0..<n] @ (if NDIRECT < n then [i_addrs ip NDIRECT] else [])"

text \<open>A file of \<open>n\<close> blocks, when blocks from \<open>f\<close> on are free.\<close>

definition file_ok :: "(uint \<Rightarrow> block) \<Rightarrow> uint \<Rightarrow> inode \<Rightarrow> nat \<Rightarrow> bool" where
  "file_ok m f ip n \<longleftrightarrow> n \<le> MAXFILE \<and> (\<forall>j<NDIRECT. i_addrs ip j = 0 \<longleftrightarrow> n \<le> j) \<and> (i_addrs ip NDIRECT = 0 \<longleftrightarrow> n \<le> NDIRECT) \<and>
     (NDIRECT < n \<longrightarrow> (\<forall>j<MAXFILE. faddr m ip j = 0 \<longleftrightarrow> n \<le> j)) \<and>
     distinct (blocks m ip n) \<and> (\<forall>b\<in>set (blocks m ip n). of_nat nmeta \<le> b \<and> b < f)"

definition clean :: "(uint \<Rightarrow> block) \<Rightarrow> uint \<Rightarrow> bool" where
  "clean m f \<longleftrightarrow> of_nat nmeta \<le> f \<and> (\<forall>b\<ge>f. m b = (\<lambda>_. 0))"

lemma get32_zero [simp]: "get32 (\<lambda>_. 0) k = 0"
  by (simp add: get32_def join32_def)

text \<open>What allocating block \<open>i\<close> of a file does: block \<open>x\<close> holds it, and only the indirect block, if there is one, has changed.\<close>

definition got_block :: "mkfs \<Rightarrow> inode \<Rightarrow> nat \<Rightarrow> nat \<Rightarrow> uint \<Rightarrow> inode \<Rightarrow> mkfs \<Rightarrow> bool" where
  "got_block s ip n i x ip' s' \<longleftrightarrow> file_ok (mk_img s') (freeblock s') ip' (Suc i) \<and> faddr (mk_img s') ip' i = x \<and>
     (\<forall>j<n. faddr (mk_img s') ip' j = faddr (mk_img s) ip j) \<and> clean (mk_img s') (freeblock s') \<and>
     (\<forall>b. (NDIRECT < Suc i \<longrightarrow> b \<noteq> i_addrs ip' NDIRECT) \<longrightarrow> mk_img s' b = mk_img s b) \<and> set (blocks (mk_img s) ip n) \<subseteq> set (blocks (mk_img s') ip' (Suc i)) \<and>
     set (blocks (mk_img s') ip' (Suc i)) \<subseteq> set (blocks (mk_img s) ip n) \<union> {freeblock s..} \<and> freeblock s \<le> freeblock s' \<and>
     unat (freeblock s') + length (blocks (mk_img s) ip n) = unat (freeblock s) + length (blocks (mk_img s') ip' (Suc i)) \<and>
     (\<exists>a. ip' = ip\<lparr>i_addrs := a\<rparr>) \<and> mk_host s' = mk_host s \<and> freeinode s' = freeinode s"

lemma next_block:
  fixes f :: uint
  assumes "unat f + 1 < 2 ^ 32"
  shows "unat (f + 1) = unat f + 1" "f < f + 1"
proof -
  show "unat (f + 1) = unat f + 1" using assms by (simp add: unat_word_ariths(1))
  then show "f < f + 1" by (simp add: word_less_nat_alt)
qed

lemma direct_block:
  assumes ok: "file_ok (mk_img s) (freeblock s) ip n" and c: "clean (mk_img s) (freeblock s)" and n: "n < NDIRECT" and f: "unat (freeblock s) + 1 < 2 ^ 32"
  defines "ip' \<equiv> ip\<lparr>i_addrs := (i_addrs ip)(n := freeblock s)\<rparr>" and "s' \<equiv> s\<lparr>freeblock := freeblock s + 1\<rparr>"
  shows "got_block s ip n n (freeblock s) ip' s'"
proof -
  let ?f = "freeblock s" and ?m = "mk_img s"
  note nf = next_block[OF f]
  have fa: "faddr ?m ip' j = (if j = n then ?f else faddr ?m ip j)" if "j < NDIRECT" for j using that n by (auto simp: faddr_def ip'_def)
  have b: "blocks ?m ip' (Suc n) = blocks ?m ip n @ [?f]"
    using n fa by (simp add: blocks_def)
  have nz: "?f \<noteq> 0" using c by (auto simp: clean_def)
  have bd: "\<And>b. b \<in> set (blocks ?m ip n) \<Longrightarrow> of_nat nmeta \<le> b \<and> b < ?f" using ok by (auto simp: file_ok_def)
  have "file_ok ?m (?f + 1) ip' (Suc n)"
    unfolding file_ok_def b
  proof (intro conjI)
    show "\<forall>j<NDIRECT. i_addrs ip' j = 0 \<longleftrightarrow> Suc n \<le> j" using ok n nz by (auto simp: file_ok_def ip'_def)
    show "i_addrs ip' NDIRECT = 0 \<longleftrightarrow> Suc n \<le> NDIRECT" using ok n by (auto simp: file_ok_def ip'_def)
    show "distinct (blocks ?m ip n @ [?f])" using ok bd[of ?f] by (auto simp: file_ok_def)
    show "\<forall>b\<in>set (blocks ?m ip n @ [?f]). of_nat nmeta \<le> b \<and> b < ?f + 1"
      using bd nf(2) c less_trans[OF _ nf(2)] by (auto simp: clean_def)
  qed (use n in simp_all)
  moreover have "clean ?m (?f + 1)" using c nf by (auto simp: clean_def)
  ultimately show ?thesis
    using n fa b nf by (auto simp: got_block_def ip'_def s'_def)
qed

lemma map_upt_Suc': "map g [0..<Suc n] = map g [0..<n] @ [g n]"
  by simp

lemma first_indirect_block:
  assumes ok: "file_ok (mk_img s) (freeblock s) ip NDIRECT" and c: "clean (mk_img s) (freeblock s)" and f: "unat (freeblock s) + 2 < 2 ^ 32"
  defines "ip' \<equiv> ip\<lparr>i_addrs := (i_addrs ip)(NDIRECT := freeblock s)\<rparr>"
    and "s' \<equiv> s\<lparr>mk_img := (mk_img s)(freeblock s := put32 (mk_img s (freeblock s)) 0 (freeblock s + 1)), freeblock := freeblock s + 2\<rparr>"
  shows "got_block s ip NDIRECT NDIRECT (freeblock s + 1) ip' s'"
proof -
  let ?f = "freeblock s" and ?m = "mk_img s" and ?m' = "mk_img s'"
  have f1: "unat ?f + 1 < 2 ^ 32" "unat (?f + 1) + 1 < 2 ^ 32" using f next_block(1)[of ?f] by simp_all
  note nf = next_block[OF f1(1)] next_block[OF f1(2)]
  have f2: "?f + 1 + 1 = ?f + 2" by simp
  have z: "?m ?f = (\<lambda>_. 0)" using c by (auto simp: clean_def)
  have nz: "?f \<noteq> 0" "?f + 1 \<noteq> 0" using c nf(1) by (auto simp: clean_def)
  have fa: "faddr ?m' ip' j = (if j < NDIRECT then faddr ?m ip j else if j = NDIRECT then ?f + 1 else 0)" for j
    by (auto simp: faddr_def ip'_def s'_def z)
  have b0: "blocks ?m ip NDIRECT = map (faddr ?m ip) [0..<NDIRECT]" by (simp add: blocks_def)
  have b: "blocks ?m' ip' (Suc NDIRECT) = blocks ?m ip NDIRECT @ [?f + 1, ?f]"
  proof -
    have "map (faddr ?m' ip') [0..<NDIRECT] = map (faddr ?m ip) [0..<NDIRECT]" by (rule map_cong) (auto simp: fa)
    then show ?thesis unfolding b0 blocks_def map_upt_Suc' using fa[of NDIRECT] by (simp add: ip'_def)
  qed
  have bd: "\<And>b. b \<in> set (blocks ?m ip NDIRECT) \<Longrightarrow> of_nat nmeta \<le> b \<and> b < ?f" using ok by (auto simp: file_ok_def)
  have lt: "?f < ?f + 2" "?f + 1 < ?f + 2" using nf f2 less_trans by auto
  have "file_ok ?m' (?f + 2) ip' (Suc NDIRECT)"
    unfolding file_ok_def b
  proof (intro conjI)
    show "\<forall>j<NDIRECT. i_addrs ip' j = 0 \<longleftrightarrow> Suc NDIRECT \<le> j" using ok by (auto simp: file_ok_def ip'_def)
    show "i_addrs ip' NDIRECT = 0 \<longleftrightarrow> Suc NDIRECT \<le> NDIRECT" using nz by (simp add: ip'_def)
    have "faddr ?m ip j \<noteq> 0" if "j < NDIRECT" for j using ok that by (auto simp: file_ok_def faddr_def)
    then show "NDIRECT < Suc NDIRECT \<longrightarrow> (\<forall>j<MAXFILE. faddr ?m' ip' j = 0 \<longleftrightarrow> Suc NDIRECT \<le> j)"
      unfolding fa using nz by auto
    show "distinct (blocks ?m ip NDIRECT @ [?f + 1, ?f])" using ok bd[of ?f] bd[of "?f + 1"] nf(2) by (auto simp: file_ok_def)
    have "of_nat nmeta \<le> ?f" using c by (simp add: clean_def)
    then show "\<forall>b\<in>set (blocks ?m ip NDIRECT @ [?f + 1, ?f]). of_nat nmeta \<le> b \<and> b < ?f + 2"
      using bd lt nf(2) less_trans[OF _ lt(1)] order_trans[OF _ less_imp_le[OF nf(2)]] by auto
  qed simp
  moreover have "clean ?m' (?f + 2)"
    unfolding clean_def
  proof (intro conjI allI impI)
    show "of_nat nmeta \<le> ?f + 2" using c lt(1) by (auto simp: clean_def)
    fix b assume "?f + 2 \<le> b"
    then show "?m' b = (\<lambda>_. 0)" using c lt(1) by (auto simp: clean_def s'_def)
  qed
  moreover have "unat (?f + 2) = unat ?f + 2" using nf f2 by simp
  ultimately show ?thesis
    using fa b lt nf by (auto simp: got_block_def s'_def ip'_def)
qed

lemma indirect_block:
  assumes ok: "file_ok (mk_img s) (freeblock s) ip n" and c: "clean (mk_img s) (freeblock s)" and n: "NDIRECT < n" "n < MAXFILE"
    and f: "unat (freeblock s) + 1 < 2 ^ 32"
  defines "ind \<equiv> i_addrs ip NDIRECT"
  defines "s' \<equiv> s\<lparr>mk_img := (mk_img s)(ind := put32 (mk_img s ind) (4 * (n - NDIRECT)) (freeblock s)), freeblock := freeblock s + 1\<rparr>"
  shows "got_block s ip n n (freeblock s) ip s'"
proof -
  let ?f = "freeblock s" and ?m = "mk_img s" and ?m' = "mk_img s'"
  note nf = next_block[OF f]
  have nz: "?f \<noteq> 0" using c by (auto simp: clean_def)
  have fa: "faddr ?m' ip j = (if j = n then ?f else faddr ?m ip j)" for j
  proof (cases "NDIRECT \<le> j \<and> j \<noteq> n")
    case True
    then have "4 * (n - NDIRECT) + 4 \<le> 4 * (j - NDIRECT) \<or> 4 * (j - NDIRECT) + 4 \<le> 4 * (n - NDIRECT)" using n by auto
    from get32_put32_other[OF this] show ?thesis using True by (simp add: faddr_def s'_def ind_def)
  next
    case False
    then show ?thesis using n by (cases "j = n") (simp_all add: faddr_def s'_def ind_def)
  qed
  have b0: "blocks ?m ip n = map (faddr ?m ip) [0..<n] @ [ind]" using n by (simp add: blocks_def ind_def)
  have b: "blocks ?m' ip (Suc n) = map (faddr ?m ip) [0..<n] @ [?f, ind]"
    using n fa by (simp add: blocks_def ind_def)
  have bd: "\<And>b. b \<in> set (blocks ?m ip n) \<Longrightarrow> of_nat nmeta \<le> b \<and> b < ?f" using ok by (auto simp: file_ok_def)
  have "file_ok ?m' (?f + 1) ip (Suc n)"
    unfolding file_ok_def b
  proof (intro conjI)
    show "\<forall>j<NDIRECT. i_addrs ip j = 0 \<longleftrightarrow> Suc n \<le> j" using ok n by (auto simp: file_ok_def)
    show "i_addrs ip NDIRECT = 0 \<longleftrightarrow> Suc n \<le> NDIRECT" using ok n by (auto simp: file_ok_def)
    show "NDIRECT < Suc n \<longrightarrow> (\<forall>j<MAXFILE. faddr ?m' ip j = 0 \<longleftrightarrow> Suc n \<le> j)"
      unfolding fa using ok n nz by (auto simp: file_ok_def)
    show "distinct (map (faddr ?m ip) [0..<n] @ [?f, ind])" using ok bd[of ?f] by (auto simp: file_ok_def b0)
    show "\<forall>b\<in>set (map (faddr ?m ip) [0..<n] @ [?f, ind]). of_nat nmeta \<le> b \<and> b < ?f + 1"
      using bd nf(2) c less_trans[OF _ nf(2)] unfolding b0 by (auto simp: clean_def)
  qed (use n in simp)
  moreover have "clean ?m' (?f + 1)"
  proof -
    have "ind < ?f" using bd[of ind] by (simp add: b0)
    then show ?thesis using c nf(2) by (auto simp: clean_def s'_def)
  qed
  moreover have "\<exists>a. ip = ip\<lparr>i_addrs := a\<rparr>" by (rule exI[of _ "i_addrs ip"]) simp
  ultimately show ?thesis
    using fa b b0 nf n(1) by (auto simp: got_block_def s'_def ind_def)
qed

lemma file_ok_entry:
  assumes "file_ok m f ip n" "NDIRECT < n" "NDIRECT \<le> j" "j < MAXFILE"
  shows "get32 (m (i_addrs ip NDIRECT)) (4 * (j - NDIRECT)) = 0 \<longleftrightarrow> n \<le> j"
proof -
  have "faddr m ip j = 0 \<longleftrightarrow> n \<le> j" using assms by (auto simp: file_ok_def)
  then show ?thesis using assms(3) by (simp add: faddr_def)
qed

text \<open>A file of \<open>n\<close> blocks takes \<open>ncost n\<close>, the indirect one included.\<close>

definition ncost :: "nat \<Rightarrow> nat" where
  "ncost n = (if NDIRECT < n then Suc n else n)"

lemma ncost_mono: "m \<le> n \<Longrightarrow> ncost m \<le> ncost n"
  by (simp add: ncost_def)

lemma blocks_length: "length (blocks m ip n) = ncost n"
  by (simp add: blocks_def ncost_def)

lemma iappend_block_ok:
  assumes ok: "file_ok (mk_img s) (freeblock s) ip n" and c: "clean (mk_img s) (freeblock s)" and h: "\<And>b. b < of_nat FSSIZE \<Longrightarrow> mk_host s b"
    and i: "i < MAXFILE" "n = i \<or> n = Suc i" and f: "unat (freeblock s) + ncost (Suc i) \<le> FSSIZE + ncost n"
  shows "\<exists>x ip' s'. iappend_block (of_nat i) ip s = Inr (x, ip', s') \<and> got_block s ip n i x ip' s'"
proof -
  have u: "unat (of_nat i :: uint) = i" using i(1) by (subst unat_of_nat) simp
  have hb: "mk_host s b" if "unat b < FSSIZE" for b using h[of b] that by (simp add: word_less_nat_alt)
  show ?thesis
  proof (cases "n = i")
    case False
    then have n: "n = Suc i" using i(2) by simp
    have "iappend_block (of_nat i) ip s = Inr (faddr (mk_img s) ip i, ip, s)"
    proof (cases "i < NDIRECT")
      case True
      then show ?thesis using ok n by (auto simp: iappend_block_def u Let_def file_ok_def faddr_def)
    next
      case False
      have a: "i_addrs ip NDIRECT \<noteq> 0" "i_addrs ip NDIRECT < freeblock s" using ok n False by (auto simp: file_ok_def blocks_def)
      have "mk_host s (i_addrs ip NDIRECT)" using a(2) f n by (intro hb) (simp add: word_less_nat_alt)
      then show ?thesis using a(1) n file_ok_entry[OF ok, of i] i(1) False
        by (simp add: iappend_block_def u Let_def faddr_def rsect_def)
    qed
    moreover have "\<exists>a. ip = ip\<lparr>i_addrs := a\<rparr>" by (rule exI[of _ "i_addrs ip"]) simp
    then have "got_block s ip n i (faddr (mk_img s) ip i) ip s" using ok c n by (auto simp: got_block_def)
    ultimately show ?thesis by blast
  next
    case True
    consider "n < NDIRECT" | "n = NDIRECT" | "NDIRECT < n" by linarith
    then show ?thesis
    proof cases
      case 1
      have f1: "unat (freeblock s) + 1 < 2 ^ 32" using f 1 True by (simp add: ncost_def)
      have "iappend_block (of_nat i) ip s = Inr (freeblock s, ip\<lparr>i_addrs := (i_addrs ip)(n := freeblock s)\<rparr>, s\<lparr>freeblock := freeblock s + 1\<rparr>)"
        using ok 1 True by (auto simp: iappend_block_def u Let_def file_ok_def)
      then show ?thesis using direct_block[OF ok c 1 f1] True by auto
    next
      case 2
      have f1: "unat (freeblock s) + 2 < 2 ^ 32" "mk_host s (freeblock s)" using f 2 True by (auto simp: ncost_def intro!: hb)
      have z: "mk_img s (freeblock s) = (\<lambda>_. 0)" using c by (auto simp: clean_def)
      have "iappend_block (of_nat i) ip s = Inr (freeblock s + 1, ip\<lparr>i_addrs := (i_addrs ip)(NDIRECT := freeblock s)\<rparr>,
        s\<lparr>mk_img := (mk_img s)(freeblock s := put32 (mk_img s (freeblock s)) 0 (freeblock s + 1)), freeblock := freeblock s + 2\<rparr>)"
        using ok 2 True f1(2) by (simp add: iappend_block_def u Let_def file_ok_def rsect_def wsect_def z)
      then show ?thesis using first_indirect_block[OF _ c f1(1)] ok 2 True by auto
    next
      case 3
      have n: "n < MAXFILE" using True i(1) by simp
      have f1: "unat (freeblock s) + 1 < 2 ^ 32" using f 3 True by (simp add: ncost_def)
      have "i_addrs ip NDIRECT < freeblock s" using ok 3 by (auto simp: file_ok_def blocks_def)
      then have "mk_host s (i_addrs ip NDIRECT)" using f 3 True by (intro hb) (simp add: word_less_nat_alt ncost_def)
      note hi = this
      have "iappend_block (of_nat i) ip s = Inr (freeblock s, ip,
        s\<lparr>mk_img := (mk_img s)(i_addrs ip NDIRECT := put32 (mk_img s (i_addrs ip NDIRECT)) (4 * (n - NDIRECT)) (freeblock s)), freeblock := freeblock s + 1\<rparr>)"
        using ok 3 True hi file_ok_entry[OF ok 3, of n] n by (simp add: iappend_block_def u Let_def file_ok_def rsect_def wsect_def)
      then show ?thesis using indirect_block[OF ok c 3 n f1] True by auto
    qed
  qed
qed

section \<open>The bytes of a file\<close>

text \<open>What appending the bytes \<open>p\<close> to a file of \<open>off\<close> bytes does.\<close>

definition appended :: "mkfs \<Rightarrow> inode \<Rightarrow> nat \<Rightarrow> uchar list \<Rightarrow> inode \<Rightarrow> mkfs \<Rightarrow> bool" where
  "appended s ip off p ip' s' \<longleftrightarrow>
     (let m = mk_img s; m' = mk_img s'; f = freeblock s; f' = freeblock s'; n = nblk off; n' = nblk (off + length p) in
      file_ok m' f' ip' n' \<and> clean m' f' \<and> fbytes m' ip' (off + length p) = fbytes m ip off @ p \<and> (\<exists>a. ip' = ip\<lparr>i_addrs := a\<rparr>) \<and>
      (\<forall>b<f. b \<notin> set (blocks m ip n) \<longrightarrow> m' b = m b) \<and> set (blocks m' ip' n') \<subseteq> set (blocks m ip n) \<union> {f..} \<and> f \<le> f' \<and>
      unat f' + length (blocks m ip n) = unat f + length (blocks m' ip' n') \<and> mk_host s' = mk_host s \<and> freeinode s' = freeinode s)"

lemma faddr_in_blocks: "j < n \<Longrightarrow> faddr m ip j \<in> set (blocks m ip n)"
  by (simp add: blocks_def)

lemma nblk_step:
  assumes "0 < k" "k \<le> 512 - off mod 512"
  shows "nblk (off + k) = Suc (off div 512)" "nblk off = off div 512 \<or> nblk off = Suc (off div 512)"
proof -
  obtain q r where o: "off = 512 * q + r" "r < 512" "off div 512 = q" "off mod 512 = r"
    by (metis mod_less_divisor mult_div_mod_eq zero_less_numeral)
  show "nblk (off + k) = Suc (off div 512)"
    unfolding nblk_def o(3) by (rule div_nat_eqI) (use o(1,2,4) assms in simp_all)
  show "nblk off = off div 512 \<or> nblk off = Suc (off div 512)"
    unfolding nblk_def o(3) using o(1,2) by (cases "r = 0") (auto intro!: div_nat_eqI)
qed

lemma fbytes_append:
  assumes "\<And>k. k < off \<Longrightarrow> m' (faddr m' ip' (k div 512)) (k mod 512) = m (faddr m ip (k div 512)) (k mod 512)"
    and "\<And>k. off \<le> k \<Longrightarrow> k < off + length xs \<Longrightarrow> m' (faddr m' ip' (k div 512)) (k mod 512) = xs ! (k - off)"
  shows "fbytes m' ip' (off + length xs) = fbytes m ip off @ xs"
  by (rule nth_equalityI) (auto simp: fbytes_def nth_append assms)

lemma write_appended:
  assumes g: "got_block s ip (nblk off) (off div 512) x ip' s'" and xs: "xs \<noteq> []" "length xs \<le> 512 - off mod 512"
    and ok: "file_ok (mk_img s) (freeblock s) ip (nblk off)"
  shows "appended s ip off xs ip' (s'\<lparr>mk_img := (mk_img s')(x := put_bytes (mk_img s' x) (off mod 512) xs)\<rparr>)"
proof -
  let ?i = "off div 512" and ?m = "mk_img s" and ?m1 = "mk_img s'" and ?m' = "(mk_img s')(x := put_bytes (mk_img s' x) (off mod 512) xs)"
  have n': "nblk (off + length xs) = Suc ?i" and n: "nblk off = ?i \<or> nblk off = Suc ?i" using nblk_step[of "length xs" off] xs by auto
  have ok': "file_ok ?m1 (freeblock s') ip' (Suc ?i)" and x: "faddr ?m1 ip' ?i = x" and cl: "clean ?m1 (freeblock s')"
    and same: "\<And>j. j < nblk off \<Longrightarrow> faddr ?m1 ip' j = faddr ?m ip j" and frame: "\<And>b. (NDIRECT < Suc ?i \<longrightarrow> b \<noteq> i_addrs ip' NDIRECT) \<Longrightarrow> ?m1 b = ?m b"
    and sub: "set (blocks ?m1 ip' (Suc ?i)) \<subseteq> set (blocks ?m ip (nblk off)) \<union> {freeblock s..}"
    using g by (auto simp: got_block_def)
  have xb: "x \<in> set (blocks ?m1 ip' (Suc ?i))" using x by (auto simp: blocks_def)
  then have xf: "of_nat nmeta \<le> x" "x < freeblock s'" using ok' by (auto simp: file_ok_def)
  have fi: "faddr ?m1 ip' j \<noteq> i_addrs ip' NDIRECT" if j: "j < Suc ?i" for j
  proof (cases "NDIRECT < Suc ?i")
    case True
    then have "distinct (map (faddr ?m1 ip') [0..<Suc ?i] @ [i_addrs ip' NDIRECT])" using ok' by (auto simp: file_ok_def blocks_def)
    then have "i_addrs ip' NDIRECT \<notin> faddr ?m1 ip' ` {..<Suc ?i}" by (simp add: atLeast0LessThan del: upt_Suc NDIRECT_def)
    then show ?thesis using j by force
  next
    case False
    then have "i_addrs ip' NDIRECT = 0" using ok' by (auto simp: file_ok_def)
    moreover have "faddr ?m1 ip' j \<in> set (blocks ?m1 ip' (Suc ?i))" by (rule faddr_in_blocks[OF j])
    then have "of_nat nmeta \<le> faddr ?m1 ip' j" using ok' by (auto simp: file_ok_def)
    ultimately show ?thesis by auto
  qed
  have xi: "x \<noteq> i_addrs ip' NDIRECT" using fi[of ?i] x by simp
  have fa: "faddr ?m' ip' j = faddr ?m1 ip' j" for j using xi by (simp add: faddr_def)
  have bl: "blocks ?m' ip' k = blocks ?m1 ip' k" for k using fa by (simp add: blocks_def)
  have inj: "faddr ?m1 ip' j = x \<Longrightarrow> j < Suc ?i \<Longrightarrow> j = ?i" for j
  proof -
    assume a: "faddr ?m1 ip' j = x" "j < Suc ?i"
    have "inj_on (faddr ?m1 ip') (set [0..<Suc ?i])" using ok' by (auto simp: file_ok_def blocks_def distinct_map split: if_splits)
    then show "j = ?i" using a x by (auto simp: inj_on_def)
  qed
  have old: "?m' (faddr ?m' ip' (k div 512)) (k mod 512) = ?m (faddr ?m ip (k div 512)) (k mod 512)" if k: "k < off" for k
  proof -
    let ?j = "k div 512" and ?a = "faddr ?m ip (k div 512)"
    have j: "?j < nblk off" "?j < Suc ?i" using k by (auto simp: nblk_def div_le_mono less_Suc_eq_le)
    have a: "faddr ?m' ip' ?j = ?a" using fa same[OF j(1)] by simp
    have m1: "?m1 ?a = ?m ?a" using frame fi[OF j(2)] same[OF j(1)] by simp
    show ?thesis
    proof (cases "?a = x")
      case True
      then have "?j = ?i" using inj[of ?j] same[OF j(1)] j(2) by simp
      then have "k mod 512 < off mod 512" using k by (metis div_mult_mod_eq nat_add_left_cancel_less)
      then show ?thesis using a m1 True by simp
    qed (use a m1 in simp)
  qed
  have new: "?m' (faddr ?m' ip' (k div 512)) (k mod 512) = xs ! (k - off)" if k: "off \<le> k" "k < off + length xs" for k
  proof -
    obtain q r where o: "off = 512 * q + r" "r < 512" "?i = q" "off mod 512 = r"
      by (metis mod_less_divisor mult_div_mod_eq zero_less_numeral)
    have kd: "k div 512 = q" by (rule div_nat_eqI) (use o k xs in simp_all)
    have km: "k mod 512 = r + (k - off)" using kd o(1) k div_mult_mod_eq[of k 512] by linarith
    have a: "faddr ?m' ip' (k div 512) = x" using fa x o(3) kd by simp
    have "k - off < length xs" using k by linarith
    then have "?m' x (k mod 512) = xs ! (k - off)" unfolding km o(4) by (simp add: put_bytes_def)
    then show ?thesis by (simp only: a)
  qed
  have "fbytes ?m' ip' (off + length xs) = fbytes ?m ip off @ xs"
    by (rule fbytes_append[OF old new])
  moreover have "file_ok ?m' (freeblock s') ip' (Suc ?i)" using ok' by (simp add: file_ok_def fa bl)
  moreover have "clean ?m' (freeblock s')" using cl xf(2) by (auto simp: clean_def)
  moreover have "?m' b = ?m b" if "b < freeblock s" "b \<notin> set (blocks ?m ip (nblk off))" for b
  proof -
    have nb: "b \<notin> set (blocks ?m1 ip' (Suc ?i))" using sub that by auto
    then have "b \<noteq> x" using xb by auto
    moreover have "NDIRECT < Suc ?i \<longrightarrow> b \<noteq> i_addrs ip' NDIRECT" using nb by (auto simp: blocks_def)
    ultimately show ?thesis using frame by simp
  qed
  ultimately show ?thesis using g by (simp add: appended_def n' Let_def bl got_block_def)
qed

lemma appended_refl: "file_ok (mk_img s) (freeblock s) ip (nblk off) \<Longrightarrow> clean (mk_img s) (freeblock s) \<Longrightarrow> appended s ip off [] ip s"
  by (auto simp: appended_def Let_def intro: exI[of _ "i_addrs ip"])

lemma appended_trans:
  assumes a: "appended s ip off p ip1 s1" and b: "appended s1 ip1 (off + length p) q ip2 s2"
  shows "appended s ip off (p @ q) ip2 s2"
proof -
  let ?B = "set (blocks (mk_img s) ip (nblk off))" and ?B1 = "set (blocks (mk_img s1) ip1 (nblk (off + length p)))"
  have s1: "?B1 \<subseteq> ?B \<union> {freeblock s..}" "freeblock s \<le> freeblock s1" "\<And>b. b < freeblock s \<Longrightarrow> b \<notin> ?B \<Longrightarrow> mk_img s1 b = mk_img s b"
    using a by (auto simp: appended_def Let_def)
  have s2: "\<And>b. b < freeblock s1 \<Longrightarrow> b \<notin> ?B1 \<Longrightarrow> mk_img s2 b = mk_img s1 b" using b by (auto simp: appended_def Let_def)
  have "mk_img s2 b = mk_img s b" if "b < freeblock s" "b \<notin> ?B" for b
    using s1(1) s1(3)[OF that] s2[of b] that less_le_trans[OF that(1) s1(2)] by fastforce
  moreover have "set (blocks (mk_img s2) ip2 (nblk (off + length (p @ q)))) \<subseteq> ?B \<union> {freeblock s..}"
    using b s1(1,2) by (auto simp: appended_def Let_def add.assoc)
  ultimately show ?thesis
    using a b s1(2) by (auto simp: appended_def Let_def add.assoc)
qed

lemma nblk_mono: "m \<le> n \<Longrightarrow> nblk m \<le> nblk n"
  by (simp add: nblk_def div_le_mono)

lemma iappend_loop_ok:
  assumes "file_ok (mk_img s) (freeblock s) ip (nblk (unat off))" "clean (mk_img s) (freeblock s)" "\<And>b. b < of_nat FSSIZE \<Longrightarrow> mk_host s b"
    "unat off + length p \<le> MAXFILE * BSIZE" "unat (freeblock s) + ncost (nblk (unat off + length p)) \<le> FSSIZE + ncost (nblk (unat off))"
  shows "\<exists>ip' off' s'. iappend_loop ip off p s = Inr (ip', off', s') \<and> unat off' = unat off + length p \<and> appended s ip (unat off) p ip' s'"
  using assms
proof (induction "length p" arbitrary: ip off p s rule: less_induct)
  case less
  show ?case
  proof (cases "p = []")
    case True
    then show ?thesis using less.prems appended_refl by (subst iappend_loop.simps) auto
  next
    case False
    let ?o = "unat off" and ?i = "unat off div 512" and ?k = "min (length p) (512 - unat off mod 512)"
    let ?xs = "take ?k p"
    have i: "?i < MAXFILE" using less.prems(4) False by (cases p) auto
    then have lt: "off div 512 < of_nat MAXFILE" by (simp add: word_less_nat_alt unat_div)
    then have lt': "off div 512 < 140" by simp
    note sp = step_pos[OF lt']
    have d: "off div 512 = of_nat ?i" using i by (simp add: word_unat_eq_iff unat_div unat_of_nat)
    have k: "0 < ?k" "?k \<le> 512 - ?o mod 512" using False by auto
    have xs: "?xs \<noteq> []" "length ?xs = ?k" using False k by auto
    have n: "nblk ?o = ?i \<or> nblk ?o = Suc ?i" using nblk_step(2)[OF k] .
    have kp: "?k \<le> length p" by simp
    have "Suc ?i \<le> nblk (?o + length p)" using nblk_step(1)[OF k] nblk_mono[of "?o + ?k" "?o + length p"] kp by linarith
    then have f: "unat (freeblock s) + ncost (Suc ?i) \<le> FSSIZE + ncost (nblk ?o)"
      using less.prems(5) ncost_mono by (meson add_le_mono1 add_left_mono order_trans)
    obtain x ip1 s1 where b: "iappend_block (of_nat ?i) ip s = Inr (x, ip1, s1)" "got_block s ip (nblk ?o) ?i x ip1 s1"
      using iappend_block_ok[OF less.prems(1,2,3) i n f] by blast
    let ?s2 = "s1\<lparr>mk_img := (mk_img s1)(x := put_bytes (mk_img s1 x) (?o mod 512) ?xs)\<rparr>"
    have h: "mk_host s1 b" if "b < of_nat FSSIZE" for b using b(2) less.prems(3)[OF that] by (auto simp: got_block_def)
    have a: "appended s ip ?o ?xs ip1 ?s2" by (rule write_appended[OF b(2) xs(1) _ less.prems(1)]) (use k in simp)
    have cnt: "unat (freeblock s1) + ncost (nblk ?o) = unat (freeblock s) + ncost (nblk (?o + length ?xs))" "mk_host s1 = mk_host s"
      using a by (auto simp: appended_def Let_def blocks_length)
    have hx: "mk_host s1 x"
    proof (rule h)
      have "x \<in> set (blocks (mk_img s1) ip1 (Suc ?i))" using b(2) faddr_in_blocks[of ?i "Suc ?i" "mk_img s1" ip1] by (simp add: got_block_def)
      then have "x < freeblock s1" using b(2) by (auto simp: got_block_def file_ok_def)
      moreover have "unat (freeblock s1) \<le> FSSIZE" using b(2) f by (simp add: got_block_def blocks_length)
      ultimately show "x < of_nat FSSIZE" by (simp add: word_less_nat_alt)
    qed
    have o2: "unat (off + of_nat ?k) = ?o + length ?xs" using sp(3) k xs(2) by (simp add: unat_word_ariths unat_of_nat)
    have "\<exists>ip' off' s'. iappend_loop ip1 (off + of_nat ?k) (drop ?k p) ?s2 = Inr (ip', off', s') \<and>
      unat off' = unat (off + of_nat ?k) + length (drop ?k p) \<and> appended ?s2 ip1 (unat (off + of_nat ?k)) (drop ?k p) ip' s'"
    proof (rule less.hyps)
      show "length (drop ?k p) < length p" using False k by simp
      show "file_ok (mk_img ?s2) (freeblock ?s2) ip1 (nblk (unat (off + of_nat ?k)))" "clean (mk_img ?s2) (freeblock ?s2)" 
        using a unfolding o2 by (simp_all add: appended_def Let_def)
      show "mk_host ?s2 b" if "b < of_nat FSSIZE" for b using h[OF that] by simp
      show "unat (off + of_nat ?k) + length (drop ?k p) \<le> MAXFILE * BSIZE" unfolding o2 xs(2) using less.prems(4) by simp
      show "unat (freeblock ?s2) + ncost (nblk (unat (off + of_nat ?k) + length (drop ?k p))) \<le> FSSIZE + ncost (nblk (unat (off + of_nat ?k)))"
        using cnt less.prems(5) unfolding o2 xs(2) by simp
    qed
    then obtain ip' off' s' where r: "iappend_loop ip1 (off + of_nat ?k) (drop ?k p) ?s2 = Inr (ip', off', s')"
      "unat off' = ?o + length ?xs + length (drop ?k p)" "appended ?s2 ip1 (?o + length ?xs) (drop ?k p) ip' s'" unfolding o2 by blast
    have "iappend_loop ip off p s = Inr (ip', off', s')"
      using False lt b(1) hx r(1) by (subst iappend_loop.simps) (simp add: Let_def d[symmetric] sp rsect_def wsect_def)
    moreover have "appended s ip ?o p ip' s'" using appended_trans[OF a r(3)] by simp
    moreover have "unat off' = ?o + length p" using r(2) xs(2) by simp
    ultimately show ?thesis by blast
  qed
qed

section \<open>Files in the image\<close>

definition dinode_of :: "(uint \<Rightarrow> block) \<Rightarrow> nat \<Rightarrow> inode" where
  "dinode_of m i = get_dinode (m (IBLOCK (of_nat i) sb0)) (dinode_off (of_nat i)) inode0"

definition fsize :: "mkfs \<Rightarrow> nat \<Rightarrow> nat" where
  "fsize s i = unat (i_size (dinode_of (mk_img s) i))"

definition file_bytes :: "mkfs \<Rightarrow> nat \<Rightarrow> uchar list" where
  "file_bytes s i = fbytes (mk_img s) (dinode_of (mk_img s) i) (fsize s i)"

definition fblocks :: "mkfs \<Rightarrow> nat \<Rightarrow> uint list" where
  "fblocks s i = blocks (mk_img s) (dinode_of (mk_img s) i) (nblk (fsize s i))"

text \<open>The image is well formed: all files are, no two share a block, and what has not been allocated is clean.\<close>

definition mk_inodes :: "mkfs \<Rightarrow> nat set" where
  "mk_inodes s = {1..<unat (freeinode s)}"

definition mk_ok :: "mkfs \<Rightarrow> bool" where
  "mk_ok s \<longleftrightarrow> clean (mk_img s) (freeblock s) \<and> unat (freeinode s) \<le> NINODES \<and>
     (\<forall>i\<in>mk_inodes s. file_ok (mk_img s) (freeblock s) (dinode_of (mk_img s) i) (nblk (fsize s i))) \<and>
     (\<forall>i\<in>mk_inodes s. \<forall>j\<in>mk_inodes s. i \<noteq> j \<longrightarrow> set (fblocks s i) \<inter> set (fblocks s j) = {})"

text \<open>All of this depends on the addresses of the inode and on the blocks of the file.\<close>

lemma file_frame:
  assumes b: "\<And>b. b \<in> set (blocks m ip n) \<Longrightarrow> m' b = m b"
  shows "\<And>j. j < n \<Longrightarrow> faddr m' ip j = faddr m ip j" "blocks m' ip n = blocks m ip n"
    "nblk off \<le> n \<Longrightarrow> fbytes m' ip off = fbytes m ip off" "file_ok m f ip n \<Longrightarrow> f \<le> f' \<Longrightarrow> file_ok m' f' ip n"
proof -
  have ind: "m' (i_addrs ip NDIRECT) = m (i_addrs ip NDIRECT)" if "NDIRECT < n" using b that by (auto simp: blocks_def)
  show fa: "faddr m' ip j = faddr m ip j" if "j < n" for j using ind that by (auto simp: faddr_def)
  show bl: "blocks m' ip n = blocks m ip n" using fa by (auto simp: blocks_def)
  show "fbytes m' ip off = fbytes m ip off" if "nblk off \<le> n"
  proof -
    have "m' (faddr m' ip (k div 512)) = m (faddr m ip (k div 512))" if "k < off" for k
    proof -
      have "k div 512 < n" using that \<open>nblk off \<le> n\<close> by (auto simp: nblk_def)
      then show ?thesis using fa b[OF faddr_in_blocks] by simp
    qed
    then show ?thesis by (auto simp: fbytes_def)
  qed
  have fb: "faddr m' ip j = faddr m ip j" if "NDIRECT < n" for j using ind[OF that] by (auto simp: faddr_def)
  show "file_ok m' f' ip n" if "file_ok m f ip n" "f \<le> f'"
    using that less_le_trans[OF _ that(2)] by (auto simp: file_ok_def bl fb)
qed

lemma addrs_cong:
  assumes "\<And>j. j \<le> NDIRECT \<Longrightarrow> i_addrs ip' j = i_addrs ip j"
  shows "faddr m ip' = faddr m ip" "blocks m ip' n = blocks m ip n" "fbytes m ip' off = fbytes m ip off" "file_ok m f ip' n = file_ok m f ip n"
proof -
  show fa: "faddr m ip' = faddr m ip" using assms by (auto simp: faddr_def fun_eq_iff)
  then show bl: "blocks m ip' n = blocks m ip n" "fbytes m ip' off = fbytes m ip off" using assms by (auto simp: blocks_def fbytes_def)
  show "file_ok m f ip' n = file_ok m f ip n" using assms by (auto simp: file_ok_def fa bl)
qed

lemma ino_facts:
  assumes "i < 208"
  shows "unat (of_nat i :: uint) = i" "IBLOCK (of_nat i) sb0 < of_nat nmeta" "32 \<le> IBLOCK (of_nat i) sb0" "IBLOCK (of_nat i) sb0 < 58"
proof -
  show u: "unat (of_nat i :: uint) = i" using assms by (subst unat_of_nat) simp
  have "unat (IBLOCK (of_nat i) sb0) = i div 8 + 32"
    using assms by (simp add: IBLOCK_def sb0_def unat_word_ariths u unat_div)
  then show "IBLOCK (of_nat i) sb0 < of_nat nmeta" "32 \<le> IBLOCK (of_nat i) sb0" "IBLOCK (of_nat i) sb0 < 58"
    using assms by (auto simp: word_less_nat_alt word_le_nat_alt)
qed

lemma ino_host: "i < 208 \<Longrightarrow> IBLOCK (of_nat i) sb0 < of_nat FSSIZE"
  using ino_facts(2)[of i] by (simp add: word_less_nat_alt)

lemma winode_ok:
  assumes "\<And>b. b < of_nat FSSIZE \<Longrightarrow> mk_host s b" "i < 208"
  shows "\<exists>m'. winode (of_nat i) ip s = Inr (s\<lparr>mk_img := m'\<rparr>) \<and> (\<forall>b. b < 32 \<or> 58 \<le> b \<longrightarrow> m' b = mk_img s b) \<and>
    (\<forall>j<208. j \<noteq> i \<longrightarrow> dinode_of m' j = dinode_of (mk_img s) j) \<and>
    dinode_of m' i = inode0\<lparr>i_type := i_type ip, i_major := i_major ip, i_minor := i_minor ip, i_nlink := i_nlink ip, i_size := i_size ip,
      i_addrs := (\<lambda>j. if j < NDIRECT + 1 then i_addrs ip j else 0)\<rparr>"
proof -
  let ?b = "IBLOCK (of_nat i) sb0" and ?o = "dinode_off (of_nat i)"
  let ?m' = "(mk_img s)(?b := put_dinode ip ?o (mk_img s ?b))"
  have "winode (of_nat i) ip s = Inr (s\<lparr>mk_img := ?m'\<rparr>)" using assms(1)[OF ino_host[OF assms(2)]] by (simp add: winode_def Let_def rsect_def wsect_def)
  moreover have "\<forall>b. b < 32 \<or> 58 \<le> b \<longrightarrow> ?m' b = mk_img s b" using ino_facts(3,4)[OF assms(2)] by auto
  moreover have "dinode_of ?m' j = dinode_of (mk_img s) j" if "j < 208" "j \<noteq> i" for j
  proof (cases "IBLOCK (of_nat j) sb0 = ?b")
    case True
    have "(of_nat i :: uint) \<noteq> of_nat j" using that ino_facts(1)[OF assms(2)] ino_facts(1)[OF that(1)] by metis
    from dinode_disjoint[OF True[symmetric] this] show ?thesis using True by (auto simp: dinode_of_def get_put_dinode_other)
  qed (simp add: dinode_of_def)
  moreover have "dinode_of ?m' i = inode0\<lparr>i_type := i_type ip, i_major := i_major ip, i_minor := i_minor ip, i_nlink := i_nlink ip, i_size := i_size ip,
      i_addrs := (\<lambda>j. if j < NDIRECT + 1 then i_addrs ip j else 0)\<rparr>"
    by (simp add: dinode_of_def get_put_dinode) (simp add: inode0_def fun_eq_iff)
  ultimately show ?thesis by blast
qed

text \<open>A change to one file of a well-formed image that leaves the others and the clean part alone.\<close>

lemma mk_ok_change:
  assumes ok: "mk_ok s" and i: "i < 208" and fi: "unat (freeinode s') \<le> NINODES" "mk_inodes s' \<subseteq> insert i (mk_inodes s)"
    and cl: "clean (mk_img s') (freeblock s')" and f: "freeblock s \<le> freeblock s'"
    and fo: "file_ok (mk_img s') (freeblock s') (dinode_of (mk_img s') i) (nblk (fsize s' i))"
    and sub: "\<And>j. j \<in> mk_inodes s \<Longrightarrow> j \<noteq> i \<Longrightarrow> set (fblocks s' i) \<inter> set (fblocks s j) = {}"
    and di: "\<And>j. j < 208 \<Longrightarrow> j \<noteq> i \<Longrightarrow> dinode_of (mk_img s') j = dinode_of (mk_img s) j"
    and fr: "\<And>j b. j \<in> mk_inodes s \<Longrightarrow> j \<noteq> i \<Longrightarrow> b \<in> set (fblocks s j) \<Longrightarrow> mk_img s' b = mk_img s b"
  shows "mk_ok s'" "\<And>j. j \<in> mk_inodes s \<Longrightarrow> j \<noteq> i \<Longrightarrow> file_bytes s' j = file_bytes s j \<and> fblocks s' j = fblocks s j \<and> fsize s' j = fsize s j"
proof -
  have r: "j < 208" if "j \<in> mk_inodes s" for j using ok that by (auto simp: mk_ok_def mk_inodes_def)
  have sz: "fsize s' j = fsize s j" if "j \<in> mk_inodes s" "j \<noteq> i" for j using di[OF r[OF that(1)] that(2)] by (simp add: fsize_def)
  have other: "file_bytes s' j = file_bytes s j \<and> fblocks s' j = fblocks s j \<and>
    file_ok (mk_img s') (freeblock s') (dinode_of (mk_img s') j) (nblk (fsize s' j))" if j: "j \<in> mk_inodes s" "j \<noteq> i" for j
  proof -
    note ff = file_frame[of "mk_img s" "dinode_of (mk_img s) j" "nblk (fsize s j)" "mk_img s'", OF fr[OF j, unfolded fblocks_def]]
    have "file_ok (mk_img s) (freeblock s) (dinode_of (mk_img s) j) (nblk (fsize s j))" using ok j(1) by (auto simp: mk_ok_def)
    from ff(4)[OF _ this f] have "file_ok (mk_img s') (freeblock s') (dinode_of (mk_img s) j) (nblk (fsize s j))" by simp
    then show ?thesis using ff(2,3) di[OF r[OF j(1)] j(2)] sz[OF j] by (simp add: file_bytes_def fblocks_def)
  qed
  then show "file_bytes s' j = file_bytes s j \<and> fblocks s' j = fblocks s j \<and> fsize s' j = fsize s j" if "j \<in> mk_inodes s" "j \<noteq> i" for j
    using that sz by blast
  have in': "j \<in> mk_inodes s" if "j \<in> mk_inodes s'" "j \<noteq> i" for j using fi(2) that by auto
  show "mk_ok s'"
    unfolding mk_ok_def
  proof (intro conjI ballI impI)
    show "file_ok (mk_img s') (freeblock s') (dinode_of (mk_img s') j) (nblk (fsize s' j))" if "j \<in> mk_inodes s'" for j
      using fo other in'[OF that] by (cases "j = i") auto
    show "set (fblocks s' j) \<inter> set (fblocks s' k) = {}" if "j \<in> mk_inodes s'" "k \<in> mk_inodes s'" "j \<noteq> k" for j k
    proof -
      have "set (fblocks s j) \<inter> set (fblocks s k) = {}" if "j \<noteq> i" "k \<noteq> i"
        using ok in'[OF \<open>j \<in> mk_inodes s'\<close> that(1)] in'[OF \<open>k \<in> mk_inodes s'\<close> that(2)] \<open>j \<noteq> k\<close> by (auto simp: mk_ok_def)
      then show ?thesis
        using other[OF in'[OF that(1)]] other[OF in'[OF that(2)]] sub[OF in'[OF that(1)]] sub[OF in'[OF that(2)]] that(3)
        by (cases "j = i"; cases "k = i") (auto simp: Int_commute)
    qed
  qed (use fi(1) cl in auto)
qed

lemma mk_okD:
  assumes "mk_ok s" "i \<in> mk_inodes s"
  shows "file_ok (mk_img s) (freeblock s) (dinode_of (mk_img s) i) (nblk (fsize s i))" "i < 208"
    "b \<in> set (fblocks s i) \<Longrightarrow> of_nat nmeta \<le> b" "b \<in> set (fblocks s i) \<Longrightarrow> b < freeblock s"
    "j \<in> mk_inodes s \<Longrightarrow> i \<noteq> j \<Longrightarrow> set (fblocks s i) \<inter> set (fblocks s j) = {}"
proof -
  show f: "file_ok (mk_img s) (freeblock s) (dinode_of (mk_img s) i) (nblk (fsize s i))" using assms by (simp add: mk_ok_def)
  show "i < 208" using assms by (auto simp: mk_ok_def mk_inodes_def)
  show "b \<in> set (fblocks s i) \<Longrightarrow> of_nat nmeta \<le> b" "b \<in> set (fblocks s i) \<Longrightarrow> b < freeblock s"
    using f by (auto simp: file_ok_def fblocks_def)
  show "j \<in> mk_inodes s \<Longrightarrow> i \<noteq> j \<Longrightarrow> set (fblocks s i) \<inter> set (fblocks s j) = {}" using assms by (simp add: mk_ok_def)
qed

text \<open>What a step of the program does to the image: \<open>mk_step s i s'\<close> leaves every file but \<open>i\<close>, the host and the other metadata alone.\<close>

definition ftype :: "mkfs \<Rightarrow> nat \<Rightarrow> ushort" where
  "ftype s i = i_type (dinode_of (mk_img s) i)"

definition mk_step :: "mkfs \<Rightarrow> nat \<Rightarrow> mkfs \<Rightarrow> bool" where
  "mk_step s i s' \<longleftrightarrow> mk_ok s' \<and> mk_host s' = mk_host s \<and>
     (\<forall>j\<in>mk_inodes s. j \<noteq> i \<longrightarrow> file_bytes s' j = file_bytes s j \<and> fblocks s' j = fblocks s j \<and> fsize s' j = fsize s j) \<and>
     (\<forall>j\<in>mk_inodes s. ftype s' j = ftype s j) \<and> (\<forall>b. b < 32 \<or> b = 58 \<longrightarrow> mk_img s' b = mk_img s b)"

text \<open>There is room for more bytes of a file, in the file and on the disk; the file has grown by those bytes, and takes the blocks for them.\<close>

definition room :: "mkfs \<Rightarrow> nat \<Rightarrow> nat \<Rightarrow> bool" where
  "room s i n \<longleftrightarrow> fsize s i + n \<le> MAXFILE * BSIZE \<and> unat (freeblock s) + ncost (nblk (fsize s i + n)) \<le> FSSIZE + ncost (nblk (fsize s i))"

definition grown :: "mkfs \<Rightarrow> nat \<Rightarrow> uchar list \<Rightarrow> mkfs \<Rightarrow> bool" where
  "grown s i p s' \<longleftrightarrow> mk_step s i s' \<and> file_bytes s' i = file_bytes s i @ p \<and> fsize s' i = fsize s i + length p \<and> freeinode s' = freeinode s \<and>
     unat (freeblock s') + ncost (nblk (fsize s i)) = unat (freeblock s) + ncost (nblk (fsize s i + length p))"

lemma iappend_ok:
  assumes ok: "mk_ok s" and i: "i \<in> mk_inodes s" and h: "\<And>b. b < of_nat FSSIZE \<Longrightarrow> mk_host s b" and r: "room s i (length p)"
  shows "\<exists>s'. iappend (of_nat i) p s = Inr s' \<and> grown s i p s'"
proof -
  have i208: "i < 208" using ok i by (auto simp: mk_ok_def mk_inodes_def)
  let ?ip = "dinode_of (mk_img s) i" and ?off = "i_size (dinode_of (mk_img s) i)"
  have fo: "file_ok (mk_img s) (freeblock s) ?ip (nblk (unat ?off))" and cl: "clean (mk_img s) (freeblock s)"
    using ok i by (auto simp: mk_ok_def fsize_def)
  obtain ip1 off' s1 where l: "iappend_loop ?ip ?off p s = Inr (ip1, off', s1)" "unat off' = unat ?off + length p" "appended s ?ip (unat ?off) p ip1 s1"
    using iappend_loop_ok[OF fo cl h, of p] r by (auto simp: fsize_def room_def)
  let ?m = "mk_img s" and ?m1 = "mk_img s1" and ?n' = "nblk (unat ?off + length p)"
  have a: "file_ok ?m1 (freeblock s1) ip1 ?n'" "clean ?m1 (freeblock s1)" "fbytes ?m1 ip1 (unat ?off + length p) = fbytes ?m ?ip (unat ?off) @ p"
    "\<And>b. b < freeblock s \<Longrightarrow> b \<notin> set (fblocks s i) \<Longrightarrow> ?m1 b = ?m b" "set (blocks ?m1 ip1 ?n') \<subseteq> set (fblocks s i) \<union> {freeblock s..}"
    "freeblock s \<le> freeblock s1" "unat (freeblock s1) + length (fblocks s i) = unat (freeblock s) + length (blocks ?m1 ip1 ?n')"
    "mk_host s1 = mk_host s" "freeinode s1 = freeinode s" "i_type ip1 = i_type ?ip"
    using l(3) by (auto simp: appended_def Let_def fblocks_def fsize_def)
  have h1: "\<And>b. b < of_nat FSSIZE \<Longrightarrow> mk_host s1 b" using h a(8) by simp
  obtain m' where w: "winode (of_nat i) (ip1\<lparr>i_size := off'\<rparr>) s1 = Inr (s1\<lparr>mk_img := m'\<rparr>)" "\<And>b. b < 32 \<or> 58 \<le> b \<Longrightarrow> m' b = ?m1 b"
    "\<And>j. j < 208 \<Longrightarrow> j \<noteq> i \<Longrightarrow> dinode_of m' j = dinode_of ?m1 j"
    "dinode_of m' i = inode0\<lparr>i_type := i_type ip1, i_major := i_major ip1, i_minor := i_minor ip1, i_nlink := i_nlink ip1, i_size := off',
      i_addrs := (\<lambda>j. if j < NDIRECT + 1 then i_addrs ip1 j else 0)\<rparr>"
    using winode_ok[OF h1 i208, of "ip1\<lparr>i_size := off'\<rparr>"] by (simp cong: if_cong) blast
  let ?s' = "s1\<lparr>mk_img := m'\<rparr>"
  have ie: "iappend (of_nat i) p s = Inr ?s'"
    using h[OF ino_host[OF i208]] l(1) w(1) by (simp add: iappend_def rinode_def rsect_def) (simp add: dinode_of_def)
  have big: "m' b = ?m1 b" if "of_nat nmeta \<le> b" for b
    by (rule w(2)) (use that in \<open>auto simp: word_le_nat_alt\<close>)
  have low: "?m1 b = ?m b" if "b < of_nat nmeta" for b
  proof (rule a(4))
    show "b < freeblock s" using that cl by (auto simp: clean_def)
    have "\<forall>b\<in>set (fblocks s i). of_nat nmeta \<le> b" using fo by (auto simp: file_ok_def fblocks_def fsize_def)
    then show "b \<notin> set (fblocks s i)" using that by auto
  qed
  have di1: "dinode_of ?m1 j = dinode_of ?m j" if "j < 208" for j using low[OF ino_facts(2)[OF that]] by (simp add: dinode_of_def)
  have ad: "i_addrs (dinode_of m' i) j = i_addrs ip1 j" if "j \<le> NDIRECT" for j using that by (simp add: w(4))
  note ac = addrs_cong[of "dinode_of m' i" ip1, OF ad]
  have fs': "fsize ?s' i = unat ?off + length p" using l(2) by (simp add: fsize_def w(4))
  note ff = file_frame[of ?m1 ip1 ?n' m']
  have bb: "m' b = ?m1 b" if "b \<in> set (blocks ?m1 ip1 ?n')" for b using a(1) that by (intro big) (auto simp: file_ok_def)
  have by': "file_bytes ?s' i = file_bytes s i @ p"
    using a(3) ff(3)[OF bb, of "unat ?off + length p"] fs' ac(3) by (simp add: file_bytes_def fsize_def)
  have bl': "fblocks ?s' i = blocks ?m1 ip1 ?n'" using ff(2)[OF bb] fs' ac(2) by (simp add: fblocks_def)
  have fo': "file_ok m' (freeblock s1) (dinode_of m' i) (nblk (fsize ?s' i))" using ff(4)[OF bb a(1) order_refl] fs' ac(4) by simp
  have cl': "clean m' (freeblock s1)" using a(2) big by (auto simp: clean_def)
  have dj: "dinode_of m' j = dinode_of ?m j" if "j < 208" "j \<noteq> i" for j using w(3)[OF that] di1[OF that(1)] by simp
  have okj: "of_nat nmeta \<le> b" "b < freeblock s" "b \<notin> set (fblocks s i)" if "j \<in> mk_inodes s" "j \<noteq> i" "b \<in> set (fblocks s j)" for j b
    using mk_okD[OF ok that(1)] that i by (auto simp: disjoint_iff)
  have fi: "unat (freeinode ?s') \<le> NINODES" "mk_inodes ?s' \<subseteq> insert i (mk_inodes s)" using ok a(9) by (auto simp: mk_ok_def mk_inodes_def)
  have dis: "set (fblocks ?s' i) \<inter> set (fblocks s j) = {}" if "j \<in> mk_inodes s" "j \<noteq> i" for j
    using a(5) okj(2,3)[OF that] bl' by (auto simp: disjoint_iff) (meson atLeast_iff subsetD Un_iff leD)
  have fr: "mk_img ?s' b = mk_img s b" if "j \<in> mk_inodes s" "j \<noteq> i" "b \<in> set (fblocks s j)" for j b
    using big[OF okj(1)[OF that]] a(4)[OF okj(2,3)[OF that]] by simp
  have ch: "mk_ok ?s'" "\<And>j. j \<in> mk_inodes s \<Longrightarrow> j \<noteq> i \<Longrightarrow> file_bytes ?s' j = file_bytes s j \<and> fblocks ?s' j = fblocks s j \<and> fsize ?s' j = fsize s j"
    by (rule mk_ok_change[OF ok i208 fi]; (assumption | (rule fr dis, assumption+) | (use cl' a(6) fo' dj in simp)))+
  have lo: "m' b = mk_img s b" if "b < 32 \<or> b = 58" for b
    using w(2)[of b] low[of b] that by (auto simp: word_less_nat_alt)
  have "ftype ?s' j = ftype s j" if "j \<in> mk_inodes s" for j
    using dj[OF mk_okD(2)[OF ok that]] w(4) a(10) by (cases "j = i") (simp_all add: ftype_def)
  then have "mk_step s i ?s'" using ch lo a(8) by (simp add: mk_step_def)
  then show ?thesis using ie by' fs' a(7,9) by (simp add: grown_def fsize_def[of s] fblocks_def blocks_length)
qed

lemma mk_ialloc_ok:
  assumes ok: "mk_ok s" and h: "\<And>b. b < of_nat FSSIZE \<Longrightarrow> mk_host s b" and i: "freeinode s = of_nat i" "0 < i" "i < NINODES"
  shows "\<exists>s'. mk_ialloc t s = Inr (of_nat i, s') \<and> mk_step s i s' \<and> file_bytes s' i = [] \<and> fsize s' i = 0 \<and> ftype s' i = t \<and>
    freeinode s' = of_nat (Suc i) \<and> freeblock s' = freeblock s"
proof -
  let ?s1 = "s\<lparr>freeinode := freeinode s + 1\<rparr>" and ?ip = "inode0\<lparr>i_type := t, i_nlink := 1, i_size := 0\<rparr>"
  have i208: "i < 208" using i(3) by simp
  obtain m' where w: "winode (of_nat i) ?ip ?s1 = Inr (?s1\<lparr>mk_img := m'\<rparr>)" "\<And>b. b < 32 \<or> 58 \<le> b \<Longrightarrow> m' b = mk_img s b"
    "\<And>j. j < 208 \<Longrightarrow> j \<noteq> i \<Longrightarrow> dinode_of m' j = dinode_of (mk_img s) j"
    "dinode_of m' i = inode0\<lparr>i_type := t, i_major := i_major inode0, i_minor := i_minor inode0, i_nlink := 1, i_size := 0, i_addrs := (\<lambda>j. if j < NDIRECT + 1 then i_addrs inode0 j else 0)\<rparr>"
    using winode_ok[of ?s1 i ?ip] h i208 by (simp cong: if_cong) blast
  let ?s' = "?s1\<lparr>mk_img := m'\<rparr>"
  have u: "unat (freeinode s) = i" "unat (freeinode ?s') = Suc i" using i ino_facts(1)[OF i208] ino_facts(1)[of "Suc i"] by (simp_all add: add.commute)
  have fs: "fsize ?s' i = 0" "nblk 0 = 0" using w(4) by (simp_all add: fsize_def nblk_def)
  have e: "file_bytes ?s' i = []" "fblocks ?s' i = []" using fs by (simp_all add: file_bytes_def fbytes_def fblocks_def blocks_def)
  have fo: "file_ok (mk_img ?s') (freeblock ?s') (dinode_of (mk_img ?s') i) (nblk (fsize ?s' i))"
    using fs w(4) by (simp add: file_ok_def blocks_def inode0_def)
  have cl: "clean (mk_img ?s') (freeblock ?s')" using ok w(2) by (auto simp: mk_ok_def clean_def word_le_nat_alt)
  have fi: "unat (freeinode ?s') \<le> NINODES" "mk_inodes ?s' \<subseteq> insert i (mk_inodes s)" using u i(3) by (auto simp: mk_inodes_def)
  have fr: "mk_img ?s' b = mk_img s b" if "j \<in> mk_inodes s" "j \<noteq> i" "b \<in> set (fblocks s j)" for j b
    using mk_okD(3)[OF ok that(1,3)] w(2)[of b] by (simp add: word_le_nat_alt)
  have ch: "mk_ok ?s'" "\<And>j. j \<in> mk_inodes s \<Longrightarrow> j \<noteq> i \<Longrightarrow> file_bytes ?s' j = file_bytes s j \<and> fblocks ?s' j = fblocks s j \<and> fsize ?s' j = fsize s j"
    by (rule mk_ok_change[OF ok i208 fi cl _ fo]; (assumption | (rule fr, assumption+) | (use w(3) e(2) in simp)))+
  have "ftype ?s' j = ftype s j" if "j \<in> mk_inodes s" for j using w(3)[OF mk_okD(2)[OF ok that]] that u(1) by (auto simp: ftype_def mk_inodes_def)
  then have "mk_step s i ?s'" using ch w(2) by (auto simp: mk_step_def)
  moreover have "mk_ialloc t s = Inr (of_nat i, ?s')" using w(1) i(1) by (simp add: mk_ialloc_def Let_def)
  ultimately show ?thesis using e(1) fs(1) w(4) i(1) by (simp add: ftype_def add.commute)
qed

lemma grown_trans:
  assumes a: "grown s i p s1" and b: "grown s1 i q s2"
  shows "grown s i (p @ q) s2"
  using assms by (auto simp: grown_def mk_step_def mk_inodes_def add.assoc)

lemma room_rest:
  assumes "room s i (m + n)" "grown s i p s'" "length p = m"
  shows "room s i m" "room s' i n"
proof -
  have "ncost (nblk (fsize s i + m)) \<le> ncost (nblk (fsize s i + (m + n)))" by (intro ncost_mono nblk_mono) simp
  then show "room s i m" "room s' i n" using assms by (auto simp: room_def grown_def add.assoc)
qed

lemma grown_nil: "mk_ok s \<Longrightarrow> grown s i [] s"
  by (simp add: grown_def mk_step_def)

lemma room_le:
  assumes "room s i n" "m \<le> n"
  shows "room s i m"
proof -
  have "ncost (nblk (fsize s i + m)) \<le> ncost (nblk (fsize s i + n))" using assms(2) by (intro ncost_mono nblk_mono) simp
  then show ?thesis using assms by (simp add: room_def)
qed

lemma iappend_chunks_ok:
  assumes "mk_ok s" "i \<in> mk_inodes s" "\<And>b. b < of_nat FSSIZE \<Longrightarrow> mk_host s b" "room s i (length (concat cs))"
  shows "\<exists>s'. iappend_chunks (of_nat i) cs s = Inr s' \<and> grown s i (concat cs) s'"
  using assms
proof (induction cs arbitrary: s)
  case Nil
  then show ?case using grown_nil by simp
next
  case (Cons c cs)
  have r: "room s i (length c + length (concat cs))" using Cons.prems(4) by simp
  obtain s1 where s1: "iappend (of_nat i) c s = Inr s1" "grown s i c s1"
    using iappend_ok[OF Cons.prems(1-3), of c] room_le[OF r] by auto
  have "\<exists>s'. iappend_chunks (of_nat i) cs s1 = Inr s' \<and> grown s1 i (concat cs) s'"
  proof (rule Cons.IH)
    show "mk_ok s1" "i \<in> mk_inodes s1" using s1(2) Cons.prems(2) by (auto simp: grown_def mk_step_def mk_inodes_def)
    show "mk_host s1 b" if "b < of_nat FSSIZE" for b using s1(2) Cons.prems(3)[OF that] by (simp add: grown_def mk_step_def)
    show "room s1 i (length (concat cs))" by (rule room_rest(2)[OF r s1(2) refl])
  qed
  then show ?case using s1 grown_trans by fastforce
qed

section \<open>The whole image\<close>

definition host_name :: "hostfile \<Rightarrow> uchar list" where
  "host_name f = (if fst f \<noteq> [] \<and> hd (fst f) = 95 then tl (fst f) else fst f)"

definition contents :: "hostfile \<Rightarrow> uchar list" where
  "contents f = (case snd f of Some cs \<Rightarrow> concat cs | None \<Rightarrow> [])"

definition host_ok :: "hostfile list \<Rightarrow> bool" where
  "host_ok fs \<longleftrightarrow> (\<forall>f\<in>set fs. 47 \<notin> set (fst f) \<and> snd f \<noteq> None \<and> length (contents f) \<le> MAXFILE * BSIZE)"

text \<open>The entries of the root directory for the files, the first of which has the inode \<open>n\<close>.\<close>

primrec entries :: "nat \<Rightarrow> hostfile list \<Rightarrow> uchar list" where
  "entries n [] = []"
| "entries n (f # fs) = dirent (of_nat n) (mk_name (host_name f)) @ entries (Suc n) fs"

definition total :: "hostfile list \<Rightarrow> nat" where
  "total fs = (\<Sum>f\<leftarrow>fs. ncost (nblk (length (contents f))))"

lemma dirent_length [simp]: "length (dirent a b) = 16"
  by (simp add: dirent_def)

text \<open>What the loop over the files leaves: their inodes, from \<open>n\<close> on, and their entries in the root directory.\<close>

definition filled :: "mkfs \<Rightarrow> nat \<Rightarrow> hostfile list \<Rightarrow> mkfs \<Rightarrow> bool" where
  "filled s n fs s' \<longleftrightarrow> mk_ok s' \<and> mk_host s' = mk_host s \<and> freeinode s' = of_nat (n + length fs) \<and>
     file_bytes s' 1 = file_bytes s 1 @ entries n fs \<and> fsize s' 1 = fsize s 1 + 16 * length fs \<and> ftype s' 1 = ftype s 1 \<and>
     (\<forall>k<length fs. file_bytes s' (n + k) = contents (fs ! k) \<and> ftype s' (n + k) = T_FILE) \<and>
     (\<forall>j. 1 < j \<and> j < n \<longrightarrow> file_bytes s' j = file_bytes s j \<and> ftype s' j = ftype s j) \<and>
     (\<forall>b. b < 32 \<or> b = 58 \<longrightarrow> mk_img s' b = mk_img s b) \<and>
     unat (freeblock s') + ncost (nblk (fsize s 1)) = unat (freeblock s) + ncost (nblk (fsize s 1 + 16 * length fs)) + total fs"

lemma mk_files_one:
  assumes ok: "mk_ok s" and n: "freeinode s = of_nat n" "1 < n" "n < NINODES" and h: "\<And>b. b < of_nat FSSIZE \<Longrightarrow> mk_host s b"
    and f: "host_ok [f]" and sz: "fsize s 1 + 16 \<le> MAXFILE * BSIZE"
    and sp: "unat (freeblock s) + ncost (nblk (fsize s 1 + 16)) + ncost (nblk (length (contents f))) \<le> FSSIZE + ncost (nblk (fsize s 1))"
  shows "\<exists>s'. mk_files 1 [f] s = Inr s' \<and> filled s n [f] s'"
proof -
  let ?e = "dirent (of_nat n) (mk_name (host_name f))"
  obtain cs where cs: "snd f = Some cs" "contents f = concat cs" "47 \<notin> set (fst f)" "length (concat cs) \<le> MAXFILE * BSIZE"
    using f by (auto simp: host_ok_def contents_def)
  have u: "unat (freeinode s) = n" "unat (of_nat (Suc n) :: uint) = Suc n" using n ino_facts(1)[of n] ino_facts(1)[of "Suc n"] by simp_all
  have one: "1 \<in> mk_inodes s" using u n by (simp add: mk_inodes_def)
  obtain s1 where s1: "mk_ialloc T_FILE s = Inr (of_nat n, s1)" "mk_step s n s1" "file_bytes s1 n = []" "fsize s1 n = 0" "ftype s1 n = T_FILE"
    "freeinode s1 = of_nat (Suc n)" "freeblock s1 = freeblock s"
    using mk_ialloc_ok[OF ok h n(1) _ n(3), of T_FILE] n(2) by auto
  have i1: "mk_inodes s1 = insert n (mk_inodes s)" using s1(6) u n by (auto simp: mk_inodes_def)
  have r1: "fsize s1 1 = fsize s 1" "file_bytes s1 1 = file_bytes s 1" "mk_ok s1" "mk_host s1 = mk_host s" using s1(2) one n by (auto simp: mk_step_def)
  have rm1: "room s1 1 (length ?e)" using sz sp s1(7) r1(1) by (simp add: room_def)
  obtain s2 where s2: "iappend 1 ?e s1 = Inr s2" "grown s1 1 ?e s2"
    using iappend_ok[of s1 1 ?e] r1 h one i1 rm1 by auto
  have r2: "fsize s2 n = 0" "file_bytes s2 n = []" "mk_ok s2" "mk_host s2 = mk_host s" "n \<in> mk_inodes s2" "mk_inodes s2 = mk_inodes s1"
    using s2(2) s1(3,4) i1 n r1 by (auto simp: grown_def mk_step_def mk_inodes_def)
  have z: "nblk 0 = 0" "ncost 0 = 0" by (simp_all add: nblk_def ncost_def)
  have c2: "unat (freeblock s2) + ncost (nblk (fsize s 1)) = unat (freeblock s) + ncost (nblk (fsize s 1 + 16))" using s2(2) s1(7) r1(1) by (simp add: grown_def)
  have rm2: "room s2 n (length (concat cs))" using cs(2,4) c2 sp r2(1) by (simp add: room_def z)
  obtain s3 where s3: "iappend_chunks (of_nat n) cs s2 = Inr s3" "grown s2 n (concat cs) s3"
    using iappend_chunks_ok[OF r2(3,5) _ rm2] r2(4) h by auto
  have nm: "(if fst f \<noteq> [] \<and> hd (fst f) = 95 then tl (fst f) else fst f) = host_name f" by (simp add: host_name_def)
  have uc: "ucast (of_nat n :: uint) = (of_nat n :: ushort)" using n(3) by (simp add: unsigned_of_nat take_bit_nat_eq_self)
  have "mk_files 1 [f] s = Inr s3" using cs s1(1) s2(1) s3(1) by (simp add: Let_def nm uc)
  moreover have "filled s n [f] s3"
    unfolding filled_def
  proof (intro conjI allI impI)
    show "mk_ok s3" "mk_host s3 = mk_host s" "freeinode s3 = of_nat (n + length [f])"
      using s3(2) s2(2) s1(6) r1(4) r2(4) by (auto simp: grown_def mk_step_def)
    have "file_bytes s3 1 = file_bytes s2 1 \<and> fsize s3 1 = fsize s2 1 \<and> ftype s3 1 = ftype s 1" using s3(2) s2(2) s1(2) one i1 r2(6) n by (auto simp: grown_def mk_step_def)
    then show "file_bytes s3 1 = file_bytes s 1 @ entries n [f]" "fsize s3 1 = fsize s 1 + 16 * length [f]" "ftype s3 1 = ftype s 1"
      using s2(2) r1(1,2) by (simp_all add: grown_def)
    have "ftype s3 n = T_FILE" using s3(2) s2(2) s1(5) i1 r2(5) by (auto simp: grown_def mk_step_def)
    then show "file_bytes s3 (n + k) = contents ([f] ! k)" "ftype s3 (n + k) = T_FILE" if "k < length [f]" for k
      using that s3(2) cs(2) r2(2) by (simp_all add: grown_def)
    have "file_bytes s3 j = file_bytes s j \<and> ftype s3 j = ftype s j" if "1 < j \<and> j < n" for j
    proof -
      have "j \<in> mk_inodes s" "j \<noteq> n" "j \<noteq> 1" using that u(1) by (auto simp: mk_inodes_def)
      then show ?thesis using s3(2) s2(2) s1(2) i1 r2(6) by (auto simp: grown_def mk_step_def)
    qed
    then show "file_bytes s3 j = file_bytes s j" "ftype s3 j = ftype s j" if "1 < j \<and> j < n" for j using that by blast+
    show "mk_img s3 b = mk_img s b" if "b < 32 \<or> b = 58" for b using s3(2) s2(2) s1(2) that unfolding grown_def mk_step_def by metis
    show "unat (freeblock s3) + ncost (nblk (fsize s 1)) = unat (freeblock s) + ncost (nblk (fsize s 1 + 16 * length [f])) + total [f]"
      using s3(2) c2 cs(2) r2(1) by (simp add: grown_def z total_def)
  qed
  ultimately show ?thesis by blast
qed

lemma filled_trans:
  assumes a: "filled s n [f] s1" and b: "filled s1 (Suc n) fs s2" and n: "1 < n"
  shows "filled s n (f # fs) s2"
  unfolding filled_def
proof (intro conjI allI impI)
  show "file_bytes s2 (n + k) = contents ((f # fs) ! k)" "ftype s2 (n + k) = T_FILE" if "k < length (f # fs)" for k
    using a b n that by (cases k; simp add: filled_def)+
  show "mk_img s2 b = mk_img s b" if "b < 32 \<or> b = 58" for b using a b that unfolding filled_def by metis
qed (use a b n in \<open>simp_all add: filled_def total_def algebra_simps\<close>)

lemma mk_files_ok:
  assumes "mk_ok s" "freeinode s = of_nat n" "1 < n" "n + length fs \<le> NINODES" "\<And>b. b < of_nat FSSIZE \<Longrightarrow> mk_host s b"
    "host_ok fs" "fsize s 1 + 16 * length fs \<le> MAXFILE * BSIZE"
    "unat (freeblock s) + ncost (nblk (fsize s 1 + 16 * length fs)) + total fs \<le> FSSIZE + ncost (nblk (fsize s 1))"
  shows "\<exists>s'. mk_files 1 fs s = Inr s' \<and> filled s n fs s'"
  using assms
proof (induction fs arbitrary: s n)
  case Nil
  then show ?case by (simp add: filled_def total_def)
next
  case (Cons f fs)
  have "ncost (nblk (fsize s 1 + 16)) \<le> ncost (nblk (fsize s 1 + 16 * length (f # fs)))" by (intro ncost_mono nblk_mono) simp
  then have sp: "unat (freeblock s) + ncost (nblk (fsize s 1 + 16)) + ncost (nblk (length (contents f))) \<le> FSSIZE + ncost (nblk (fsize s 1))"
    using Cons.prems(8) by (simp add: total_def)
  obtain s1 where s1: "mk_files 1 [f] s = Inr s1" "filled s n [f] s1"
    using mk_files_one[OF Cons.prems(1-3) _ Cons.prems(5) _ _ sp] Cons.prems(4,6,7) by (auto simp: host_ok_def)
  have "\<exists>s'. mk_files 1 fs s1 = Inr s' \<and> filled s1 (Suc n) fs s'"
  proof (rule Cons.IH)
    show "mk_ok s1" "freeinode s1 = of_nat (Suc n)" "1 < Suc n" using s1(2) Cons.prems(3) by (simp_all add: filled_def)
    show "Suc n + length fs \<le> NINODES" "host_ok fs" using Cons.prems(4,6) by (simp_all add: host_ok_def)
    show "mk_host s1 b" if "b < of_nat FSSIZE" for b using s1(2) Cons.prems(5)[OF that] by (simp add: filled_def)
    show "fsize s1 1 + 16 * length fs \<le> MAXFILE * BSIZE"
      "unat (freeblock s1) + ncost (nblk (fsize s1 1 + 16 * length fs)) + total fs \<le> FSSIZE + ncost (nblk (fsize s1 1))"
      using s1(2) Cons.prems(7,8) by (simp_all add: filled_def total_def algebra_simps)
  qed
  then obtain s2 where s2: "mk_files 1 fs s1 = Inr s2" "filled s1 (Suc n) fs s2" by blast
  have "mk_files 1 (f # fs) s = bindr (mk_files 1 [f] s) (mk_files 1 fs)"
    by (auto simp: Let_def bindr_def split: option.splits sum.splits prod.splits)
  then show ?case using s1 s2 filled_trans[OF s1(2) s2(2) Cons.prems(3)] by simp
qed

lemma mk_zero_ok:
  assumes "\<And>b. b < of_nat FSSIZE \<Longrightarrow> mk_host s b" "n \<le> FSSIZE" "mk_img s = (\<lambda>_ _. 0)"
  shows "mk_zero n s = Inr s"
  using assms(2)
proof (induction n)
  case (Suc n)
  have "mk_host s (of_nat n)" using Suc.prems by (intro assms(1)) (simp add: word_less_nat_alt unat_of_nat)
  then show ?case using Suc assms(3) by (simp add: wsect_def fun_upd_idem)
qed simp

lemma sb_bytes_roundtrip: "superblock_of (sb_bytes b) = b"
  by (cases b) (simp add: superblock_of_def sb_bytes_def)

lemma mk_bits_bit: "bit (mk_bits n (\<lambda>_. 0) (k div 8)) (k mod 8) \<longleftrightarrow> k < n"
proof (induction n)
  case (Suc n)
  have "k = n \<longleftrightarrow> k div 8 = n div 8 \<and> k mod 8 = n mod 8" by (metis div_mult_mod_eq)
  then show ?case using Suc by (auto simp: Let_def bit_or_iff bit_exp_iff possible_bit_word)
qed simp

lemma mk_root_ok:
  assumes h: "\<And>b. b < of_nat FSSIZE \<Longrightarrow> mk_host s b" and z: "mk_img s = (\<lambda>_ _. 0)(1 := d)" and f: "freeinode s = 1" "freeblock s = of_nat nmeta"
    and e: "length e1 = 16" "length e2 = 16"
  shows "\<exists>s0 s1 s2. mk_ialloc T_DIR s = Inr (1, s0) \<and> iappend 1 e1 s0 = Inr s1 \<and> iappend 1 e2 s1 = Inr s2 \<and> mk_ok s2 \<and> mk_host s2 = mk_host s \<and>
    file_bytes s2 1 = e1 @ e2 \<and> fsize s2 1 = 32 \<and> ftype s2 1 = T_DIR \<and> freeinode s2 = 2 \<and> freeblock s2 = of_nat nmeta + 1 \<and> mk_img s2 1 = d"
proof -
  have ok: "mk_ok s" using z f by (auto simp: mk_ok_def mk_inodes_def clean_def word_le_nat_alt)
  have n: "nblk 0 = 0" "nblk 16 = 1" "nblk 32 = 1" "ncost 0 = 0" "ncost (Suc 0) = 1" by (simp_all add: nblk_def ncost_def)
  obtain s0 where s0: "mk_ialloc T_DIR s = Inr (1, s0)" "mk_step s 1 s0" "file_bytes s0 1 = []" "fsize s0 1 = 0" "ftype s0 1 = T_DIR"
    "freeinode s0 = 2" "freeblock s0 = of_nat nmeta"
    using mk_ialloc_ok[OF ok h, of 1 T_DIR] f by auto
  have o: "mk_ok s0" "1 \<in> mk_inodes s0" "mk_host s0 = mk_host s" using s0(2,6) by (auto simp: mk_step_def mk_inodes_def)
  have "room s0 1 (length e1 + length e2)" "room s0 1 (length e1)" using s0(4,7) e by (simp_all add: room_def n)
  note r = this
  obtain s1 where s1: "iappend 1 e1 s0 = Inr s1" "grown s0 1 e1 s1" using iappend_ok[OF o(1,2) _ r(2)] h o(3) by auto
  have o1: "mk_ok s1" "1 \<in> mk_inodes s1" "mk_host s1 = mk_host s" using s1(2) o(2,3) by (auto simp: grown_def mk_step_def mk_inodes_def)
  obtain s2 where s2: "iappend 1 e2 s1 = Inr s2" "grown s1 1 e2 s2" using iappend_ok[OF o1(1,2) _ room_rest(2)[OF r(1) s1(2) refl]] h o1(3) by auto
  note g = grown_trans[OF s1(2) s2(2)]
  have "unat (freeblock s2) = nmeta + 1" using g s0(4,7) e by (simp add: grown_def n)
  then have fb: "freeblock s2 = of_nat nmeta + 1" by (simp add: word_unat_eq_iff)
  have "ftype s2 1 = T_DIR" "mk_ok s2" "mk_host s2 = mk_host s" "mk_img s2 1 = d"
    using g o s0(2,5) z by (auto simp: grown_def mk_step_def)
  then show ?thesis using s0 s1(1) s2(1) g e fb by (auto simp: grown_def)
qed

text \<open>The end of the program: the size of the root is rounded up and the bitmap is written.\<close>

definition root_bytes :: "mkfs \<Rightarrow> nat \<Rightarrow> uchar list" where
  "root_bytes s n = fbytes (mk_img s) (dinode_of (mk_img s) 1) n"

lemma mk_finish_ok:
  assumes ok: "mk_ok s" and one: "1 \<in> mk_inodes s" and h: "\<And>b. b < of_nat FSSIZE \<Longrightarrow> mk_host s b" and f: "unat (freeblock s) < BSIZE * 8"
    and sz: "fsize s 1 + 512 < 2 ^ 32"
  shows "\<exists>din s4 s'. rinode 1 s = Inr din \<and> unat (i_size din) = fsize s 1 \<and>
    winode 1 (din\<lparr>i_size := (i_size din div 512 + 1) * 512\<rparr>) s = Inr s4 \<and> freeblock s4 = freeblock s \<and> mk_balloc (freeblock s) s4 = Inr s' \<and>
    root_bytes s' (fsize s 1) = file_bytes s 1 \<and> fsize s' 1 = (fsize s 1 div 512 + 1) * 512 \<and>
    (\<forall>j\<in>mk_inodes s. ftype s' j = ftype s j \<and> (j \<noteq> 1 \<longrightarrow> file_bytes s' j = file_bytes s j)) \<and>
    mk_img s' 1 = mk_img s 1 \<and> mk_img s' 58 = mk_bits (unat (freeblock s)) (\<lambda>_. 0) \<and> freeblock s' = freeblock s"
proof -
  let ?m = "mk_img s" and ?ip = "dinode_of (mk_img s) 1"
  let ?z = "(i_size ?ip div 512 + 1) * 512"
  obtain m' where w: "winode (of_nat 1) (?ip\<lparr>i_size := ?z\<rparr>) s = Inr (s\<lparr>mk_img := m'\<rparr>)" "\<And>b. b < 32 \<or> 58 \<le> b \<Longrightarrow> m' b = ?m b"
    "\<And>j. j < 208 \<Longrightarrow> j \<noteq> 1 \<Longrightarrow> dinode_of m' j = dinode_of ?m j"
    "dinode_of m' 1 = inode0\<lparr>i_type := i_type ?ip, i_major := i_major ?ip, i_minor := i_minor ?ip, i_nlink := i_nlink ?ip, i_size := ?z,
      i_addrs := (\<lambda>j. if j < NDIRECT + 1 then i_addrs ?ip j else 0)\<rparr>"
    using winode_ok[OF h, of 1 "?ip\<lparr>i_size := ?z\<rparr>"] by (simp cong: if_cong) blast
  let ?s4 = "s\<lparr>mk_img := m'\<rparr>" and ?m2 = "m'(58 := mk_bits (unat (freeblock s)) (\<lambda>_. 0))"
  let ?s' = "s\<lparr>mk_img := ?m2\<rparr>"
  have ri: "rinode 1 s = Inr ?ip" using h[OF ino_host[of 1]] by (simp add: rinode_def rsect_def dinode_of_def)
  have ba: "mk_balloc (freeblock s) ?s4 = Inr ?s'" using f h[of 58] by (simp add: mk_balloc_def wsect_def sb0_def)
  have di: "dinode_of ?m2 j = dinode_of m' j" if "j < 208" for j using ino_facts(4)[OF that] by (simp add: dinode_of_def)
  have big: "?m2 b = ?m b" if "of_nat nmeta \<le> b" for b using w(2)[of b] that by (auto simp: word_le_nat_alt)
  have fr: "fbytes ?m2 (dinode_of ?m j) (fsize s j) = file_bytes s j" if "j \<in> mk_inodes s" for j
    using file_frame(3)[of ?m "dinode_of ?m j" "nblk (fsize s j)" ?m2, OF big order_refl] mk_okD(3)[OF ok that]
    by (simp add: fblocks_def file_bytes_def)
  have ad: "i_addrs (dinode_of m' 1) j = i_addrs ?ip j" if "j \<le> NDIRECT" for j using that w(4) by simp
  have rt: "root_bytes ?s' (fsize s 1) = file_bytes s 1"
    using fr[OF one] addrs_cong(3)[of "dinode_of m' 1" ?ip, OF ad] di[of 1] by (simp add: root_bytes_def)
  have u: "unat ?z = (fsize s 1 div 512 + 1) * 512" using sz by (simp add: fsize_def unat_word_ariths unat_div)
  have fs: "fsize ?s' 1 = (fsize s 1 div 512 + 1) * 512" using u di[of 1] w(4) by (simp add: fsize_def)
  have oj: "ftype ?s' j = ftype s j \<and> (j \<noteq> 1 \<longrightarrow> file_bytes ?s' j = file_bytes s j)" if "j \<in> mk_inodes s" for j
    using fr[OF that] di[OF mk_okD(2)[OF ok that]] w(3)[OF mk_okD(2)[OF ok that]] w(4) by (cases "j = 1") (simp_all add: ftype_def file_bytes_def fsize_def)
  show ?thesis
    by (rule exI[of _ ?ip], rule exI[of _ ?s4], rule exI[of _ ?s']) (use ri w(1) ba rt fs oj w(2)[of 1] in \<open>simp add: fsize_def[of s]\<close>)
qed

text \<open>The blocks of the image that are in use: the metadata, the root directory and the files.\<close>

definition used_blocks :: "hostfile list \<Rightarrow> nat" where
  "used_blocks fs = nmeta + ncost (nblk (32 + 16 * length fs)) + total fs"

definition root_entries :: "hostfile list \<Rightarrow> uchar list" where
  "root_entries fs = dirent 1 (mk_name [46]) @ dirent 1 (mk_name [46, 46]) @ entries 2 fs"

text \<open>C26: for files that can be opened, whose names have no slash, that are not too large for an inode, and that fit on the disk together,
  \<^verbatim>\<open>mkfs\<close> succeeds and the image it writes holds the super block the kernel reads back, a root directory
  (rounded up to whole blocks) that lists \<^verbatim>\<open>.\<close>, \<^verbatim>\<open>..\<close> and every file under its name with its inode, in the inodes from 2 on
  the files with their exact contents, and a bitmap with exactly the blocks in use marked.\<close>

theorem mkfs_image:
  assumes h: "\<And>b. b < of_nat FSSIZE \<Longrightarrow> mk_host s b" and fs: "host_ok fs" "length fs + 2 \<le> NINODES" and sp: "used_blocks fs \<le> FSSIZE"
  shows "\<exists>s'. mk_main fs s = Inr s' \<and> superblock_of (mk_img s' 1) = mk_sb \<and>
    ftype s' 1 = T_DIR \<and> fsize s' 1 = ((32 + 16 * length fs) div BSIZE + 1) * BSIZE \<and> root_bytes s' (32 + 16 * length fs) = root_entries fs \<and>
    (\<forall>k<length fs. ftype s' (2 + k) = T_FILE \<and> file_bytes s' (2 + k) = contents (fs ! k)) \<and>
    (\<forall>b<BSIZE * 8. bit (mk_img s' (sb_bmapstart mk_sb) (b div 8)) (b mod 8) \<longleftrightarrow> b < used_blocks fs)"
proof -
  let ?s = "s\<lparr>mk_img := (\<lambda>_ _. 0), freeinode := 1, freeblock := of_nat nmeta\<rparr>"
  let ?t = "?s\<lparr>mk_img := (\<lambda>_ _. 0)(1 := sb_bytes mk_sb)\<rparr>"
  let ?e1 = "dirent 1 (mk_name [46])" and ?e2 = "dirent 1 (mk_name [46, 46])"
  have z: "mk_zero FSSIZE ?s = Inr ?s" by (rule mk_zero_ok) (use h in simp_all)
  have w1: "wsect 1 (sb_bytes mk_sb) ?s = Inr ?t" using h[of 1] by (simp add: wsect_def)
  obtain s0 s1 s2 where r: "mk_ialloc T_DIR ?t = Inr (1, s0)" "iappend 1 ?e1 s0 = Inr s1" "iappend 1 ?e2 s1 = Inr s2" "mk_ok s2" "mk_host s2 = mk_host s"
    "file_bytes s2 1 = ?e1 @ ?e2" "fsize s2 1 = 32" "ftype s2 1 = T_DIR" "freeinode s2 = 2" "freeblock s2 = of_nat nmeta + 1" "mk_img s2 1 = sb_bytes mk_sb"
    using mk_root_ok[of ?t "sb_bytes mk_sb" ?e1 ?e2] h by auto
  have n: "ncost (nblk 32) = 1" by (simp add: nblk_def ncost_def)
  have "\<exists>s'. mk_files 1 fs s2 = Inr s' \<and> filled s2 2 fs s'"
    by (rule mk_files_ok) (use r h fs sp n in \<open>simp_all add: used_blocks_def\<close>)
  then obtain s3 where s3: "mk_files 1 fs s2 = Inr s3" "filled s2 2 fs s3" by blast
  have fz: "fsize s3 1 = 32 + 16 * length fs" using s3(2) r(7) by (simp add: filled_def)
  have fb: "unat (freeblock s3) = used_blocks fs" using s3(2) r(7,10) n by (simp add: filled_def used_blocks_def)
  have fi: "unat (freeinode s3) = 2 + length fs" using s3(2) fs(2) ino_facts(1)[of "2 + length fs"] by (simp add: filled_def)
  have ok3: "mk_ok s3" "1 \<in> mk_inodes s3" "mk_host s3 = mk_host s" using s3(2) r(5) fi by (auto simp: filled_def mk_inodes_def)
  obtain din s4 s' where e: "rinode 1 s3 = Inr din" "winode 1 (din\<lparr>i_size := (i_size din div 512 + 1) * 512\<rparr>) s3 = Inr s4"
    "freeblock s4 = freeblock s3" "mk_balloc (freeblock s3) s4 = Inr s'"
    "root_bytes s' (fsize s3 1) = file_bytes s3 1" "fsize s' 1 = (fsize s3 1 div 512 + 1) * 512"
    "\<And>j. j \<in> mk_inodes s3 \<Longrightarrow> ftype s' j = ftype s3 j \<and> (j \<noteq> 1 \<longrightarrow> file_bytes s' j = file_bytes s3 j)"
    "mk_img s' 1 = mk_img s3 1" "mk_img s' 58 = mk_bits (unat (freeblock s3)) (\<lambda>_. 0)"
    using mk_finish_ok[OF ok3(1,2)] h ok3(3) fz fb sp fs(2) by auto
  have "mk_main fs s = Inr s'" using z w1 r(1-3) s3(1) e(1-4) by (simp add: mk_main_def Let_def)
  moreover have "superblock_of (mk_img s' 1) = mk_sb" using s3(2) e(8) r(11) by (simp add: filled_def sb_bytes_roundtrip)
  moreover have "root_bytes s' (32 + 16 * length fs) = root_entries fs" using e(5) fz s3(2) r(6) by (simp add: filled_def root_entries_def)
  moreover have "ftype s' 1 = T_DIR" using e(7)[OF ok3(2)] s3(2) r(8) by (simp add: filled_def)
  moreover have "ftype s' (2 + k) = T_FILE \<and> file_bytes s' (2 + k) = contents (fs ! k)" if "k < length fs" for k
    using e(7)[of "2 + k"] s3(2) that fi by (simp add: filled_def mk_inodes_def)
  moreover have "bit (mk_img s' (sb_bmapstart mk_sb) (b div 8)) (b mod 8) \<longleftrightarrow> b < used_blocks fs" for b
    using e(9) fb mk_bits_bit by (simp add: sb0_def)
  ultimately show ?thesis using e(6) fz by auto
qed

theorem mkfs_image_witness:
  "\<exists>s'. mk_main [([95, 99, 97, 116], Some [[104, 105], [10]])] \<lparr>mk_img = (\<lambda>_ _. 7), mk_host = (\<lambda>b. b < 1000), freeinode = 0, freeblock = 0\<rparr> = Inr s' \<and>
     file_bytes s' 2 = [104, 105, 10] \<and> fsize s' 1 = 512 \<and>
     root_bytes s' 48 = dirent 1 (mk_name [46]) @ dirent 1 (mk_name [46, 46]) @ dirent 2 (mk_name [99, 97, 116])"
  using mkfs_image[of "\<lparr>mk_img = (\<lambda>_ _. 7), mk_host = (\<lambda>b. b < 1000), freeinode = 0, freeblock = 0\<rparr>" "[([95, 99, 97, 116], Some [[104, 105], [10]])]"]
  by (auto simp: host_ok_def contents_def used_blocks_def nblk_def ncost_def total_def root_entries_def host_name_def)

end
