(* ===== verification/Umalloc.thy ===== *)
theory Umalloc
  imports Prelude
begin

text \<open>
  \<^verbatim>\<open>umalloc.c\<close>, the memory allocator of user programs.

  The free blocks form a circular list in the order of their addresses, through the headers in front of the blocks.
  The headers are two maps from the address of a header to its fields.  \<open>brk\<close> is the size of the process as \<^verbatim>\<open>sys_sbrk\<close>
  keeps it; whether the kernel finds the memory to grow it is an argument of the model.  The allocator is shown
  to keep the list in order and without adjacent blocks, never to hand out memory twice, and to lose none.
\<close>

section \<open>The allocator\<close>

record heap =
  m_ptr :: "uint \<Rightarrow> uint"
  m_size :: "uint \<Rightarrow> uint"
  freep :: uint
  brk :: uint

text \<open>Arithmetic on pointers to headers, which are 8 bytes long.\<close>

definition hadd :: "uint \<Rightarrow> uint \<Rightarrow> uint" where
  "hadd p n = p + 8 * n"

text \<open>The place of a block in the list.\<close>

partial_function (option) free_find :: "heap \<Rightarrow> uint \<Rightarrow> uint \<Rightarrow> uint option" where
  "free_find h bp p =
     (if \<not> (bp > p \<and> bp < m_ptr h p) then
        if p \<ge> m_ptr h p \<and> (bp > p \<or> bp < m_ptr h p) then Some p
        else free_find h bp (m_ptr h p)
      else Some p)"

definition free_link :: "uint \<Rightarrow> uint \<Rightarrow> heap \<Rightarrow> heap" where
  "free_link bp p h =
     (let h = (if hadd bp (m_size h bp) = m_ptr h p then
                 h\<lparr>m_size := (m_size h)(bp := m_size h bp + m_size h (m_ptr h p)), m_ptr := (m_ptr h)(bp := m_ptr h (m_ptr h p))\<rparr>
               else h\<lparr>m_ptr := (m_ptr h)(bp := m_ptr h p)\<rparr>);
          h = (if hadd p (m_size h p) = bp then
                 h\<lparr>m_size := (m_size h)(p := m_size h p + m_size h bp), m_ptr := (m_ptr h)(p := m_ptr h bp)\<rparr>
               else h\<lparr>m_ptr := (m_ptr h)(p := bp)\<rparr>)
      in h\<lparr>freep := p\<rparr>)"

definition free :: "uint \<Rightarrow> heap \<Rightarrow> heap option" where
  "free ap h = (let bp = ap - 8 in map_option (\<lambda>p. free_link bp p h) (free_find h bp (freep h)))"

text \<open>\<open>grow b n\<close>: \<^verbatim>\<open>growproc\<close> can grow a process of \<open>b\<close> bytes by \<open>n\<close>.\<close>

definition usbrk :: "(uint \<Rightarrow> uint \<Rightarrow> bool) \<Rightarrow> uint \<Rightarrow> heap \<Rightarrow> uint \<times> heap" where
  "usbrk grow n h = (if grow (brk h) n then (brk h, h\<lparr>brk := brk h + n\<rparr>) else (-1, h))"

definition morecore :: "(uint \<Rightarrow> uint \<Rightarrow> bool) \<Rightarrow> uint \<Rightarrow> heap \<Rightarrow> (uint \<times> heap) option" where
  "morecore grow nu h =
     (let nu = (if nu < 4096 then 4096 else nu); (p, h) = usbrk grow (nu * 8) h in
      if p = -1 then Some (0, h)
      else map_option (\<lambda>h. (freep h, h)) (free (hadd p 1) (h\<lparr>m_size := (m_size h)(p := nu)\<rparr>)))"

definition malloc_take :: "uint \<Rightarrow> uint \<Rightarrow> uint \<Rightarrow> heap \<Rightarrow> uint \<times> heap" where
  "malloc_take nunits prevp p h =
     (let (p, h) =
        (if m_size h p = nunits then (p, h\<lparr>m_ptr := (m_ptr h)(prevp := m_ptr h p)\<rparr>)
         else let h = h\<lparr>m_size := (m_size h)(p := m_size h p - nunits)\<rparr>; p = hadd p (m_size h p)
              in (p, h\<lparr>m_size := (m_size h)(p := nunits)\<rparr>))
      in (hadd p 1, h\<lparr>freep := prevp\<rparr>))"

partial_function (option) malloc_loop :: "(uint \<Rightarrow> uint \<Rightarrow> bool) \<Rightarrow> uint \<Rightarrow> uint \<Rightarrow> uint \<Rightarrow> heap \<Rightarrow> (uint \<times> heap) option" where
  "malloc_loop grow nunits prevp p h =
     (if m_size h p \<ge> nunits then Some (malloc_take nunits prevp p h)
      else if p = freep h then
        Option.bind (morecore grow nunits h) (\<lambda>(p, h). if p = 0 then Some (0, h) else malloc_loop grow nunits p (m_ptr h p) h)
      else malloc_loop grow nunits p (m_ptr h p) h)"

definition malloc :: "(uint \<Rightarrow> uint \<Rightarrow> bool) \<Rightarrow> uint \<Rightarrow> uint \<Rightarrow> heap \<Rightarrow> (uint \<times> heap) option" where
  "malloc grow base nbytes h =
     (let nunits = (nbytes + 8 - 1) div 8 + 1;
          h = (if freep h = 0 then h\<lparr>m_ptr := (m_ptr h)(base := base), freep := base, m_size := (m_size h)(base := 0)\<rparr> else h)
      in malloc_loop grow nunits (freep h) (m_ptr h (freep h)) h)"

section \<open>The free list\<close>

text \<open>Following the links from \<open>x\<close> leads over the addresses in the list to \<open>z\<close>.\<close>

primrec chain :: "(uint \<Rightarrow> uint) \<Rightarrow> uint \<Rightarrow> uint list \<Rightarrow> uint \<Rightarrow> bool" where
  "chain m x [] z \<longleftrightarrow> m x = z"
| "chain m x (y # ys) z \<longleftrightarrow> m x = y \<and> chain m y ys z"

lemma chain_append: "chain m x (as @ y # bs) z \<longleftrightarrow> chain m x as y \<and> chain m y bs z"
  by (induction as arbitrary: x) auto

lemma chain_split: "chain m x (as @ bs) z \<longleftrightarrow> (case bs of [] \<Rightarrow> chain m x as z | b # bs' \<Rightarrow> chain m x as b \<and> chain m b bs' z)"
  by (cases bs) (simp_all add: chain_append)

lemma hchain_cong: "(\<And>y. y \<in> set (x # ys) \<Longrightarrow> m' y = m y) \<Longrightarrow> chain m' x ys z = chain m x ys z"
  by (induction ys arbitrary: x) auto

lemma chain_upd [simp]: "a \<notin> set (x # ys) \<Longrightarrow> chain (m(a := v)) x ys z = chain m x ys z"
  by (rule hchain_cong) auto

lemma chain_last: "chain m x ys z \<Longrightarrow> m (last (x # ys)) = z"
  by (induction ys arbitrary: x) auto

lemma chain_relink:
  assumes "chain m x ys z" "distinct (x # ys)" "\<And>y. y \<in> set (x # ys) \<Longrightarrow> y \<noteq> last (x # ys) \<Longrightarrow> m' y = m y" "m' (last (x # ys)) = w"
  shows "chain m' x ys w"
  using assms
proof (induction ys arbitrary: x)
  case (Cons y ys)
  have "x \<noteq> last (y # ys)" using Cons.prems(2) last_in_set[of "y # ys"] by auto
  moreover have "chain m' y ys w" by (rule Cons.IH) (use Cons.prems in auto)
  ultimately show ?case using Cons.prems by auto
qed simp

definition haddr :: "uint \<Rightarrow> nat" where
  "haddr p = unat p"

definition hend :: "(uint \<Rightarrow> uint) \<Rightarrow> uint \<Rightarrow> nat" where
  "hend sz p = unat p + 8 * unat (sz p)"

definition span :: "(uint \<Rightarrow> uint) \<Rightarrow> uint \<Rightarrow> nat set" where
  "span sz p = {haddr p..<hend sz p}"

text \<open>The list of the free blocks \<open>ys\<close> behind \<open>base\<close>: in order, with a gap behind each, all below \<open>lim\<close>.\<close>

definition flist :: "uint \<Rightarrow> nat \<Rightarrow> heap \<Rightarrow> uint list \<Rightarrow> bool" where
  "flist base lim h ys \<longleftrightarrow> chain (m_ptr h) base ys base \<and> sorted_wrt (\<lambda>x y. hend (m_size h) x < haddr y) (base # ys) \<and>
     m_size h base = 0 \<and> (\<forall>y\<in>set ys. m_size h y \<noteq> 0 \<and> hend (m_size h) y \<le> lim) \<and> freep h \<in> set (base # ys)"

definition spans :: "heap \<Rightarrow> uint list \<Rightarrow> nat set" where
  "spans h ys = (\<Union>y\<in>set ys. span (m_size h) y)"

lemma hend_ge: "haddr p \<le> hend sz p"
  by (simp add: haddr_def hend_def)

lemma gap_less: "hend sz x < haddr y \<Longrightarrow> x < y"
  using hend_ge[of x sz] by (simp add: haddr_def word_less_nat_alt)

lemma sorted_gap:
  assumes "sorted_wrt (\<lambda>x y. hend sz x < haddr y) xs"
  shows "sorted_wrt (<) xs" "distinct xs"
proof -
  show s: "sorted_wrt (<) xs" using assms by (rule sorted_wrt_mono_rel[rotated]) (rule gap_less)
  then show "distinct xs" by (simp add: strict_sorted_iff)
qed

lemma sorted_gap_cong:
  "sorted_wrt (\<lambda>x y. hend sz x < haddr y) xs \<Longrightarrow> (\<And>y. y \<in> set xs \<Longrightarrow> hend sz' y = hend sz y) \<Longrightarrow> sorted_wrt (\<lambda>x y. hend sz' x < haddr y) xs"
  by (erule sorted_wrt_mono_rel[rotated]) auto

text \<open>The search for the place of a block: below the block the next address is the place or further up, above it the list
  leads back to \<open>base\<close>.\<close>

lemma find_up:
  assumes "chain (m_ptr h) q as z" "sorted_wrt (<) (q # as)" "\<forall>y\<in>set (q # as). y < bp" "bp < z \<or> z \<le> last (q # as)"
  shows "free_find h bp q = Some (last (q # as))"
  using assms
proof (induction as arbitrary: q)
  case Nil
  then show ?case by (subst free_find.simps) auto
next
  case (Cons a as)
  then have "free_find h bp a = Some (last (a # as))" by auto
  moreover have "free_find h bp q = free_find h bp a" using Cons.prems by (subst free_find.simps) auto
  ultimately show ?case by simp
qed

lemma find_round:
  assumes "chain (m_ptr h) q bs base" "sorted_wrt (<) (q # bs)" "\<forall>y\<in>set (q # bs). bp < y" "base < bp"
  shows "free_find h bp q = free_find h bp base"
  using assms
proof (induction bs arbitrary: q)
  case Nil
  then show ?case by (subst free_find.simps) auto
next
  case (Cons b bs)
  then have "free_find h bp b = free_find h bp base" by auto
  moreover have "free_find h bp q = free_find h bp b" using Cons.prems by (subst free_find.simps) auto
  ultimately show ?case by simp
qed

lemma free_find_ok:
  assumes c: "chain (m_ptr h) base (as @ bs) base" and s: "sorted_wrt (<) (base # as @ bs)"
    and a: "\<forall>y\<in>set as. y < bp" and b: "\<forall>y\<in>set bs. bp < y" and bp: "base < bp" and p: "p \<in> set (base # as @ bs)"
  shows "free_find h bp p = Some (last (base # as))"
proof -
  let ?z = "hd (bs @ [base])"
  have z: "chain (m_ptr h) base as ?z" using c by (cases bs) (simp_all add: chain_append)
  have zz: "bp < ?z \<or> ?z \<le> last (base # as)" using b s by (cases bs) (auto simp: less_imp_le)
  have up: "free_find h bp q = Some (last (base # as))" if qi: "q \<in> set (base # as)" for q
  proof -
    obtain us vs where q: "base # as = us @ q # vs" using split_list[OF qi] by blast
    have "chain (m_ptr h) q vs ?z" using z q by (cases us) (auto simp: chain_append)
    moreover have "sorted_wrt (<) (q # vs)" using s q by (metis append_Cons sorted_wrt_append)
    moreover have "\<forall>y\<in>set (q # vs). y < bp" using a bp q by (metis (no_types, lifting) Un_iff list.set_intros(2) set_ConsD set_append)
    ultimately have "free_find h bp q = Some (last (q # vs))" using zz q by (intro find_up) (auto simp: last_append)
    then show ?thesis using q by (simp add: last_append)
  qed
  show ?thesis
  proof (cases "p \<in> set (base # as)")
    case False
    then obtain us vs where q: "bs = us @ p # vs" using p by (metis Un_iff append_Cons set_append split_list)
    have "chain (m_ptr h) p vs base" using c by (simp add: q chain_append flip: append_assoc)
    moreover have "sorted_wrt (<) (p # vs)" using s q by (simp add: sorted_wrt_append)
    ultimately have "free_find h bp p = free_find h bp base" using b bp q by (intro find_round) auto
    then show ?thesis using up[of base] by simp
  qed (rule up)
qed

lemma unat_hadd: "unat p + 8 * unat n < 2 ^ 32 \<Longrightarrow> unat (hadd p n) = unat p + 8 * unat n"
  by (simp add: hadd_def unat_word_ariths)

lemma hadd_eq: "hend sz p < 2 ^ 32 \<Longrightarrow> hadd p (sz p) = q \<longleftrightarrow> hend sz p = haddr q"
  by (auto simp: hend_def haddr_def unat_hadd word_unat_eq_iff)

lemma span_split:
  assumes "hend sz p = haddr q" "unat p + 8 * (unat (sz p) + unat (sz q)) < 2 ^ 32" "sz' p = sz p + sz q"
  shows "hend sz' p = hend sz q" "span sz' p = span sz p \<union> span sz q" "unat (sz' p) = unat (sz p) + unat (sz q)"
proof -
  show u: "unat (sz' p) = unat (sz p) + unat (sz q)" using assms(2,3) by (simp add: unat_word_ariths)
  then show e: "hend sz' p = hend sz q" using assms(1) by (simp add: hend_def haddr_def)
  show "span sz' p = span sz p \<union> span sz q" using assms(1) hend_ge[of p sz] hend_ge[of q sz] by (auto simp: span_def e)
qed

text \<open>First the block and the one behind it.\<close>

definition link_next :: "uint \<Rightarrow> uint \<Rightarrow> heap \<Rightarrow> heap" where
  "link_next bp nx h = (if hadd bp (m_size h bp) = nx then
     h\<lparr>m_size := (m_size h)(bp := m_size h bp + m_size h nx), m_ptr := (m_ptr h)(bp := m_ptr h nx)\<rparr>
     else h\<lparr>m_ptr := (m_ptr h)(bp := nx)\<rparr>)"

lemma link_next_ok:
  assumes c: "case bs of [] \<Rightarrow> True | b # bs' \<Rightarrow> chain (m_ptr h) b bs' base" and s: "sorted_wrt (\<lambda>x y. hend (m_size h) x < haddr y) bs"
    and b: "\<forall>y\<in>set bs. hend (m_size h) bp \<le> haddr y \<and> hend (m_size h) y \<le> lim" and bp: "base < bp" "m_size h bp \<noteq> 0" "hend (m_size h) bp \<le> lim" and l: "lim < 2 ^ 32"
  defines "h1 \<equiv> link_next bp (hd (bs @ [base])) h"
  shows "\<exists>bs1. chain (m_ptr h1) bp bs1 base \<and> sorted_wrt (\<lambda>x y. hend (m_size h1) x < haddr y) (bp # bs1) \<and> set bs1 \<subseteq> set bs \<and>
    (\<exists>v w. h1 = h\<lparr>m_size := (m_size h)(bp := v), m_ptr := (m_ptr h)(bp := w)\<rparr>) \<and> span (m_size h1) bp \<union> spans h1 bs1 = span (m_size h) bp \<union> spans h bs \<and>
    hend (m_size h1) bp \<le> lim \<and> unat (m_size h bp) \<le> unat (m_size h1 bp)"
proof -
  let ?sz = "m_size h"
  have eb: "hend ?sz bp < 2 ^ 32" "haddr bp < hend ?sz bp" using bp l by (auto simp: hend_def haddr_def unat_gt_0)
  have nb: "bp \<notin> set bs" using b eb(2) by force
  have ne: "hend ?sz bp \<noteq> haddr base" using bp(1) eb(2) by (simp add: haddr_def word_less_nat_alt)
  show ?thesis
  proof (cases "\<exists>b bs'. bs = b # bs' \<and> hend ?sz bp = haddr b")
    case True
    then obtain x bs' where x: "bs = x # bs'" "hend ?sz bp = haddr x" by blast
    have h1: "h1 = h\<lparr>m_size := ?sz(bp := ?sz bp + ?sz x), m_ptr := (m_ptr h)(bp := m_ptr h x)\<rparr>"
      using x hadd_eq[of ?sz bp x] eb(1) by (simp add: h1_def link_next_def)
    have "unat bp + 8 * (unat (?sz bp) + unat (?sz x)) < 2 ^ 32" using x b l by (auto simp: hend_def haddr_def)
    note sp = span_split[OF x(2) this, of "m_size h1"]
    have o: "hend (m_size h1) y = hend ?sz y" "span (m_size h1) y = span ?sz y" if "y \<in> set bs" for y using h1 that nb by (auto simp: hend_def span_def)
    have nb': "bp \<notin> set bs'" "bp \<noteq> x" using nb x by auto
    have s': "sorted_wrt (\<lambda>x y. hend ?sz x < haddr y) bs'" "\<forall>y\<in>set bs'. hend ?sz x < haddr y" using s x by auto
    have "chain (m_ptr h1) bp bs' base" using c x nb' h1 by (cases bs') auto
    moreover have "sorted_wrt (\<lambda>x y. hend (m_size h1) x < haddr y) (bp # bs')"
      using s'(2) sp(1) h1 sorted_gap_cong[OF s'(1), of "m_size h1"] o(1) x(1) by auto
    moreover have "span (m_size h1) bp \<union> spans h1 bs' = span ?sz bp \<union> spans h bs" using sp(2) h1 o(2) x(1) by (auto simp: spans_def)
    moreover have "hend (m_size h1) bp \<le> lim" "unat (m_size h bp) \<le> unat (m_size h1 bp)" using sp(1,3) h1 b x(1) by auto
    moreover have "set bs' \<subseteq> set bs" "\<exists>v w. h1 = h\<lparr>m_size := (m_size h)(bp := v), m_ptr := (m_ptr h)(bp := w)\<rparr>" using x(1) h1 by auto
    ultimately show ?thesis by blast
  next
    case False
    have "hadd bp (m_size h bp) \<noteq> hd (bs @ [base])" using False ne hadd_eq[OF eb(1)] by (cases bs) auto
    then have h1: "h1 = h\<lparr>m_ptr := (m_ptr h)(bp := hd (bs @ [base]))\<rparr>" by (simp add: h1_def link_next_def)
    have "chain (m_ptr h1) bp bs base" using c nb h1 by (cases bs) auto
    moreover have "sorted_wrt (\<lambda>x y. hend (m_size h1) x < haddr y) (bp # bs)"
    proof (cases bs)
      case (Cons x bs')
      have "hend ?sz bp < haddr x" using False b Cons by force
      moreover have "hend ?sz bp < haddr y" if "y \<in> set bs'" for y using calculation hend_ge[of x ?sz] s Cons that by force
      ultimately show ?thesis using s Cons h1 by simp
    qed simp
    moreover have "h1 = h\<lparr>m_size := (m_size h)(bp := m_size h bp), m_ptr := (m_ptr h)(bp := hd (bs @ [base]))\<rparr>" by (simp add: h1)
    then have "\<exists>v w. h1 = h\<lparr>m_size := (m_size h)(bp := v), m_ptr := (m_ptr h)(bp := w)\<rparr>" by blast
    ultimately show ?thesis using bp(3) h1 by (intro exI[of _ bs]) (simp add: spans_def)
  qed
qed

text \<open>Then the block and the one in front of it.\<close>

definition link_prev :: "uint \<Rightarrow> uint \<Rightarrow> heap \<Rightarrow> heap" where
  "link_prev bp p h = (if hadd p (m_size h p) = bp then
     h\<lparr>m_size := (m_size h)(p := m_size h p + m_size h bp), m_ptr := (m_ptr h)(p := m_ptr h bp)\<rparr>
     else h\<lparr>m_ptr := (m_ptr h)(p := bp)\<rparr>)"

lemma free_link_eq: "free_link bp p h = (link_prev bp p (link_next bp (m_ptr h p) h))\<lparr>freep := p\<rparr>"
  by (simp add: free_link_def link_next_def link_prev_def Let_def)

text \<open>The block \<open>bp\<close>, linked to the blocks \<open>bs\<close> above it, is to be linked behind \<open>base\<close> and the blocks \<open>as\<close> below it.\<close>

definition ready :: "uint \<Rightarrow> nat \<Rightarrow> heap \<Rightarrow> uint list \<Rightarrow> uint \<Rightarrow> uint list \<Rightarrow> bool" where
  "ready base lim h as bp bs \<longleftrightarrow> (\<exists>z. chain (m_ptr h) base as z) \<and> chain (m_ptr h) bp bs base \<and>
     sorted_wrt (\<lambda>x y. hend (m_size h) x < haddr y) (base # as) \<and> sorted_wrt (\<lambda>x y. hend (m_size h) x < haddr y) (bp # bs) \<and>
     (\<forall>y\<in>set as. hend (m_size h) y \<le> haddr bp \<and> m_size h y \<noteq> 0) \<and> m_size h base = 0 \<and> base < bp \<and>
     (\<forall>y\<in>set (bp # bs). hend (m_size h) y \<le> lim \<and> m_size h y \<noteq> 0) \<and> lim < 2 ^ 32"

lemma ready_facts:
  assumes r: "ready base lim h as bp bs"
  shows "haddr bp < hend (m_size h) bp" "hend (m_size h) bp \<le> lim" "distinct (base # as)" "bp \<notin> set (base # as)" "set (base # as) \<inter> set bs = {}"
    "\<And>x. x \<in> set (base # as) \<Longrightarrow> hend (m_size h) x \<le> haddr bp" "\<And>x y. x \<in> set (base # as) \<Longrightarrow> y \<in> set bs \<Longrightarrow> hend (m_size h) x < haddr y"
    "hend (m_size h) (last (base # as)) < 2 ^ 32" "\<And>y. y \<in> set bs \<Longrightarrow> hend (m_size h) bp < haddr y"
    "\<And>y. y \<in> set as \<Longrightarrow> hend (m_size h) y \<le> lim \<and> m_size h y \<noteq> 0"
proof -
  let ?sz = "m_size h"
  show bpE: "haddr bp < hend ?sz bp" "hend ?sz bp \<le> lim" using r by (auto simp: ready_def hend_def haddr_def unat_gt_0)
  show ea: "hend ?sz x \<le> haddr bp" if "x \<in> set (base # as)" for x using that r by (auto simp: ready_def hend_def haddr_def word_less_nat_alt)
  show eb: "hend ?sz bp < haddr y" if "y \<in> set bs" for y using that r by (simp add: ready_def)
  show ab: "hend ?sz x < haddr y" if "x \<in> set (base # as)" "y \<in> set bs" for x y using ea[OF that(1)] eb[OF that(2)] bpE(1) by linarith
  show "distinct (base # as)" using r by (intro sorted_gap(2)[of ?sz]) (simp add: ready_def)
  show "bp \<notin> set (base # as)" using r ea[of bp] bpE(1) by (auto simp: ready_def)
  have "x \<noteq> y" if "x \<in> set (base # as)" "y \<in> set bs" for x y using ab[OF that] hend_ge[of x ?sz] by auto
  then show "set (base # as) \<inter> set bs = {}" by blast
  have "lim < 2 ^ 32" using r by (simp add: ready_def)
  then show "hend ?sz (last (base # as)) < 2 ^ 32" using ea[OF last_in_set] bpE by fastforce
  show "hend ?sz y \<le> lim \<and> ?sz y \<noteq> 0" if "y \<in> set as" for y using that ea[of y] bpE r by (auto simp: ready_def)
qed

definition linked :: "uint \<Rightarrow> nat \<Rightarrow> heap \<Rightarrow> uint list \<Rightarrow> uint \<Rightarrow> uint list \<Rightarrow> bool" where
  "linked base lim h as bp bs \<longleftrightarrow> (let p = last (base # as); h2 = link_prev bp p h in
     \<exists>ys. flist base lim (h2\<lparr>freep := p\<rparr>) ys \<and> set ys \<subseteq> insert bp (set as \<union> set bs) \<and>
       (\<exists>v w. h2 = h\<lparr>m_size := (m_size h)(p := v), m_ptr := (m_ptr h)(p := w)\<rparr>) \<and>
       spans h2 ys = spans h as \<union> span (m_size h) bp \<union> spans h bs \<and> (\<exists>y\<in>set ys. unat (m_size h bp) \<le> unat (m_size h2 y)))"

lemma link_apart:
  assumes r: "ready base lim h as bp bs" and ne: "hend (m_size h) (last (base # as)) \<noteq> haddr bp"
  shows "linked base lim h as bp bs"
proof -
  let ?sz = "m_size h"
  define p where "p = last (base # as)"
  define h2 where "h2 = link_prev bp p h"
  note rf = ready_facts[OF r]
  have p: "p \<in> set (base # as)" by (simp add: p_def)
  obtain us where us: "base # as = us @ [p]" unfolding p_def by (metis append_butlast_last_id list.distinct(1))
  have h2: "h2 = h\<lparr>m_ptr := (m_ptr h)(p := bp)\<rparr>" using hadd_eq[OF rf(8)] ne by (simp add: h2_def link_prev_def p_def)
  obtain z where "chain (m_ptr h) base as z" using r by (auto simp: ready_def)
  from chain_relink[OF this rf(3)] have "chain (m_ptr h2) base as bp" by (auto simp: h2 p_def)
  moreover have "p \<notin> set (bp # bs)" using rf(4,5) p by (metis disjoint_iff set_ConsD)
  then have "chain (m_ptr h2) bp bs base" using r by (simp add: h2 ready_def)
  ultimately have ch: "chain (m_ptr h2) base (as @ bp # bs) base" by (simp add: chain_append)
  have lt: "hend ?sz x < haddr bp" if "x \<in> set (base # as)" for x
  proof (cases "x = p")
    case False
    then have "x \<in> set us" using that unfolding us by auto
    then have "hend ?sz x < haddr p" using r unfolding ready_def us by (simp add: sorted_wrt_append)
    then show ?thesis using hend_ge[of p ?sz] rf(6)[OF p] by linarith
  qed (use rf(6)[OF p] ne p_def in simp)
  have so: "sorted_wrt (\<lambda>x y. hend ?sz x < haddr y) ((base # as) @ bp # bs)" using r lt rf(7) unfolding sorted_wrt_append ready_def by auto
  have "flist base lim (h2\<lparr>freep := p\<rparr>) (as @ bp # bs)"
    unfolding flist_def using ch so r p rf(10) by (auto simp: h2 ready_def)
  moreover have "spans h2 (as @ bp # bs) = spans h as \<union> span ?sz bp \<union> spans h bs" by (auto simp: h2 spans_def)
  moreover have "h2 = h\<lparr>m_size := (m_size h)(p := m_size h p), m_ptr := (m_ptr h)(p := bp)\<rparr>" by (simp add: h2)
  then have "\<exists>v w. h2 = h\<lparr>m_size := (m_size h)(p := v), m_ptr := (m_ptr h)(p := w)\<rparr>" by blast
  moreover have "unat (m_size h bp) \<le> unat (m_size h2 bp)" "set (as @ bp # bs) \<subseteq> insert bp (set as \<union> set bs)" "bp \<in> set (as @ bp # bs)"
    by (auto simp: h2)
  ultimately show ?thesis unfolding linked_def Let_def p_def[symmetric] h2_def[symmetric] by blast
qed

lemma link_merge:
  assumes r: "ready base lim h as bp bs" and e: "hend (m_size h) (last (base # as)) = haddr bp"
  shows "linked base lim h as bp bs"
proof -
  let ?sz = "m_size h"
  define p where "p = last (base # as)"
  define h2 where "h2 = link_prev bp p h"
  note rf = ready_facts[OF r]
  have p: "p \<in> set (base # as)" "hend ?sz p = haddr bp" using e by (simp_all add: p_def)
  obtain us where us: "base # as = us @ [p]" unfolding p_def by (metis append_butlast_last_id list.distinct(1))
  have up: "hend ?sz x < haddr p" "x \<noteq> p" if "x \<in> set us" for x using r rf(3) that unfolding ready_def us by (auto simp: sorted_wrt_append)
  have h2: "h2 = h\<lparr>m_size := ?sz(p := ?sz p + ?sz bp), m_ptr := (m_ptr h)(p := m_ptr h bp)\<rparr>"
    using hadd_eq[OF rf(8)] e by (simp add: h2_def link_prev_def p_def)
  have "unat p + 8 * (unat (?sz p) + unat (?sz bp)) < 2 ^ 32" using p(2) rf(2) r by (auto simp: hend_def haddr_def ready_def)
  from span_split[OF p(2) this, of "m_size h2"] have sp: "hend (m_size h2) p = hend ?sz bp" "span (m_size h2) p = span ?sz p \<union> span ?sz bp"
    "unat (m_size h2 p) = unat (?sz p) + unat (?sz bp)" by (simp_all add: h2)
  have pa: "p \<in> set as" using p r by (auto simp: hend_def haddr_def word_less_nat_alt ready_def)
  have o: "hend (m_size h2) y = hend ?sz y" "span (m_size h2) y = span ?sz y" "m_size h2 y = ?sz y" if "y \<noteq> p" for y using that by (simp_all add: h2 hend_def span_def)
  have pbs: "p \<notin> set bs" using rf(5) p(1) by blast
  then have yp: "y \<noteq> p" if "y \<in> set bs" for y using that by blast
  obtain z where "chain (m_ptr h) base as z" using r by (auto simp: ready_def)
  from chain_relink[OF this rf(3)] have "chain (m_ptr h2) base as (m_ptr h bp)" by (auto simp: h2 p_def)
  moreover have "case bs of [] \<Rightarrow> m_ptr h bp = base | x # bs' \<Rightarrow> m_ptr h bp = x \<and> chain (m_ptr h2) x bs' base"
    using r pbs by (cases bs) (simp_all add: h2 ready_def)
  ultimately have ch: "chain (m_ptr h2) base (as @ bs) base" by (cases bs) (auto simp: chain_append)
  have "sorted_wrt (\<lambda>x y. hend (m_size h2) x < haddr y) us"
    by (rule sorted_gap_cong[of ?sz]) (use r up(2) o in \<open>auto simp: ready_def us sorted_wrt_append\<close>)
  then have "sorted_wrt (\<lambda>x y. hend (m_size h2) x < haddr y) (base # as)" unfolding us using up o by (auto simp: sorted_wrt_append)
  moreover have "sorted_wrt (\<lambda>x y. hend (m_size h2) x < haddr y) bs" by (rule sorted_gap_cong[of ?sz]) (use r o(1)[OF yp] in \<open>simp_all add: ready_def\<close>)
  moreover have "hend (m_size h2) x < haddr y" if "x \<in> set (base # as)" "y \<in> set bs" for x y
    using rf(7)[OF that] rf(9)[OF that(2)] sp(1) o(1)[of x] by (cases "x = p") simp_all
  ultimately have so: "sorted_wrt (\<lambda>x y. hend (m_size h2) x < haddr y) ((base # as) @ bs)" unfolding sorted_wrt_append by auto
  have "0 < unat (m_size h2 p)" using sp(3) r by (simp add: unat_gt_0 ready_def)
  then have zp: "m_size h2 p \<noteq> 0 \<and> hend (m_size h2) p \<le> lim" using sp(1) rf(2) by (simp add: unat_gt_0)
  have z: "m_size h2 y \<noteq> 0 \<and> hend (m_size h2) y \<le> lim" if "y \<in> set (as @ bs)" for y
    using zp rf(10)[of y] r o(1,3)[of y] that by (cases "y = p") (auto simp: ready_def)
  have "base \<noteq> p" using rf(3) pa by auto
  then have "flist base lim (h2\<lparr>freep := p\<rparr>) (as @ bs)" unfolding flist_def using ch so z o(3)[of base] r pa by (auto simp: ready_def)
  moreover have "spans h2 (as @ bs) = spans h as \<union> span ?sz bp \<union> spans h bs"
  proof -
    have "spans h2 (as @ bs) = span (m_size h2) p \<union> (\<Union>y\<in>(set as \<union> set bs) - {p}. span (m_size h2) y)" using pa by (auto simp: spans_def)
    also have "\<dots> = span ?sz p \<union> span ?sz bp \<union> (\<Union>y\<in>(set as \<union> set bs) - {p}. span ?sz y)" using sp(2) o(2) by simp
    finally show ?thesis using pa by (auto simp: spans_def)
  qed
  moreover have "unat (m_size h bp) \<le> unat (m_size h2 p)" "p \<in> set (as @ bs)" "set (as @ bs) \<subseteq> insert bp (set as \<union> set bs)" using sp(3) pa by auto
  moreover have "\<exists>v w. h2 = h\<lparr>m_size := (m_size h)(p := v), m_ptr := (m_ptr h)(p := w)\<rparr>" using h2 by blast
  ultimately show ?thesis unfolding linked_def Let_def p_def[symmetric] h2_def[symmetric] by blast
qed

section \<open>Giving a block back\<close>

definition freed :: "uint \<Rightarrow> nat \<Rightarrow> heap \<Rightarrow> uint list \<Rightarrow> uint \<Rightarrow> heap \<Rightarrow> bool" where
  "freed base lim h ys bp h' \<longleftrightarrow> (\<exists>ys'. flist base lim h' ys' \<and> spans h' ys' = spans h ys \<union> span (m_size h) bp \<and>
     (\<exists>y\<in>set ys'. unat (m_size h bp) \<le> unat (m_size h' y))) \<and> brk h' = brk h \<and> (\<forall>q. q \<notin> insert bp (set (base # ys)) \<longrightarrow> m_size h' q = m_size h q)"

lemma span_apart:
  assumes "span sz x \<inter> span sz y = {}" "haddr x < hend sz x" "haddr y < hend sz y"
  shows "hend sz x \<le> haddr y \<or> hend sz y \<le> haddr x"
proof (rule ccontr)
  assume "\<not> ?thesis"
  then have "max (haddr x) (haddr y) \<in> span sz x \<inter> span sz y" using assms(2,3) by (auto simp: span_def)
  then show False using assms(1) by blast
qed

lemma drop_ge:
  fixes b :: uint
  shows "sorted_wrt (<) ys \<Longrightarrow> y \<in> set (dropWhile (\<lambda>y. y < b) ys) \<Longrightarrow> b \<le> y"
  by (induction ys) (auto split: if_splits)

lemma place:
  assumes f: "flist base lim h ys" and bp: "m_size h bp \<noteq> 0" "span (m_size h) bp \<inter> spans h ys = {}"
  shows "\<exists>as bs. ys = as @ bs \<and> (\<forall>y\<in>set as. y < bp \<and> hend (m_size h) y \<le> haddr bp) \<and> (\<forall>y\<in>set bs. bp < y \<and> hend (m_size h) bp \<le> haddr y)"
proof -
  let ?sz = "m_size h" and ?as = "takeWhile (\<lambda>y. y < bp) ys" and ?bs = "dropWhile (\<lambda>y. y < bp) ys"
  have ap: "hend ?sz y \<le> haddr bp \<or> hend ?sz bp \<le> haddr y" if "y \<in> set ys" for y
    by (rule span_apart) (use f bp that in \<open>auto simp: flist_def spans_def hend_def haddr_def unat_gt_0\<close>)
  have be: "haddr bp < hend ?sz bp" using bp(1) by (simp add: haddr_def hend_def unat_gt_0)
  have "sorted_wrt (<) ys" using f by (auto simp: flist_def intro!: sorted_gap(1)[of ?sz])
  note ge = drop_ge[OF this, of _ bp]
  have "\<forall>y\<in>set ?as. y < bp \<and> hend ?sz y \<le> haddr bp"
  proof
    fix y assume y: "y \<in> set ?as"
    then have "y < bp" "y \<in> set ys" by (auto dest: set_takeWhileD)
    then show "y < bp \<and> hend ?sz y \<le> haddr bp" using ap[of y] be by (auto simp: haddr_def word_less_nat_alt)
  qed
  moreover have "\<forall>y\<in>set ?bs. bp < y \<and> hend ?sz bp \<le> haddr y"
  proof
    fix y assume y: "y \<in> set ?bs"
    then have ys: "y \<in> set ys" by (rule set_dropWhileD)
    have "haddr y < hend ?sz y" using f ys by (auto simp: flist_def hend_def haddr_def unat_gt_0)
    then have "hend ?sz bp \<le> haddr y" using ap[OF ys] ge[OF y] by (auto simp: haddr_def word_le_nat_alt)
    then show "bp < y \<and> hend ?sz bp \<le> haddr y" using be by (simp add: haddr_def word_less_nat_alt)
  qed
  ultimately show ?thesis by (metis takeWhile_dropWhile_id)
qed

lemma link_next_ready:
  assumes f: "flist base lim h (as @ bs)" and l: "lim < 2 ^ 32" and bp: "base < bp" "m_size h bp \<noteq> 0" "hend (m_size h) bp \<le> lim"
    and a: "\<forall>y\<in>set as. y < bp \<and> hend (m_size h) y \<le> haddr bp" and b: "\<forall>y\<in>set bs. bp < y \<and> hend (m_size h) bp \<le> haddr y"
  defines "h1 \<equiv> link_next bp (hd (bs @ [base])) h"
  shows "\<exists>bs1. ready base lim h1 as bp bs1 \<and> set bs1 \<subseteq> set bs \<and> (\<exists>v w. h1 = h\<lparr>m_size := (m_size h)(bp := v), m_ptr := (m_ptr h)(bp := w)\<rparr>) \<and>
    span (m_size h1) bp \<union> spans h1 bs1 = span (m_size h) bp \<union> spans h bs \<and> unat (m_size h bp) \<le> unat (m_size h1 bp)"
proof -
  let ?sz = "m_size h"
  have c: "chain (m_ptr h) base (as @ bs) base" and s: "sorted_wrt (\<lambda>x y. hend ?sz x < haddr y) (base # as @ bs)"
    and z: "?sz base = 0" "\<forall>y\<in>set (as @ bs). ?sz y \<noteq> 0 \<and> hend ?sz y \<le> lim" using f by (auto simp: flist_def)
  have ca: "chain (m_ptr h) base as (hd (bs @ [base]))" using c by (cases bs) (simp_all add: chain_append)
  have "\<exists>bs1. chain (m_ptr h1) bp bs1 base \<and> sorted_wrt (\<lambda>x y. hend (m_size h1) x < haddr y) (bp # bs1) \<and> set bs1 \<subseteq> set bs \<and>
    (\<exists>v w. h1 = h\<lparr>m_size := ?sz(bp := v), m_ptr := (m_ptr h)(bp := w)\<rparr>) \<and> span (m_size h1) bp \<union> spans h1 bs1 = span ?sz bp \<union> spans h bs \<and>
    hend (m_size h1) bp \<le> lim \<and> unat (?sz bp) \<le> unat (m_size h1 bp)"
    unfolding h1_def
  proof (rule link_next_ok)
    show "case bs of [] \<Rightarrow> True | b # bs' \<Rightarrow> chain (m_ptr h) b bs' base" using c by (cases bs) (auto simp: chain_append)
    show "sorted_wrt (\<lambda>x y. hend ?sz x < haddr y) bs" using s by (simp add: sorted_wrt_append)
  qed (use a b z bp l in auto)
  then obtain bs1 v w where h1: "chain (m_ptr h1) bp bs1 base" "sorted_wrt (\<lambda>x y. hend (m_size h1) x < haddr y) (bp # bs1)" "set bs1 \<subseteq> set bs"
    "h1 = h\<lparr>m_size := ?sz(bp := v), m_ptr := (m_ptr h)(bp := w)\<rparr>" "span (m_size h1) bp \<union> spans h1 bs1 = span ?sz bp \<union> spans h bs"
    "hend (m_size h1) bp \<le> lim" "unat (?sz bp) \<le> unat (m_size h1 bp)" by blast
  have o: "m_size h1 y = ?sz y" "hend (m_size h1) y = hend ?sz y" if "y \<noteq> bp" for y using h1(4) that by (simp_all add: hend_def)
  have bpn: "bp \<notin> set (base # as)" "bp \<notin> set bs" using a b bp(1) by auto
  then have oa: "y \<noteq> bp" if "y \<in> set (base # as)" for y using that by auto
  have "ready base lim h1 as bp bs1"
    unfolding ready_def
  proof (intro conjI ballI)
    show "\<exists>z. chain (m_ptr h1) base as z" using ca bpn h1(4) by (intro exI[of _ "hd (bs @ [base])"]) simp
    show "sorted_wrt (\<lambda>x y. hend (m_size h1) x < haddr y) (base # as)"
      by (rule sorted_gap_cong[of ?sz]) (use s o(2)[OF oa] in \<open>auto simp: sorted_wrt_append\<close>)
    show "hend (m_size h1) y \<le> haddr bp" "m_size h1 y \<noteq> 0" if "y \<in> set as" for y using a z(2) o[OF oa, of y] that by auto
    have bz: "m_size h1 bp \<noteq> 0" using h1(7) bp(2) by (auto simp: unat_eq_zero)
    show "hend (m_size h1) y \<le> lim" "m_size h1 y \<noteq> 0" if "y \<in> set (bp # bs1)" for y
      using h1(3,6) bz z(2) o[of y] that bpn(2) by (cases "y = bp"; auto)+
  qed (use h1(1,2) z(1) o(1)[OF oa] bp(1) l in auto)
  then show ?thesis using h1 by blast
qed

lemma free_ok:
  assumes f: "flist base lim h ys" and l: "lim < 2 ^ 32" and ap: "ap = bp + 8" "base < bp" "m_size h bp \<noteq> 0" "hend (m_size h) bp \<le> lim"
    and dis: "span (m_size h) bp \<inter> spans h ys = {}"
  shows "\<exists>h'. free ap h = Some h' \<and> freed base lim h ys bp h'"
proof -
  let ?sz = "m_size h"
  obtain as bs where ys: "ys = as @ bs" "\<forall>y\<in>set as. y < bp \<and> hend ?sz y \<le> haddr bp" "\<forall>y\<in>set bs. bp < y \<and> hend ?sz bp \<le> haddr y"
    using place[OF f ap(3) dis] by blast
  have c: "chain (m_ptr h) base (as @ bs) base" and s: "sorted_wrt (\<lambda>x y. hend ?sz x < haddr y) (base # as @ bs)" and fp: "freep h \<in> set (base # as @ bs)"
    using f by (auto simp: flist_def ys(1))
  define p where "p = last (base # as)"
  have p: "p \<in> set (base # as)" by (simp add: p_def)
  have ff: "free_find h bp (freep h) = Some p"
    unfolding p_def by (rule free_find_ok[OF c sorted_gap(1)[OF s]]) (use ys ap(2) fp in auto)
  have "chain (m_ptr h) base as (hd (bs @ [base]))" using c by (cases bs) (simp_all add: chain_append)
  then have nx: "m_ptr h p = hd (bs @ [base])" unfolding p_def by (rule chain_last)
  define h1 where "h1 = link_next bp (hd (bs @ [base])) h"
  obtain bs1 v w where h1: "ready base lim h1 as bp bs1" "set bs1 \<subseteq> set bs" "h1 = h\<lparr>m_size := ?sz(bp := v), m_ptr := (m_ptr h)(bp := w)\<rparr>"
    "span (m_size h1) bp \<union> spans h1 bs1 = span ?sz bp \<union> spans h bs" "unat (?sz bp) \<le> unat (m_size h1 bp)"
    using link_next_ready[OF f[unfolded ys(1)] l ap(2-4) ys(2,3)] unfolding h1_def by blast
  have "linked base lim h1 as bp bs1" using link_apart[OF h1(1)] link_merge[OF h1(1)] by blast
  then obtain ys' v' w' where h2: "flist base lim ((link_prev bp p h1)\<lparr>freep := p\<rparr>) ys'"
    "link_prev bp p h1 = h1\<lparr>m_size := (m_size h1)(p := v'), m_ptr := (m_ptr h1)(p := w')\<rparr>"
    "spans (link_prev bp p h1) ys' = spans h1 as \<union> span (m_size h1) bp \<union> spans h1 bs1" "\<exists>y\<in>set ys'. unat (m_size h1 bp) \<le> unat (m_size (link_prev bp p h1) y)"
    unfolding linked_def Let_def p_def[symmetric] by blast
  let ?h' = "(link_prev bp p h1)\<lparr>freep := p\<rparr>"
  have "free ap h = Some ?h'" using ff nx by (simp add: free_def ap(1) free_link_eq h1_def)
  moreover have "span (m_size h1) y = span ?sz y" if "y \<in> set as" for y using ready_facts(4)[OF h1(1)] h1(3) that by (auto simp: span_def hend_def)
  then have "spans h1 as = spans h as" by (simp add: spans_def)
  then have "spans ?h' ys' = spans h ys \<union> span ?sz bp" using h2(3) h1(4) by (auto simp: spans_def ys(1))
  moreover have "m_size ?h' q = ?sz q" if "q \<notin> insert bp (set (base # ys))" for q using that p h2(2) h1(3) ys(1) by auto
  moreover have "\<exists>y\<in>set ys'. unat (?sz bp) \<le> unat (m_size ?h' y)" using h2(4) h1(5) by (auto intro: order_trans)
  moreover have "brk ?h' = brk h" using h2(2) h1(3) by simp
  ultimately show ?thesis using h2(1) unfolding freed_def by blast
qed

section \<open>Taking a block\<close>

lemma sorted_gap_apart:
  "sorted_wrt (\<lambda>x y. hend sz x < haddr y) xs \<Longrightarrow> x \<in> set xs \<Longrightarrow> y \<in> set xs \<Longrightarrow> x \<noteq> y \<Longrightarrow> hend sz x < haddr y \<or> hend sz y < haddr x"
  by (induction xs) auto

lemma spans_disjoint:
  assumes "flist base lim h ys" "x \<in> set ys" "y \<in> set ys" "x \<noteq> y"
  shows "span (m_size h) x \<inter> span (m_size h) y = {}"
  using assms sorted_gap_apart[of "m_size h" ys x y] by (auto simp: flist_def span_def)

lemma chain_pred:
  assumes c: "chain m x ys z" and z: "z \<notin> set ys" and u: "u \<in> set (x # ys)" "m u \<in> set ys"
  shows "\<exists>as bs. ys = as @ m u # bs \<and> u = last (x # as)"
proof -
  obtain us vs where s: "x # ys = us @ u # vs" using split_list[OF u(1)] by blast
  have "chain m u vs z" using c s by (cases us) (auto simp: chain_append)
  then obtain vs' where "vs = m u # vs'" using u(2) z by (cases vs) auto
  then have "ys = tl (us @ [u]) @ m u # vs' \<and> u = last (x # tl (us @ [u]))" using s by (cases us) auto
  then show ?thesis by blast
qed

definition taken :: "uint \<Rightarrow> nat \<Rightarrow> heap \<Rightarrow> uint list \<Rightarrow> uint \<Rightarrow> uint \<Rightarrow> heap \<Rightarrow> bool" where
  "taken base lim h ys n q h' \<longleftrightarrow> m_size h' q = n \<and> base < q \<and> span (m_size h') q \<subseteq> spans h ys \<and> brk h' = brk h \<and>
     (\<exists>ys'. flist base lim h' ys' \<and> spans h' ys' = spans h ys - span (m_size h') q) \<and>
     (\<forall>x. x \<notin> insert q (set (base # ys)) \<longrightarrow> m_size h' x = m_size h x)"

lemma take_all:
  assumes f: "flist base lim h ys" and p: "m_ptr h prevp = p" "p \<in> set ys" "prevp \<in> set (base # ys)" "m_size h p = n"
  shows "\<exists>h'. malloc_take n prevp p h = (p + 8, h') \<and> taken base lim h ys n p h'"
proof -
  let ?sz = "m_size h" and ?h' = "h\<lparr>m_ptr := (m_ptr h)(prevp := m_ptr h p), freep := prevp\<rparr>"
  have c: "chain (m_ptr h) base ys base" and s: "sorted_wrt (\<lambda>x y. hend ?sz x < haddr y) (base # ys)" using f by (auto simp: flist_def)
  note d = sorted_gap[OF s]
  obtain as bs where ys: "ys = as @ p # bs" "prevp = last (base # as)" using chain_pred[OF c _ p(3)] p(1,2) d(2) by auto
  have da: "distinct (base # as)" "prevp \<in> set (base # as)" "prevp \<notin> set (p # bs)" using d(2) ys last_in_set[of "base # as"] by auto
  have ca: "chain (m_ptr h) base as p" "chain (m_ptr h) p bs base" using c ys(1) by (auto simp: chain_append)
  have "chain (m_ptr ?h') base as (m_ptr h p)" by (rule chain_relink[OF ca(1) da(1)]) (auto simp: ys(2))
  moreover have "case bs of [] \<Rightarrow> m_ptr h p = base | x # bs' \<Rightarrow> m_ptr h p = x \<and> chain (m_ptr ?h') x bs' base"
    using ca(2) da(3) by (cases bs) auto
  ultimately have ch: "chain (m_ptr ?h') base (as @ bs) base" by (cases bs) (auto simp: chain_append)
  have "sorted_wrt (\<lambda>x y. hend ?sz x < haddr y) (base # as @ bs)" using s by (auto simp: ys(1) sorted_wrt_append)
  then have fl: "flist base lim ?h' (as @ bs)" using f ch da(2) by (auto simp: flist_def ys(1))
  have "span ?sz p \<inter> span ?sz y = {}" if "y \<in> set (as @ bs)" for y
    by (rule spans_disjoint[OF f]) (use that ys(1) d(2) in auto)
  then have "spans ?h' (as @ bs) = spans h ys - span ?sz p" by (auto simp: spans_def ys(1))
  moreover have "base < p" using d(1) p(2) by simp
  moreover have "span ?sz p \<subseteq> spans h ys" using p(2) by (auto simp: spans_def)
  ultimately have "taken base lim h ys n p ?h'" using fl p(4) by (auto simp: taken_def)
  then show ?thesis using p(4) by (simp add: malloc_take_def hadd_def)
qed

lemma take_end:
  assumes f: "flist base lim h ys" and l: "lim < 2 ^ 32" and p: "p \<in> set ys" "prevp \<in> set (base # ys)" "n < m_size h p" "n \<noteq> 0"
  shows "\<exists>q h'. malloc_take n prevp p h = (q + 8, h') \<and> taken base lim h ys n q h'"
proof -
  let ?sz = "m_size h"
  define q where "q = hadd p (?sz p - n)"
  define h' where "h' = h\<lparr>m_size := ?sz(p := ?sz p - n, q := n), freep := prevp\<rparr>"
  have u: "unat (?sz p - n) = unat (?sz p) - unat n" "unat n < unat (?sz p)" "0 < unat n" using unat_sub[of n "?sz p"] p(3,4) by (auto simp: word_less_nat_alt unat_gt_0 less_imp_le)
  have pE: "hend ?sz p \<le> lim" using f p(1) by (auto simp: flist_def)
  have q: "haddr q = haddr p + 8 * (unat (?sz p) - unat n)" using pE l u unat_hadd[of p "?sz p - n"] by (simp add: q_def haddr_def hend_def)
  have qp: "haddr p < haddr q" "haddr q < hend ?sz p" using q u by (auto simp: haddr_def hend_def)
  have s: "sorted_wrt (\<lambda>x y. hend ?sz x < haddr y) (base # ys)" using f by (auto simp: flist_def)
  have qn: "q \<notin> set (base # ys)" using sorted_gap_apart[OF s, of p q] p(1) qp hend_ge[of q ?sz] by auto
  have pb: "p \<noteq> base" using sorted_gap(2)[OF s] p(1) by auto
  have o: "m_size h' y = ?sz y" "hend (m_size h') y = hend ?sz y" "span (m_size h') y = span ?sz y" if "y \<noteq> p" "y \<noteq> q" for y
    using that by (simp_all add: h'_def hend_def span_def)
  have p': "hend (m_size h') p = haddr q" "hend (m_size h') q = hend ?sz p" "m_size h' p \<noteq> 0" using q u qp by (auto simp: h'_def hend_def haddr_def)
  have "sorted_wrt (\<lambda>x y. hend (m_size h') x < haddr y) (base # ys)"
  proof (rule sorted_wrt_mono_rel[OF _ s])
    fix x y assume x: "x \<in> set (base # ys)" "hend ?sz x < haddr y"
    then have "x \<noteq> q" using qn by blast
    then show "hend (m_size h') x < haddr y" using x(2) o(2)[of x] p'(1) qp by (cases "x = p") auto
  qed
  moreover have "m_size h' y \<noteq> 0 \<and> hend (m_size h') y \<le> lim" if "y \<in> set ys" for y
  proof (cases "y = p")
    case False
    moreover have "y \<noteq> q" using qn that by auto
    ultimately show ?thesis using f that o[of y] by (auto simp: flist_def)
  qed (use p' qp pE in auto)
  ultimately have fl: "flist base lim h' ys" using f o(1)[of base] pb qn p(2) by (auto simp: flist_def h'_def)
  have sp: "span (m_size h') q \<inter> span (m_size h') y = {}" if "y \<in> set ys" for y
  proof (cases "y = p")
    case False
    then have "span ?sz p \<inter> span ?sz y = {}" "y \<noteq> q" using spans_disjoint[OF f p(1) that] qn that by auto
    then show ?thesis using False o(3)[of y] qp p'(2) by (auto simp: span_def)
  qed (auto simp: span_def p')
  have "span (m_size h') q \<union> span (m_size h') p = span ?sz p" using qp by (auto simp: span_def p')
  moreover have "span (m_size h') y = span ?sz y" if "y \<in> set ys" "y \<noteq> p" for y using o(3) qn that by auto
  ultimately have un: "spans h' ys \<union> span (m_size h') q = spans h ys" using p(1) unfolding spans_def by fastforce
  moreover have "spans h' ys \<inter> span (m_size h') q = {}" using sp by (auto simp: spans_def)
  ultimately have "spans h' ys = spans h ys - span (m_size h') q" "span (m_size h') q \<subseteq> spans h ys" by blast+
  moreover have "base < q" using sorted_gap(1)[OF s] p(1) qp(1) by (force simp: haddr_def word_less_nat_alt)
  ultimately have "taken base lim h ys n q h'" using fl o(1) p(1) by (auto simp: taken_def h'_def)
  moreover have "malloc_take n prevp p h = (q + 8, h')"
    using less_imp_neq[OF p(3)] by (simp add: malloc_take_def hadd_def[of _ 1] q_def h'_def Let_def)
  ultimately show ?thesis by blast
qed

text \<open>One round of the loop over the list, from the block behind \<open>q\<close> to \<open>freep\<close>, finds a block or asks for more memory.\<close>

lemma malloc_round:
  assumes "chain (m_ptr h) q zs (freep h)" "freep h \<notin> set zs"
  shows "(\<exists>prevp p. p \<in> set (freep h # zs) \<and> prevp \<in> set (q # zs) \<and> m_ptr h prevp = p \<and> n \<le> m_size h p \<and>
       malloc_loop grow n q (m_ptr h q) h = Some (malloc_take n prevp p h)) \<or>
    (\<forall>p\<in>set (freep h # zs). m_size h p < n) \<and>
       malloc_loop grow n q (m_ptr h q) h = Option.bind (morecore grow n h) (\<lambda>(p, h). if p = 0 then Some (0, h) else malloc_loop grow n p (m_ptr h p) h)"
  using assms
proof (induction zs arbitrary: q)
  case Nil
  then have q: "m_ptr h q = freep h" by simp
  show ?case by (subst (1 2) malloc_loop.simps) (use q in \<open>auto simp: not_le\<close>)
next
  case (Cons z zs)
  then have q: "m_ptr h q = z" "z \<noteq> freep h" "chain (m_ptr h) z zs (freep h)" "freep h \<notin> set zs" by auto
  show ?case
  proof (cases "n \<le> m_size h z")
    case True
    then have "malloc_loop grow n q z h = Some (malloc_take n q z h)" by (subst malloc_loop.simps) simp
    then show ?thesis using True q(1) by auto
  next
    case False
    then have "malloc_loop grow n q z h = malloc_loop grow n z (m_ptr h z) h" using q(2) by (subst malloc_loop.simps) simp
    then show ?thesis using Cons.IH[OF q(3,4)] q(1) False by (auto simp: not_le)
  qed
qed

lemma rotate_list:
  assumes "flist base lim h ys"
  shows "\<exists>zs. chain (m_ptr h) (freep h) zs (freep h) \<and> freep h \<notin> set zs \<and> set (freep h # zs) = set (base # ys)"
proof -
  have c: "chain (m_ptr h) base ys base" "distinct (base # ys)" "freep h \<in> set (base # ys)" using assms sorted_gap(2)[of "m_size h" "base # ys"] by (auto simp: flist_def)
  show ?thesis
  proof (cases "freep h = base")
    case False
    then obtain us vs where u: "ys = us @ freep h # vs" using c(3) by (auto dest: split_list)
    have "chain (m_ptr h) (freep h) (vs @ base # us) (freep h)" using c(1) by (simp add: u chain_append)
    then show ?thesis using c(2) u by (intro exI[of _ "vs @ base # us"]) auto
  qed (use c in auto)
qed

lemma malloc_found:
  assumes f: "flist base lim h ys" and l: "lim < 2 ^ 32" and n: "n \<noteq> 0" and ex: "\<exists>y\<in>set ys. n \<le> m_size h y"
  shows "\<exists>q h'. malloc_loop grow n (freep h) (m_ptr h (freep h)) h = Some (q + 8, h') \<and> taken base lim h ys n q h'"
proof -
  obtain zs where zs: "chain (m_ptr h) (freep h) zs (freep h)" "freep h \<notin> set zs" "set (freep h # zs) = set (base # ys)" using rotate_list[OF f] by blast
  have "\<not> (\<forall>p\<in>set (base # ys). m_size h p < n)" using ex by (auto simp: not_less)
  then obtain prevp p where p: "p \<in> set (base # ys)" "prevp \<in> set (base # ys)" "m_ptr h prevp = p" "n \<le> m_size h p"
    "malloc_loop grow n (freep h) (m_ptr h (freep h)) h = Some (malloc_take n prevp p h)"
    using malloc_round[OF zs(1,2), of n grow] unfolding zs(3) by blast
  have "p \<in> set ys" using p(1,4) n f by (auto simp: flist_def)
  then show ?thesis using take_all[OF f p(3) _ p(2)] take_end[OF f l _ p(2) _ n, of p] p(4,5) by (cases "m_size h p = n") fastforce+
qed

section \<open>Live and free memory\<close>

definition mblock :: "heap \<Rightarrow> uint \<Rightarrow> nat set" where
  "mblock h ap = span (m_size h) (ap - 8)"

text \<open>The blocks of the live pointers \<open>L\<close> and the free ones make up the memory from \<open>b0\<close> to the break, and none overlaps another.\<close>

definition heap_ok :: "uint \<Rightarrow> nat \<Rightarrow> heap \<Rightarrow> uint list \<Rightarrow> uint set \<Rightarrow> bool" where
  "heap_ok base b0 h ys L \<longleftrightarrow> base \<noteq> 0 \<and> haddr base < b0 \<and> b0 \<le> unat (brk h) \<and> unat (brk h) \<le> 2 ^ 31 \<and> flist base (unat (brk h)) h ys \<and>
     spans h ys \<union> (\<Union>ap\<in>L. mblock h ap) = {b0..<unat (brk h)} \<and> (\<forall>ap\<in>L. spans h ys \<inter> mblock h ap = {} \<and> m_size h (ap - 8) \<noteq> 0) \<and>
     (\<forall>a\<in>L. \<forall>b\<in>L. a \<noteq> b \<longrightarrow> mblock h a \<inter> mblock h b = {})"

lemma head_in_span: "sz p \<noteq> 0 \<Longrightarrow> haddr p \<in> span sz p"
  by (simp add: span_def haddr_def hend_def unat_gt_0)

lemma heap_okD:
  assumes ok: "heap_ok base b0 h ys L"
  shows "flist base (unat (brk h)) h ys" "unat (brk h) < 2 ^ 32" "x \<in> set ys \<Longrightarrow> haddr x \<in> spans h ys" "haddr base < b0"
    "ap \<in> L \<Longrightarrow> haddr (ap - 8) \<in> mblock h ap" "ap \<in> L \<Longrightarrow> ap - 8 \<notin> set (base # ys)" "ap \<in> L \<Longrightarrow> base < ap - 8" "ap \<in> L \<Longrightarrow> hend (m_size h) (ap - 8) \<le> unat (brk h)"
    "ap \<in> L \<Longrightarrow> mblock h ap \<subseteq> {b0..<unat (brk h)}" "spans h ys \<subseteq> {b0..<unat (brk h)}"
proof -
  show f: "flist base (unat (brk h)) h ys" and "unat (brk h) < 2 ^ 32" and b: "haddr base < b0" using ok by (auto simp: heap_ok_def)
  show y: "x \<in> set ys \<Longrightarrow> haddr x \<in> spans h ys" for x using f head_in_span[of "m_size h" x] by (auto simp: flist_def spans_def)
  show sub: "ap \<in> L \<Longrightarrow> mblock h ap \<subseteq> {b0..<unat (brk h)}" "spans h ys \<subseteq> {b0..<unat (brk h)}" for ap using ok by (auto simp: heap_ok_def)
  show m: "ap \<in> L \<Longrightarrow> haddr (ap - 8) \<in> mblock h ap" for ap using ok head_in_span[of "m_size h" "ap - 8"] by (auto simp: heap_ok_def mblock_def)
  show lt: "ap \<in> L \<Longrightarrow> base < ap - 8" using m[of ap] sub(1)[of ap] b by (auto simp: haddr_def word_less_nat_alt)
  show "ap \<in> L \<Longrightarrow> ap - 8 \<notin> set (base # ys)" using m[of ap] y[of "ap - 8"] lt ok by (auto simp: heap_ok_def)
  show "hend (m_size h) (ap - 8) \<le> unat (brk h)" if "ap \<in> L"
  proof -
    have "haddr (ap - 8) < hend (m_size h) (ap - 8)" using m[OF that] by (simp add: mblock_def span_def)
    then have "hend (m_size h) (ap - 8) - 1 \<in> mblock h ap" by (auto simp: mblock_def span_def)
    then have "hend (m_size h) (ap - 8) - 1 < unat (brk h)" using sub(1)[OF that] by auto
    then show ?thesis by simp
  qed
qed

lemma taken_ok:
  assumes ok: "heap_ok base b0 h ys L" and t: "taken base (unat (brk h)) h ys n q h'" and n: "n \<noteq> 0"
  shows "\<exists>ys'. heap_ok base b0 h' ys' (insert (q + 8) L)" "q + 8 \<notin> L" "m_size h' q = n" "\<forall>ap\<in>L. mblock h' ap = mblock h ap"
proof -
  note d = heap_okD[OF ok]
  show sz: "m_size h' q = n" using t by (simp add: taken_def)
  have sp: "span (m_size h') q \<subseteq> spans h ys" "haddr q \<in> span (m_size h') q" using t n head_in_span[of "m_size h'" q] by (auto simp: taken_def)
  have dis: "spans h ys \<inter> mblock h ap = {}" if "ap \<in> L" for ap using ok that by (simp add: heap_ok_def)
  have nq: "ap - 8 \<noteq> q" if "ap \<in> L" for ap using d(5)[OF that] dis[OF that] sp by auto
  then show "q + 8 \<notin> L" by force
  show k: "\<forall>ap\<in>L. mblock h' ap = mblock h ap"
  proof
    fix ap assume ap: "ap \<in> L"
    then have "m_size h' (ap - 8) = m_size h (ap - 8)" using t d(6)[OF ap] nq[OF ap] by (auto simp: taken_def)
    then show "mblock h' ap = mblock h ap" by (simp add: mblock_def span_def hend_def)
  qed
  obtain ys' where ys': "flist base (unat (brk h)) h' ys'" "spans h' ys' = spans h ys - span (m_size h') q" using t by (auto simp: taken_def)
  have mq: "mblock h' (q + 8) = span (m_size h') q" by (simp add: mblock_def)
  have "heap_ok base b0 h' ys' (insert (q + 8) L)"
    unfolding heap_ok_def
  proof (intro conjI ballI impI)
    show "spans h' ys' \<union> (\<Union>ap\<in>insert (q + 8) L. mblock h' ap) = {b0..<unat (brk h')}"
      using ok k ys'(2) sp(1) t by (auto simp: heap_ok_def taken_def mq)
    show "spans h' ys' \<inter> mblock h' ap = {}" if "ap \<in> insert (q + 8) L" for ap using that ys'(2) k dis[of ap] mq by auto
    show "m_size h' (ap - 8) \<noteq> 0" if "ap \<in> insert (q + 8) L" for ap
    proof (cases "ap = q + 8")
      case False
      then have ap: "ap \<in> L" using that by simp
      then have "m_size h' (ap - 8) = m_size h (ap - 8)" using t d(6)[OF ap] nq[OF ap] by (auto simp: taken_def)
      then show ?thesis using ok ap by (simp add: heap_ok_def)
    qed (use sz n in simp)
    have "mblock h a \<inter> mblock h b = {}" if "a \<in> L" "b \<in> L" "a \<noteq> b" for a b using ok that by (simp add: heap_ok_def)
    moreover have "span (m_size h') q \<inter> mblock h b = {}" if "b \<in> L" for b using dis[OF that] sp(1) by blast
    ultimately show "mblock h' a \<inter> mblock h' b = {}" if "a \<in> insert (q + 8) L" "b \<in> insert (q + 8) L" "a \<noteq> b" for a b
      using that k mq by (metis inf_commute insertE)
  qed (use ok ys'(1) t in \<open>auto simp: heap_ok_def taken_def\<close>)
  then show "\<exists>ys'. heap_ok base b0 h' ys' (insert (q + 8) L)" by blast
qed

lemma freed_ok:
  assumes ok: "heap_ok base b0 h ys L" and ap: "ap \<in> L"
  shows "\<exists>h' ys'. free ap h = Some h' \<and> heap_ok base b0 h' ys' (L - {ap}) \<and> (\<forall>x\<in>L - {ap}. mblock h' x = mblock h x) \<and> brk h' = brk h \<and>
    (\<exists>y\<in>set ys'. unat (m_size h (ap - 8)) \<le> unat (m_size h' y))"
proof -
  note d = heap_okD[OF ok]
  have "span (m_size h) (ap - 8) \<inter> spans h ys = {}" "m_size h (ap - 8) \<noteq> 0" using ok ap by (auto simp: heap_ok_def mblock_def)
  then obtain h' where h': "free ap h = Some h'" "freed base (unat (brk h)) h ys (ap - 8) h'"
    using free_ok[OF d(1,2) _ d(7)[OF ap] _ d(8)[OF ap], of ap] by auto
  then obtain ys' where ys': "flist base (unat (brk h)) h' ys'" "spans h' ys' = spans h ys \<union> mblock h ap" "\<exists>y\<in>set ys'. unat (m_size h (ap - 8)) \<le> unat (m_size h' y)"
    "brk h' = brk h" by (auto simp: freed_def mblock_def)
  have sz: "m_size h' (x - 8) = m_size h (x - 8)" if "x \<in> L - {ap}" for x
    using h'(2) d(6)[of x] that by (auto simp: freed_def)
  then have k: "mblock h' x = mblock h x" if "x \<in> L - {ap}" for x using that by (simp add: mblock_def span_def hend_def)
  have "heap_ok base b0 h' ys' (L - {ap})"
    unfolding heap_ok_def
  proof (intro conjI ballI impI)
    have "(\<Union>x\<in>L - {ap}. mblock h' x) = (\<Union>x\<in>L - {ap}. mblock h x)" using k by simp
    then show "spans h' ys' \<union> (\<Union>x\<in>L - {ap}. mblock h' x) = {b0..<unat (brk h')}"
      using ok ys'(2,4) ap by (auto simp: heap_ok_def)
    have "mblock h ap \<inter> mblock h x = {}" "spans h ys \<inter> mblock h x = {}" "m_size h (x - 8) \<noteq> 0" if "x \<in> L - {ap}" for x
      using that ok ap unfolding heap_ok_def by blast+
    then show "spans h' ys' \<inter> mblock h' x = {}" "m_size h' (x - 8) \<noteq> 0" if "x \<in> L - {ap}" for x
      using that ys'(2) k[OF that] sz[OF that] by (simp_all add: Int_Un_distrib2)
    show "mblock h' a \<inter> mblock h' b = {}" if "a \<in> L - {ap}" "b \<in> L - {ap}" "a \<noteq> b" for a b using that k ok by (simp add: heap_ok_def)
  qed (use ok ys'(1,4) in \<open>auto simp: heap_ok_def\<close>)
  then show ?thesis using h'(1) ys' k by blast
qed

lemma flist_more:
  assumes f: "flist base lim h ys" and p: "p \<notin> set (base # ys)" and l: "lim \<le> lim'"
  shows "flist base lim' (h\<lparr>brk := b, m_size := (m_size h)(p := v)\<rparr>) ys" "spans (h\<lparr>brk := b, m_size := (m_size h)(p := v)\<rparr>) ys = spans h ys"
proof -
  let ?h = "h\<lparr>brk := b, m_size := (m_size h)(p := v)\<rparr>"
  have e: "m_size ?h y = m_size h y" "hend (m_size ?h) y = hend (m_size h) y" "span (m_size ?h) y = span (m_size h) y" if "y \<in> set (base # ys)" for y
    using p that by (auto simp: hend_def span_def)
  have s: "sorted_wrt (\<lambda>x y. hend (m_size h) x < haddr y) (base # ys)" using f by (simp add: flist_def)
  have "sorted_wrt (\<lambda>x y. hend (m_size ?h) x < haddr y) (base # ys)" by (rule sorted_gap_cong[OF s]) (rule e(2))
  moreover have "\<forall>y\<in>set ys. m_size ?h y \<noteq> 0 \<and> hend (m_size ?h) y \<le> lim'" using f e l by (fastforce simp: flist_def)
  ultimately show "flist base lim' ?h ys" using f e(1)[of base] by (simp add: flist_def)
  show "spans ?h ys = spans h ys" using e(3) by (simp add: spans_def)
qed

text \<open>More core is a live block that is given back at once.\<close>

lemma core_ok:
  assumes ok: "heap_ok base b0 h ys L" and b1: "unat (brk h) + 8 * unat nu \<le> 2 ^ 31" and nu: "nu \<noteq> 0"
  defines "h1 \<equiv> h\<lparr>brk := brk h + nu * 8, m_size := (m_size h)(brk h := nu)\<rparr>"
  shows "heap_ok base b0 h1 ys (insert (brk h + 8) L)" "\<forall>x\<in>L. mblock h1 x = mblock h x" "brk h + 8 \<notin> L" "m_size h1 (brk h) = nu"
    "unat (brk h1) = unat (brk h) + 8 * unat nu"
proof -
  let ?p = "brk h"
  note d = heap_okD[OF ok]
  have b: "b0 \<le> unat ?p" "unat ?p + 8 * unat nu \<le> 2 ^ 31" using ok b1 by (simp_all add: heap_ok_def)
  show u: "unat (brk h1) = unat ?p + 8 * unat nu" using b(2) by (simp add: h1_def unat_word_ariths)
  have pn: "?p \<notin> set (base # ys)" using d(3)[of ?p] d(4,10) b(1) by (auto simp: haddr_def)
  have pl: "x - 8 \<noteq> ?p" if "x \<in> L" for x using d(5,9)[OF that] by (auto simp: haddr_def)
  then show "?p + 8 \<notin> L" by force
  show mb: "\<forall>x\<in>L. mblock h1 x = mblock h x" using pl by (auto simp: mblock_def span_def hend_def h1_def)
  show sz: "m_size h1 ?p = nu" by (simp add: h1_def)
  have fl: "flist base (unat (brk h1)) h1 ys" "spans h1 ys = spans h ys" unfolding h1_def
    by (rule flist_more[OF d(1) pn, of "unat (brk h1)", unfolded h1_def]; use u in \<open>simp add: h1_def\<close>)+
  have mp: "mblock h1 (?p + 8) = {unat ?p..<unat (brk h1)}" using sz u by (simp add: mblock_def span_def haddr_def hend_def)
  show "heap_ok base b0 h1 ys (insert (?p + 8) L)"
    unfolding heap_ok_def
  proof (intro conjI ballI impI)
    have "spans h1 ys \<union> (\<Union>x\<in>insert (?p + 8) L. mblock h1 x) = (spans h ys \<union> (\<Union>x\<in>L. mblock h x)) \<union> {unat ?p..<unat (brk h1)}"
      using mb fl(2) mp by auto
    also have "\<dots> = {b0..<unat ?p} \<union> {unat ?p..<unat (brk h1)}" using ok by (simp add: heap_ok_def)
    finally show "spans h1 ys \<union> (\<Union>x\<in>insert (?p + 8) L. mblock h1 x) = {b0..<unat (brk h1)}" using b(1) u by auto
    have dj: "spans h ys \<inter> {unat ?p..<unat (brk h1)} = {}" "x \<in> L \<Longrightarrow> mblock h x \<inter> {unat ?p..<unat (brk h1)} = {}" for x using d(9)[of x] d(10) by auto
    have lv: "spans h ys \<inter> mblock h x = {}" "m_size h (x - 8) \<noteq> 0" if "x \<in> L" for x using ok that unfolding heap_ok_def by blast+
    show "spans h1 ys \<inter> mblock h1 x = {}" if "x \<in> insert (?p + 8) L" for x
      using that mb fl(2) mp dj(1) lv(1) by (cases "x = ?p + 8") simp_all
    show "m_size h1 (x - 8) \<noteq> 0" if "x \<in> insert (?p + 8) L" for x
      using that lv(2) pl nu sz by (cases "x = ?p + 8") (auto simp: h1_def)
    have "mblock h x \<inter> mblock h y = {}" if "x \<in> L" "y \<in> L" "x \<noteq> y" for x y using ok that unfolding heap_ok_def by blast
    then show "mblock h1 x \<inter> mblock h1 y = {}" if "x \<in> insert (?p + 8) L" "y \<in> insert (?p + 8) L" "x \<noteq> y" for x y
      using that mb mp dj(2) by (metis inf_commute insertE)
  qed (use ok fl(1) u b(2) in \<open>auto simp: heap_ok_def\<close>)
qed

text \<open>What is relied on of \<^verbatim>\<open>growproc\<close>: a process does not grow into the kernel's half of the address space.\<close>

definition below_kernel :: "(uint \<Rightarrow> uint \<Rightarrow> bool) \<Rightarrow> bool" where
  "below_kernel grow \<longleftrightarrow> (\<forall>b k. grow b k \<longrightarrow> unat k < 2 ^ 31 \<longrightarrow> unat b + unat k \<le> 2 ^ 31)"

lemma freep_nonzero:
  assumes "heap_ok base b0 h ys L"
  shows "freep h \<noteq> 0"
proof -
  have s: "sorted_wrt (\<lambda>x y. hend (m_size h) x < haddr y) (base # ys)" "freep h \<in> set (base # ys)" "base \<noteq> 0" using assms by (auto simp: heap_ok_def flist_def)
  then show ?thesis using sorted_gap(1)[OF s(1)] by auto
qed

lemma morecore_ok:
  assumes ok: "heap_ok base b0 h ys L" and g: "below_kernel grow" and n: "unat n < 2 ^ 28"
  shows "\<exists>r h'. morecore grow n h = Some (r, h') \<and> (r = 0 \<and> h' = h \<or>
    r = freep h' \<and> r \<noteq> 0 \<and> (\<exists>ys'. heap_ok base b0 h' ys' L \<and> (\<exists>y\<in>set ys'. n \<le> m_size h' y)) \<and> (\<forall>x\<in>L. mblock h' x = mblock h x))"
proof -
  define nu where "nu = (if n < 4096 then 4096 else n)"
  have nu: "n \<le> nu" "nu \<noteq> 0" "unat nu < 2 ^ 28" "unat (nu * 8) = 8 * unat nu"
    using n by (auto simp: nu_def unat_word_ariths not_less word_le_nat_alt word_less_nat_alt)
  show ?thesis
  proof (cases "grow (brk h) (nu * 8)")
    case False
    then have "morecore grow n h = Some (0, h)" by (simp add: morecore_def usbrk_def nu_def[symmetric] Let_def)
    then show ?thesis by blast
  next
    case True
    have b: "unat (brk h) + 8 * unat nu \<le> 2 ^ 31" using g True nu by (fastforce simp: below_kernel_def)
    have m1: "brk h \<noteq> -1" using b by (auto simp: unsigned_minus_1_eq_mask mask_eq_exp_minus_1)
    let ?h1 = "h\<lparr>brk := brk h + nu * 8, m_size := (m_size h)(brk h := nu)\<rparr>"
    note c = core_ok[OF ok b nu(2)]
    obtain h' ys' where f: "free (brk h + 8) ?h1 = Some h'" "heap_ok base b0 h' ys' L" "\<forall>x\<in>L. mblock h' x = mblock ?h1 x"
      "\<exists>y\<in>set ys'. unat nu \<le> unat (m_size h' y)"
      using freed_ok[OF c(1), of "brk h + 8"] c(3,4) by auto
    have "morecore grow n h = Some (freep h', h')"
      using True m1 f(1) by (simp add: morecore_def usbrk_def nu_def[symmetric] Let_def hadd_def)
    moreover have "\<exists>y\<in>set ys'. n \<le> m_size h' y" using f(4) nu(1) by (auto simp: word_le_nat_alt intro: order_trans)
    moreover have "\<forall>x\<in>L. mblock h' x = mblock h x" using f(3) c(2) by auto
    ultimately show ?thesis using f(2) freep_nonzero[OF f(2)] by blast
  qed
qed

definition got :: "uint \<Rightarrow> nat \<Rightarrow> uint \<Rightarrow> heap \<Rightarrow> uint set \<Rightarrow> uint \<Rightarrow> heap \<Rightarrow> bool" where
  "got base b0 n h L r h' \<longleftrightarrow> (\<exists>ys'. heap_ok base b0 h' ys' (insert r L)) \<and> r \<notin> L \<and> r \<noteq> 0 \<and> m_size h' (r - 8) = n \<and> (\<forall>x\<in>L. mblock h' x = mblock h x)"

lemma malloc_got:
  assumes ok: "heap_ok base b0 h ys L" and n: "n \<noteq> 0" and ex: "\<exists>y\<in>set ys. n \<le> m_size h y"
  shows "\<exists>r h'. malloc_loop grow n (freep h) (m_ptr h (freep h)) h = Some (r, h') \<and> got base b0 n h L r h'"
proof -
  obtain q h' where q: "malloc_loop grow n (freep h) (m_ptr h (freep h)) h = Some (q + 8, h')" "taken base (unat (brk h)) h ys n q h'"
    using malloc_found[OF heap_okD(1,2)[OF ok] n ex] by blast
  note t = taken_ok[OF ok q(2) n]
  obtain ys' where ys': "heap_ok base b0 h' ys' (insert (q + 8) L)" using t(1) by blast
  have "hend (m_size h') q \<le> 2 ^ 31" using heap_okD(8)[OF ys', of "q + 8"] ys' by (simp add: heap_ok_def)
  then have "q + 8 \<noteq> 0" by (auto simp: hend_def add_eq_0_iff2)
  then show ?thesis using q(1) t ys' by (auto simp: got_def)
qed

lemma malloc_loop_ok:
  assumes ok: "heap_ok base b0 h ys L" and g: "below_kernel grow" and n: "n \<noteq> 0" "unat n < 2 ^ 28"
  shows "\<exists>r h'. malloc_loop grow n (freep h) (m_ptr h (freep h)) h = Some (r, h') \<and> (r = 0 \<and> h' = h \<or> got base b0 n h L r h')"
proof (cases "\<exists>y\<in>set ys. n \<le> m_size h y")
  case True
  then show ?thesis using malloc_got[OF ok n(1)] by blast
next
  case False
  obtain zs where zs: "chain (m_ptr h) (freep h) zs (freep h)" "freep h \<notin> set zs" "set (freep h # zs) = set (base # ys)"
    using rotate_list[OF heap_okD(1)[OF ok]] by blast
  have "m_size h base = 0" using ok by (simp add: heap_ok_def flist_def)
  then have "\<not> n \<le> m_size h p" if "p \<in> set (base # ys)" for p using False that n(1) by auto
  then have l: "malloc_loop grow n (freep h) (m_ptr h (freep h)) h =
    Option.bind (morecore grow n h) (\<lambda>(p, h). if p = 0 then Some (0, h) else malloc_loop grow n p (m_ptr h p) h)"
    using malloc_round[OF zs(1,2), of n grow] unfolding zs(3) by blast
  obtain r h1 where m: "morecore grow n h = Some (r, h1)" "r = 0 \<and> h1 = h \<or>
    r = freep h1 \<and> r \<noteq> 0 \<and> (\<exists>ys'. heap_ok base b0 h1 ys' L \<and> (\<exists>y\<in>set ys'. n \<le> m_size h1 y)) \<and> (\<forall>x\<in>L. mblock h1 x = mblock h x)"
    using morecore_ok[OF ok g n(2)] by blast
  from m(2) show ?thesis
  proof
    assume "r = 0 \<and> h1 = h"
    then show ?thesis using l m(1) by simp
  next
    assume r: "r = freep h1 \<and> r \<noteq> 0 \<and> (\<exists>ys'. heap_ok base b0 h1 ys' L \<and> (\<exists>y\<in>set ys'. n \<le> m_size h1 y)) \<and> (\<forall>x\<in>L. mblock h1 x = mblock h x)"
    then obtain r2 h2 where "malloc_loop grow n r (m_ptr h1 r) h1 = Some (r2, h2)" "got base b0 n h1 L r2 h2" using malloc_got[OF _ n(1)] by blast
    then show ?thesis using l m(1) r by (auto simp: got_def)
  qed
qed

section \<open>A program that uses the allocator\<close>

text \<open>The states a program reaches by calls of \<^verbatim>\<open>malloc\<close>, and of \<^verbatim>\<open>free\<close> on pointers it got from \<^verbatim>\<open>malloc\<close> and has not freed.\<close>

inductive uses :: "uint \<Rightarrow> nat \<Rightarrow> heap \<Rightarrow> uint set \<Rightarrow> bool" for base b0 where
  start: "freep h = 0 \<Longrightarrow> unat (brk h) = b0 \<Longrightarrow> uses base b0 h {}"
| malloc: "uses base b0 h L \<Longrightarrow> below_kernel grow \<Longrightarrow> unat nbytes < 2 ^ 31 - 16 \<Longrightarrow> malloc grow base nbytes h = Some (r, h') \<Longrightarrow>
    uses base b0 h' (if r = 0 then L else insert r L)"
| free: "uses base b0 h L \<Longrightarrow> ap \<in> L \<Longrightarrow> free ap h = Some h' \<Longrightarrow> uses base b0 h' (L - {ap})"

definition uses_ok :: "uint \<Rightarrow> nat \<Rightarrow> heap \<Rightarrow> uint set \<Rightarrow> bool" where
  "uses_ok base b0 h L \<longleftrightarrow> (if freep h = 0 then L = {} \<and> unat (brk h) = b0 else \<exists>ys. heap_ok base b0 h ys L)"

lemma nunits:
  fixes nbytes :: uint
  assumes "unat nbytes < 2 ^ 31 - 16"
  shows "unat ((nbytes + 8 - 1) div 8 + 1) = (unat nbytes + 7) div 8 + 1" "(nbytes + 8 - 1) div 8 + 1 \<noteq> 0" "unat ((nbytes + 8 - 1) div 8 + 1) < 2 ^ 28"
proof -
  have "unat (nbytes + 8 - 1) = unat nbytes + 7" using assms by (simp add: unat_word_ariths)
  then show u: "unat ((nbytes + 8 - 1) div 8 + 1) = (unat nbytes + 7) div 8 + 1" using assms by (simp add: unat_word_ariths unat_div)
  then show "(nbytes + 8 - 1) div 8 + 1 \<noteq> 0" by (metis add_is_0 unat_0 zero_neq_one)
  show "unat ((nbytes + 8 - 1) div 8 + 1) < 2 ^ 28" unfolding u using assms by simp
qed

lemma malloc_ok:
  assumes u: "uses_ok base b0 h L" and b: "base \<noteq> 0" "haddr base < b0" "b0 \<le> 2 ^ 31" and g: "below_kernel grow" and n: "unat nbytes < 2 ^ 31 - 16"
  shows "\<exists>r h'. malloc grow base nbytes h = Some (r, h') \<and> (\<forall>x\<in>L. mblock h' x = mblock h x) \<and>
    (r = 0 \<and> (\<exists>ys. heap_ok base b0 h' ys L) \<or> got base b0 ((nbytes + 8 - 1) div 8 + 1) h L r h')"
proof -
  define h0 where "h0 = (if freep h = 0 then h\<lparr>m_ptr := (m_ptr h)(base := base), freep := base, m_size := (m_size h)(base := 0)\<rparr> else h)"
  have "\<exists>ys. heap_ok base b0 h0 ys L"
  proof (cases "freep h = 0")
    case True
    then have "heap_ok base b0 h0 [] L" using u b by (simp add: uses_ok_def heap_ok_def flist_def spans_def h0_def)
    then show ?thesis by blast
  qed (use u in \<open>simp add: uses_ok_def h0_def\<close>)
  then obtain ys where ys: "heap_ok base b0 h0 ys L" by blast
  have k: "\<forall>x\<in>L. mblock h0 x = mblock h x" using u by (auto simp: uses_ok_def h0_def)
  have "malloc grow base nbytes h = malloc_loop grow ((nbytes + 8 - 1) div 8 + 1) (freep h0) (m_ptr h0 (freep h0)) h0"
    by (simp add: malloc_def h0_def Let_def)
  then show ?thesis using malloc_loop_ok[OF ys g nunits(2,3)[OF n]] ys k by (auto simp: got_def)
qed

lemma uses_invariant:
  assumes "uses base b0 h L" and b: "base \<noteq> 0" "haddr base < b0" "b0 \<le> 2 ^ 31"
  shows "uses_ok base b0 h L"
  using assms(1)
proof (induction rule: uses.induct)
  case (start h)
  then show ?case by (simp add: uses_ok_def)
next
  case (malloc h L grow nbytes r h')
  obtain r2 h2 where m: "malloc grow base nbytes h = Some (r2, h2)" "r2 = 0 \<and> (\<exists>ys. heap_ok base b0 h2 ys L) \<or> got base b0 ((nbytes + 8 - 1) div 8 + 1) h L r2 h2"
    using malloc_ok[OF malloc.IH b malloc.hyps(2,3)] by blast
  have e: "r2 = r" "h2 = h'" using m(1) malloc.hyps(4) by simp_all
  have "\<exists>ys. heap_ok base b0 h' ys (if r = 0 then L else insert r L)" using m(2) unfolding e got_def by (cases "r = 0") auto
  then obtain ys where "heap_ok base b0 h' ys (if r = 0 then L else insert r L)" by blast
  then show ?case using freep_nonzero unfolding uses_ok_def by metis
next
  case (free h L ap h')
  then obtain ys where "heap_ok base b0 h ys L" by (auto simp: uses_ok_def split: if_splits)
  from freed_ok[OF this free.hyps(2)] obtain ys' where "heap_ok base b0 h' ys' (L - {ap})" using free.hyps(3) by auto
  then show ?case using freep_nonzero unfolding uses_ok_def by metis
qed

lemma got_room:
  assumes g: "got base b0 ((nbytes + 8 - 1) div 8 + 1) h L r h'" and n: "unat nbytes < 2 ^ 31 - 16"
  shows "r \<notin> L \<and> {unat r..<unat r + unat nbytes} \<subseteq> mblock h' r \<and> mblock h' r \<subseteq> {b0..<unat (brk h')} \<and> (\<forall>a\<in>L. mblock h' r \<inter> mblock h' a = {})"
proof -
  let ?n = "(nbytes + 8 - 1) div 8 + 1"
  obtain ys where ys: "heap_ok base b0 h' ys (insert r L)" "r \<notin> L" "m_size h' (r - 8) = ?n" using g unfolding got_def by blast
  have e: "hend (m_size h') (r - 8) \<le> 2 ^ 31" using heap_okD(8)[OF ys(1), of r] ys(1) by (simp add: heap_ok_def)
  have "unat (r - 8 + 8) = unat (r - 8) + 8" using e by (subst unat_word_ariths(1)) (simp add: hend_def)
  define a where "a = haddr (r - 8)"
  define k where "k = unat ?n"
  have r: "unat r = a + 8" using \<open>unat (r - 8 + 8) = unat (r - 8) + 8\<close> by (simp add: a_def haddr_def)
  have l: "unat nbytes + 8 \<le> 8 * k" unfolding k_def nunits(1)[OF n] by simp
  have mb: "mblock h' r = {a..<a + 8 * k}" by (simp only: mblock_def span_def hend_def haddr_def ys(3) k_def a_def)
  have "{unat r..<unat r + unat nbytes} \<subseteq> mblock h' r" unfolding mb r using l by auto
  moreover have "\<forall>x\<in>insert r L. \<forall>y\<in>insert r L. x \<noteq> y \<longrightarrow> mblock h' x \<inter> mblock h' y = {}" using ys(1) by (simp add: heap_ok_def)
  then have "\<forall>x\<in>L. mblock h' r \<inter> mblock h' x = {}" using ys(2) by (metis insertI1 insertI2)
  ultimately show ?thesis using heap_okD(9)[OF ys(1), of r] ys(2) by blast
qed

lemma malloc_free_example:
  "\<exists>h1 h2. malloc (\<lambda>b n. unat b + unat n \<le> 2 ^ 31) 0x1000 100 \<lparr>m_ptr = (\<lambda>_. 0), m_size = (\<lambda>_. 0), freep = 0, brk = 0x3000\<rparr> = Some (0xAF98, h1) \<and>
     free 0xAF98 h1 = Some h2 \<and> freep h2 = 0x3000 \<and> brk h2 = 0xB000"
  by (simp add: malloc_def Let_def malloc_loop.simps[of _ _ "0x1000" "0x1000"] malloc_loop.simps[of _ _ "0x1000" "0x3000"] morecore_def usbrk_def hadd_def free_def free_link_def
      free_find.simps[of _ "0x3000" "0x1000"] free_find.simps[of _ "0xAF90" "0x1000"] free_find.simps[of _ "0xAF90" "0x3000"] malloc_take_def)





end
