(* ===== verification/Spec2Isabelle.thy ===== *)
theory Spec2Isabelle
  imports Smp Sched Shell Mkfs Umalloc
begin

text \<open>
  A verification library for xv6.
\<close>

section \<open>The buffer cache\<close>

lemma view_fresh:
  assumes "bio_inv s" "locked s = {}" "dirtied s = {}"
  shows "view s d b = dread s d b"
  by (rule view_clean[OF assms(1)]) (use assms(2,3) in \<open>auto simp: dirtied_def holds_def\<close>)

lemma find_skip: "\<forall>x\<in>set us. \<not> P x \<Longrightarrow> P i \<Longrightarrow> List.find P (us @ i # vs) = Some i"
  by (induction us) auto

text \<open>C5: \<^verbatim>\<open>bread\<close> of a block no one has locked, when the block is cached or a buffer can be recycled,
  returns a locked buffer with the block's current contents; what the kernel sees of every block, the disk
  and the invariant of the cache (one buffer per block, clean buffers equal to the disk, the list intact)
  are kept.\<close>

theorem bread_correct:
  assumes "bio_inv s" "can_read s dev blockno"
  shows "\<exists>i s'. bread dev blockno s = Inr (i, s') \<and> bio_inv s' \<and> holds s' i dev blockno \<and>
    b_data (bufs s' i) = view s dev blockno \<and> holdingsleep (b_lock (bufs s' i)) s' \<and>
    locked s' = insert i (locked s) \<and> i \<notin> locked s \<and> view s' = view s \<and> dwrites s' = dwrites s"
proof -
  obtain i s' where r: "bread dev blockno s = Inr (i, s')" and t: "took s dev blockno i s'"
    using bread_ok[OF assms] by blast
  then show ?thesis
    using took_hold[OF t] took_buf(3,6)[OF t] took_sets(1)[OF t] took_view[OF t] took_holds[OF t, of i]
    by (intro exI[of _ i] exI[of _ s']) simp
qed

theorem bread_correct_witness:
  "\<exists>i (s' :: log). bread 1 33 (cold (\<lambda>(d, b) k. ucast b)) = Inr (i, s') \<and> b_data (bufs s' i) 0 = 33 \<and> locked s' = {i}"
proof -
  let ?s = "cold (\<lambda>(d, b) k. ucast b)"
  have "bio_inv ?s" "can_read ?s 1 33"
    using avail_nonempty[of ?s] cold_fields(4)[of "\<lambda>(d, b) k. ucast b" "()"] by (simp_all add: can_read_def log_ready_def cold_fields)
  moreover have "view ?s 1 33 = (\<lambda>k. ucast (33 :: uint))"
    using view_fresh[OF cold_fields(1-3)[of "\<lambda>(d, b) k. ucast b" "()"]] by (simp add: cold_fields)
  ultimately show ?thesis
    using bread_correct[of ?s 1 33] by (auto simp: cold_fields)
qed

text \<open>C6: replacement is least recently used.  With the pointers forming the list \<open>xs\<close>, most recent first,
  \<^verbatim>\<open>brelse\<close> makes the buffer the first of the list, and a \<^verbatim>\<open>bget\<close> that misses takes the last
  unused clean buffer of the list.\<close>

theorem replacement_lru:
  assumes "mru (bufs s) xs" "bio_inv s" "b \<in> locked s" "holdingsleep (b_lock (bufs s b)) s"
  shows "\<exists>s'. brelse b s = Inr s' \<and> mru (bufs s') (b # remove1 b xs) \<and>
    (\<forall>dev blockno us i vs. (\<forall>j. \<not> holds s' j dev blockno) \<and> b # remove1 b xs = us @ i # vs \<and> i \<in> avail s' \<and> set vs \<inter> avail s' = {} \<longrightarrow>
       (\<exists>s''. bget dev blockno s' = Inr (i, s'')))"
proof -
  have rc: "b < NBUF" "b_refcnt (bufs s b) = 1"
    using assms(3) bio_inv_ok[OF assms(2), of b] by (auto simp: locked_def buf_ok_def Let_def)
  define bf where "bf = (bufs s b)\<lparr>b_lock := \<lparr>sl_locked = False, sl_pid = 0\<rparr>, b_refcnt := 0\<rparr>"
  define s' where "s' = s\<lparr>procs := woken (ChanBufLock b) (procs s), bufs := push_front b (unlink b ((bufs s)(b := bf)))\<rparr>"
  have ret: "brelse b s = Inr s'"
    using assms(4) rc(2) by (simp add: brelse_def releasesleep_def wakeup_eq upd_buf_def s'_def bf_def)
  have m: "mru (bufs s') (b # remove1 b xs)"
    using mru_move_front[of "(bufs s)(b := bf)" xs b] rc(1) assms(1) by (simp add: s'_def mru_upd bf_def)
  have "\<exists>s''. bget dev blockno s' = Inr (i, s'')" if "\<forall>j. \<not> holds s' j dev blockno" "b # remove1 b xs = us @ i # vs" "i \<in> avail s'"
    "set vs \<inter> avail s' = {}" for dev blockno us i vs
  proof -
    have miss: "List.find (\<lambda>i. holds s' i dev blockno) (b # remove1 b xs) = None"
      using that(1) by (simp add: find_None_iff)
    have lru: "List.find (\<lambda>i. i \<in> avail s') (rev (b # remove1 b xs)) = Some i"
      unfolding that(2) using that(3,4) find_skip[of "rev vs" "\<lambda>i. i \<in> avail s'" i "rev us"] by auto
    have i: "i < NBUF" "b_refcnt (bufs s' i) = 0" using that(3) by (auto simp: avail_def)
    then have "\<not> sl_locked (b_lock (bufs s' i))"
      using bio_inv_ok[OF assms(2) i(1)] by (auto simp: s'_def bf_def buf_ok_def Let_def split: if_splits)
    then show ?thesis
      unfolding bget_eq[OF m] miss lru option.case by (simp add: lock_buf_def acquiresleep_def upd_buf_def)
  qed
  then show ?thesis using ret m by blast
qed

theorem replacement_lru_witness:
  "\<exists>i (s :: log) s'. bread 1 33 (cold (\<lambda>_ _. 0)) = Inr (i, s) \<and> brelse i s = Inr s' \<and> (\<exists>ys. mru (bufs s') (i # ys))"
proof -
  let ?s = "cold (\<lambda>_ _. 0)"
  have "bio_inv ?s" "can_read ?s 1 33"
    using avail_nonempty[of ?s] cold_fields(4)[of "\<lambda>_ _. 0" "()"] by (simp_all add: can_read_def log_ready_def cold_fields)
  then obtain i s where r: "bread 1 33 ?s = Inr (i, s)" and t: "took ?s 1 33 i s"
    using bread_ok by blast
  obtain xs where "mru (bufs s) xs" using bio_inv_mru[OF took_hold(1)[OF t]] by blast
  from replacement_lru[OF this took_hold(1,2,4)[OF t]] show ?thesis using r by blast
qed

end
